(* ===== verification/Prelude.thy ===== *)
theory Prelude
  imports Main "HOL-Library.Product_Lexorder" "HOL-Library.Multiset"
begin

text \<open>
  Shared vocabulary of the development: how Go values and run-time failures are
  represented, the rule collections the components extend, and the generic list,
  option and map lemmas that several components use.

  \<^item> A Go \<open>string\<close> (and a \<open>[]byte\<close>) is a list of bytes, that is a HOL \<open>string\<close>:
    Isabelle's \<open>char\<close> has exactly 256 values.
  \<^item> A Go \<open>int\<close> is a HOL \<open>int\<close>. The counters of the router stay within configured
    bounds, which the development proves; where Go arithmetic could wrap
    (\<open>time.Duration\<close> products, \<open>strconv.Atoi\<close>) the 64-bit range is written out.
  \<^item> A pointer that may be \<open>nil\<close> is an \<open>option\<close>. An operation that may dereference
    a nil pointer returns a value of type \<open>'a panics\<close>, in which \<open>None\<close> is the panic.
  \<^item> A Go function that returns an \<open>error\<close> returns a sum, \<open>Inl\<close> for the error.
\<close>

type_synonym 'a panics = "'a option"

named_theorems router_wf "facts that establish or use well-formedness of the routing state"
named_theorems op_defs "definitions of the state-changing operations"


subsection \<open>The first minimum of a list\<close>

text \<open>
  Several loops of the router scan a list and keep the best element seen so far,
  replacing it only by a strictly better one. \<open>first_min\<close> is that scan over an
  arbitrary key; its result is the first element with the least key.
\<close>

fun first_min :: "('a \<Rightarrow> 'k::linorder) \<Rightarrow> 'a list \<Rightarrow> 'a option \<Rightarrow> 'a option" where
  "first_min k [] best = best"
| "first_min k (x # xs) best =
     first_min k xs (case best of None \<Rightarrow> Some x | Some b \<Rightarrow> if k x < k b then Some x else Some b)"

lemma first_min_Some: "first_min k xs (Some b) \<noteq> None"
  by (induction xs arbitrary: b) auto

lemma first_min_None_iff: "first_min k xs None = None \<longleftrightarrow> xs = []"
  by (cases xs) (auto simp: first_min_Some)

lemma first_min_Some_split:
  assumes "first_min k xs (Some b) = Some r"
  shows "(r = b \<and> (\<forall>x\<in>set xs. k b \<le> k x)) \<or>
    (\<exists>ys zs. xs = ys @ r # zs \<and> k r < k b \<and> (\<forall>y\<in>set ys. k r < k y) \<and> (\<forall>z\<in>set zs. k r \<le> k z))"
  using assms
proof (induction xs arbitrary: b)
  case Nil
  then show ?case by simp
next
  case (Cons x xs)
  show ?case
  proof (cases "k x < k b")
    case True
    with Cons.prems have "first_min k xs (Some x) = Some r" by simp
    from Cons.IH [OF this] show ?thesis
    proof (elim disjE exE conjE)
      assume "r = x" and "\<forall>y\<in>set xs. k x \<le> k y"
      with True show ?thesis by (intro disjI2 exI [of _ "[]"] exI [of _ xs]) auto
    next
      fix ys zs
      assume "xs = ys @ r # zs" and "k r < k x"
        and "\<forall>y\<in>set ys. k r < k y" and "\<forall>z\<in>set zs. k r \<le> k z"
      with True show ?thesis by (intro disjI2 exI [of _ "x # ys"] exI [of _ zs]) auto
    qed
  next
    case False
    with Cons.prems have "first_min k xs (Some b) = Some r" by simp
    from Cons.IH [OF this] show ?thesis
    proof (elim disjE exE conjE)
      assume "r = b" and "\<forall>y\<in>set xs. k b \<le> k y"
      with False show ?thesis by (intro disjI1) auto
    next
      fix ys zs
      assume "xs = ys @ r # zs" and "k r < k b"
        and "\<forall>y\<in>set ys. k r < k y" and "\<forall>z\<in>set zs. k r \<le> k z"
      with False show ?thesis by (intro disjI2 exI [of _ "x # ys"] exI [of _ zs]) auto
    qed
  qed
qed

text \<open>The scan from nothing returns the first element with the least key.\<close>

lemma first_min_split:
  assumes "first_min k xs None = Some r"
  shows "\<exists>ys zs. xs = ys @ r # zs \<and> (\<forall>y\<in>set ys. k r < k y) \<and> (\<forall>z\<in>set zs. k r \<le> k z)"
proof (cases xs)
  case Nil
  with assms show ?thesis by simp
next
  case (Cons x xs')
  with assms have "first_min k xs' (Some x) = Some r" by simp
  from first_min_Some_split [OF this] show ?thesis
  proof (elim disjE exE conjE)
    assume "r = x" and "\<forall>y\<in>set xs'. k x \<le> k y"
    with Cons show ?thesis by (intro exI [of _ "[]"] exI [of _ xs']) auto
  next
    fix ys zs
    assume "xs' = ys @ r # zs" and "k r < k x"
      and "\<forall>y\<in>set ys. k r < k y" and "\<forall>z\<in>set zs. k r \<le> k z"
    with Cons show ?thesis by (intro exI [of _ "x # ys"] exI [of _ zs]) auto
  qed
qed

lemma first_min_in_set: "first_min k xs None = Some r \<Longrightarrow> r \<in> set xs"
  by (drule first_min_split) auto

lemma first_min_le: "first_min k xs None = Some r \<Longrightarrow> x \<in> set xs \<Longrightarrow> k r \<le> k x"
  by (drule first_min_split) (fastforce intro: less_imp_le)


subsection \<open>Lists of components summed up\<close>

lemma sum_list_map_update:
  fixes f :: "'a \<Rightarrow> 'b multiset"
  assumes "i < length xs"
  shows "sum_list (map f (xs[i := y])) + f (xs ! i) = sum_list (map f xs) + f y"
  using assms
proof (induction xs arbitrary: i)
  case Nil
  then show ?case by simp
next
  case (Cons x xs)
  then show ?case by (cases i) (auto simp: ac_simps)
qed

lemma member_sum_list_map:
  fixes f :: "'a \<Rightarrow> 'b multiset"
  shows "i < length xs \<Longrightarrow> b \<in># f (xs ! i) \<Longrightarrow> b \<in># sum_list (map f xs)"
  by (auto simp: set_mset_sum_list intro!: bexI [of _ "xs ! i"])

lemma map_nth_upt: "map (\<lambda>p. f (xs ! p)) [0..<length xs] = map f xs"
  by (rule nth_equalityI) auto

lemma card_Diff_insert_less:
  assumes "finite A" and "x \<in> A" and "x \<notin> B"
  shows "card (A - insert x B) < card (A - B)"
  using assms by (intro psubset_card_mono) auto

end
