(* ===== verification/GoStrings.thy ===== *)
theory GoStrings
  imports Prelude
begin

text \<open>
  The functions of Go's \<open>strings\<close> and \<open>strconv\<close> packages the router calls, on byte
  strings: \<open>TrimSpace\<close> with Go's Unicode white space (given by its UTF-8 encodings),
  \<open>EqualFold\<close> against an ASCII literal, \<open>Split\<close>, \<open>Cut\<close>, \<open>ToLower\<close>,
  \<open>Atoi\<close> with its 64-bit range and \<open>Itoa\<close>.
\<close>

abbreviation byte :: "char \<Rightarrow> nat" where
  "byte c \<equiv> of_char c"

lemma byte_less: "byte c < 256"
  by simp

lemma byte_inject: "byte c = byte d \<longleftrightarrow> c = d"
  by simp


subsection \<open>White space\<close>

text \<open>The UTF-8 encodings of the runes for which \<open>unicode.IsSpace\<close> holds.\<close>

definition spaceRunes :: "string list" where
  "spaceRunes =
     [[CHR 0x09], [CHR 0x0A], [CHR 0x0B], [CHR 0x0C], [CHR 0x0D], [CHR 0x20], [CHR 0xC2, CHR 0x85],
      [CHR 0xC2, CHR 0xA0], [CHR 0xE1, CHR 0x9A, CHR 0x80], [CHR 0xE2, CHR 0x80, CHR 0x80], [CHR 0xE2,
      CHR 0x80, CHR 0x81], [CHR 0xE2, CHR 0x80, CHR 0x82], [CHR 0xE2, CHR 0x80, CHR 0x83], [CHR 0xE2,
      CHR 0x80, CHR 0x84], [CHR 0xE2, CHR 0x80, CHR 0x85], [CHR 0xE2, CHR 0x80, CHR 0x86], [CHR 0xE2,
      CHR 0x80, CHR 0x87], [CHR 0xE2, CHR 0x80, CHR 0x88], [CHR 0xE2, CHR 0x80, CHR 0x89], [CHR 0xE2,
      CHR 0x80, CHR 0x8A], [CHR 0xE2, CHR 0x80, CHR 0xA8], [CHR 0xE2, CHR 0x80, CHR 0xA9], [CHR 0xE2,
      CHR 0x80, CHR 0xAF], [CHR 0xE2, CHR 0x81, CHR 0x9F], [CHR 0xE3, CHR 0x80, CHR 0x80]]"

text \<open>Strips every leading occurrence of one of the given words.\<close>

function trimWords :: "string list \<Rightarrow> string \<Rightarrow> string" where
  "trimWords ws s =
     (case find (\<lambda>w. w \<noteq> [] \<and> take (length w) s = w) ws of
        None \<Rightarrow> s
      | Some w \<Rightarrow> trimWords ws (drop (length w) s))"
  by pat_completeness auto
termination
proof (relation "measure (\<lambda>(ws, s). length s)", goal_cases)
  case 1
  then show ?case by simp
next
  case (2 ws s w)
  then have "w \<noteq> []" and "take (length w) s = w" by (auto simp: find_Some_iff)
  then show ?case by (cases s; cases w) auto
qed

declare trimWords.simps [simp del]

definition TrimLeftSpace :: "string \<Rightarrow> string" where
  "TrimLeftSpace s = trimWords spaceRunes s"

definition TrimRightSpace :: "string \<Rightarrow> string" where
  "TrimRightSpace s = rev (trimWords (map rev spaceRunes) (rev s))"

definition TrimSpace :: "string \<Rightarrow> string" where
  "TrimSpace s = TrimRightSpace (TrimLeftSpace s)"

lemma trimWords_length: "length (trimWords ws s) \<le> length s"
proof (induction ws s rule: trimWords.induct)
  case (1 ws s)
  then show ?case by (subst trimWords.simps) (force split: option.splits)
qed

lemma TrimSpace_length: "length (TrimSpace s) \<le> length s"
  using trimWords_length [of spaceRunes s]
    trimWords_length [of "map rev spaceRunes" "rev (trimWords spaceRunes s)"]
  by (simp add: TrimSpace_def TrimRightSpace_def TrimLeftSpace_def)

lemma trimWords_id:
  "(\<And>w. w \<in> set ws \<Longrightarrow> w \<noteq> [] \<Longrightarrow> take (length w) s \<noteq> w) \<Longrightarrow> trimWords ws s = s"
  by (subst trimWords.simps) (auto simp: find_Some_iff split: option.splits)

lemma trimWords_suffix: "\<exists>u. s = u @ trimWords ws s"
proof (induction ws s rule: trimWords.induct)
  case (1 ws s)
  show ?case
  proof (cases "find (\<lambda>w. w \<noteq> [] \<and> take (length w) s = w) ws")
    case None
    then show ?thesis by (subst trimWords.simps) simp
  next
    case (Some w)
    then obtain u where "drop (length w) s = u @ trimWords ws (drop (length w) s)"
      using "1" by blast
    then have "s = (take (length w) s @ u) @ trimWords ws (drop (length w) s)"
      by (metis append.assoc append_take_drop_id)
    moreover have "trimWords ws s = trimWords ws (drop (length w) s)"
      using Some by (subst trimWords.simps) simp
    ultimately show ?thesis by metis
  qed
qed


subsection \<open>Letters\<close>

definition isUpper :: "char \<Rightarrow> bool" where
  "isUpper c \<longleftrightarrow> 65 \<le> byte c \<and> byte c \<le> 90"

definition isLower :: "char \<Rightarrow> bool" where
  "isLower c \<longleftrightarrow> 97 \<le> byte c \<and> byte c \<le> 122"

definition isDigit :: "char \<Rightarrow> bool" where
  "isDigit c \<longleftrightarrow> 48 \<le> byte c \<and> byte c \<le> 57"

definition toLowerByte :: "char \<Rightarrow> char" where
  "toLowerByte c = (if isUpper c then char_of (byte c + 32) else c)"

definition toUpperByte :: "char \<Rightarrow> char" where
  "toUpperByte c = (if isLower c then char_of (byte c - 32) else c)"

lemma byte_char_of: "n < 256 \<Longrightarrow> byte (char_of n) = n"
  by simp

lemma byte_toLowerByte: "byte (toLowerByte c) = (if isUpper c then byte c + 32 else byte c)"
  by (simp add: toLowerByte_def isUpper_def)

lemma byte_toUpperByte: "byte (toUpperByte c) = (if isLower c then byte c - 32 else byte c)"
  using byte_less [of c] by (auto simp: toUpperByte_def isLower_def)

lemma toLowerByte_idem [simp]: "toLowerByte (toLowerByte c) = toLowerByte c"
  by (auto simp: byte_inject [symmetric] byte_toLowerByte isUpper_def simp del: of_char_eq_iff)

lemma toUpperByte_idem [simp]: "toUpperByte (toUpperByte c) = toUpperByte c"
  by (auto simp: byte_inject [symmetric] byte_toUpperByte isLower_def simp del: of_char_eq_iff)

lemma toLowerByte_toUpperByte [simp]: "toLowerByte (toUpperByte c) = toLowerByte c"
  by (auto simp: byte_inject [symmetric] byte_toLowerByte byte_toUpperByte isLower_def isUpper_def
      simp del: of_char_eq_iff)

lemma toUpperByte_toLowerByte [simp]: "toUpperByte (toLowerByte c) = toUpperByte c"
  by (auto simp: byte_inject [symmetric] byte_toLowerByte byte_toUpperByte isLower_def isUpper_def
      simp del: of_char_eq_iff)

text \<open>Lowering of the ASCII letters; every other byte is kept.\<close>

definition lowerASCII :: "string \<Rightarrow> string" where
  "lowerASCII s = map toLowerByte s"

lemma lowerASCII_idem [simp]: "lowerASCII (lowerASCII s) = lowerASCII s"
  by (simp add: lowerASCII_def)

definition isASCII :: "string \<Rightarrow> bool" where
  "isASCII s \<longleftrightarrow> (\<forall>c\<in>set s. byte c < 128)"

text \<open>
  \<open>strings.ToLower\<close>, exact on ASCII text and on the two other runes whose lower case is
  an ASCII letter: U+0130 (bytes 196 176) and the Kelvin sign U+212A (bytes 226 132 170).
  The remaining non-ASCII letters, which Go maps to other non-ASCII letters, are kept.
\<close>

fun ToLower :: "string \<Rightarrow> string" where
  "ToLower [] = []"
| "ToLower (c # cs) =
     (if byte c = 196 \<and> map byte (take 1 cs) = [176] then CHR ''i'' # ToLower (drop 1 cs)
      else if byte c = 226 \<and> map byte (take 2 cs) = [132, 170] then CHR ''k'' # ToLower (drop 2 cs)
      else toLowerByte c # ToLower cs)"

lemma ToLower_ASCII: "isASCII s \<Longrightarrow> ToLower s = lowerASCII s"
  by (induction s rule: ToLower.induct) (auto simp: isASCII_def lowerASCII_def)

text \<open>
  \<open>strings.EqualFold s t\<close> for an ASCII \<open>t\<close>. Under Unicode simple folding the only
  non-ASCII runes that fold to an ASCII letter are U+017F (long s, bytes 197 191) and
  U+212A (Kelvin sign, bytes 226 132 170).
\<close>

fun foldASCII :: "string \<Rightarrow> string" where
  "foldASCII [] = []"
| "foldASCII (c # cs) =
     (if byte c = 197 \<and> map byte (take 1 cs) = [191] then CHR ''s'' # foldASCII (drop 1 cs)
      else if byte c = 226 \<and> map byte (take 2 cs) = [132, 170] then CHR ''k'' # foldASCII (drop 2 cs)
      else toLowerByte c # foldASCII cs)"

definition EqualFoldASCII :: "string \<Rightarrow> string \<Rightarrow> bool" where
  "EqualFoldASCII s t \<longleftrightarrow> foldASCII s = lowerASCII t"

lemma foldASCII_ASCII: "isASCII s \<Longrightarrow> foldASCII s = lowerASCII s"
  by (induction s rule: foldASCII.induct) (auto simp: isASCII_def lowerASCII_def)

lemma EqualFoldASCII_ASCII: "isASCII s \<Longrightarrow> EqualFoldASCII s t \<longleftrightarrow> lowerASCII s = lowerASCII t"
  by (simp add: EqualFoldASCII_def foldASCII_ASCII)


text \<open>A string that starts and ends with a printable ASCII byte has no space to trim.\<close>

lemma TrimSpace_id:
  assumes "s \<noteq> []" and "32 < byte (hd s)" "byte (hd s) < 127" and "32 < byte (last s)" "byte (last s) < 127"
  shows "TrimSpace s = s"
proof -
  have out: "\<not> (32 < byte c \<and> byte c < 127)" if "w \<in> set spaceRunes" and "c \<in> set w" for w c
    using that by (auto simp: spaceRunes_def)
  have "trimWords spaceRunes s = s"
  proof (rule trimWords_id)
    fix w assume w: "w \<in> set spaceRunes" "w \<noteq> []"
    then have "hd w \<noteq> hd s" using out [OF w(1), of "hd w"] assms(2,3) by auto
    with w(2) assms(1) show "take (length w) s \<noteq> w" by (cases s; cases w) auto
  qed
  moreover have "trimWords (map rev spaceRunes) (rev s) = rev s"
  proof (rule trimWords_id)
    fix w assume "w \<in> set (map rev spaceRunes)" and ne: "w \<noteq> []"
    then obtain v where v: "v \<in> set spaceRunes" "w = rev v" by auto
    then have "hd w \<noteq> hd (rev s)" using out [OF v(1), of "hd w"] ne assms(1,4,5) by (auto simp: hd_rev)
    with ne assms(1) show "take (length w) (rev s) \<noteq> w" by (cases "rev s"; cases w) auto
  qed
  ultimately show ?thesis by (simp add: TrimSpace_def TrimLeftSpace_def TrimRightSpace_def)
qed

text \<open>Trimming commutes with lowering: no byte of a white space rune is a letter.\<close>

lemma trimWords_map:
  assumes "\<forall>w\<in>set ws. \<forall>c\<in>set w. \<forall>x. f x = c \<longleftrightarrow> x = c"
  shows "trimWords ws (map f s) = map f (trimWords ws s)"
proof (induction "length s" arbitrary: s rule: less_induct)
  case less
  have same: "take (length w) (map f s) = w \<longleftrightarrow> take (length w) s = w" if "w \<in> set ws" for w
  proof -
    have "map f u = w \<longleftrightarrow> u = w" for u
      using assms that by (auto simp: list_eq_iff_nth_eq)
    then show ?thesis by (simp add: take_map)
  qed
  have eq: "find (\<lambda>w. w \<noteq> [] \<and> take (length w) (map f s) = w) ws = find (\<lambda>w. w \<noteq> [] \<and> take (length w) s = w) ws"
    using same by (intro find_cong) auto
  show ?case
  proof (cases "find (\<lambda>w. w \<noteq> [] \<and> take (length w) s = w) ws")
    case None
    with eq show ?thesis by (subst (1 2) trimWords.simps) simp
  next
    case (Some w)
    then have "w \<noteq> []" "take (length w) s = w" by (auto simp: find_Some_iff)
    then have "length (drop (length w) s) < length s" by (cases s; cases w) auto
    from less [OF this] eq Some show ?thesis by (subst (1 2) trimWords.simps) (simp add: drop_map)
  qed
qed

lemma toLowerByte_space: "w \<in> set spaceRunes \<Longrightarrow> c \<in> set w \<Longrightarrow> toLowerByte x = c \<longleftrightarrow> x = c"
proof -
  assume "w \<in> set spaceRunes" and "c \<in> set w"
  then have c: "byte c < 65 \<or> 122 < byte c"
    by (auto simp: spaceRunes_def)
  have "byte (toLowerByte x) = byte c \<longleftrightarrow> byte x = byte c"
    using c by (auto simp: byte_toLowerByte isUpper_def)
  then show ?thesis by (simp add: byte_inject)
qed

lemma TrimSpace_lowerASCII: "TrimSpace (lowerASCII s) = lowerASCII (TrimSpace s)"
proof -
  have 1: "trimWords spaceRunes (map toLowerByte u) = map toLowerByte (trimWords spaceRunes u)" for u
    by (rule trimWords_map) (use toLowerByte_space in blast)
  have 2: "trimWords (map rev spaceRunes) (map toLowerByte u) = map toLowerByte (trimWords (map rev spaceRunes) u)" for u
    by (rule trimWords_map) (use toLowerByte_space in auto)
  show ?thesis
    by (simp add: TrimSpace_def TrimRightSpace_def TrimLeftSpace_def lowerASCII_def 1 rev_map 2)
qed

lemma trimWords_set: "set (trimWords ws s) \<subseteq> set s"
  using trimWords_suffix [of s ws] by (metis set_append Un_upper2)

lemma TrimSpace_set: "set (TrimSpace s) \<subseteq> set s"
  using trimWords_set [of spaceRunes s] trimWords_set [of "map rev spaceRunes" "rev (trimWords spaceRunes s)"]
  by (auto simp: TrimSpace_def TrimRightSpace_def TrimLeftSpace_def)

lemma isASCII_TrimSpace: "isASCII s \<Longrightarrow> isASCII (TrimSpace s)"
  using TrimSpace_set [of s] by (auto simp: isASCII_def)

lemma isASCII_lowerASCII: "isASCII s \<Longrightarrow> isASCII (lowerASCII s)"
  by (auto simp: isASCII_def lowerASCII_def byte_toLowerByte isUpper_def)


subsection \<open>Cutting and splitting\<close>

text \<open>\<open>strings.Cut\<close> at the first occurrence of a byte: before, after, found.\<close>

definition Cut :: "char \<Rightarrow> string \<Rightarrow> string \<times> string \<times> bool" where
  "Cut c s = (takeWhile (\<lambda>x. x \<noteq> c) s, drop 1 (dropWhile (\<lambda>x. x \<noteq> c) s), c \<in> set s)"

text \<open>\<open>strings.Split\<close> at a separator byte: one more part than there are separators.\<close>

fun Split :: "char \<Rightarrow> string \<Rightarrow> string list" where
  "Split c [] = [[]]"
| "Split c (x # xs) =
     (if x = c then [] # Split c xs
      else (case Split c xs of [] \<Rightarrow> [[x]] | p # ps \<Rightarrow> (x # p) # ps))"

fun joinWith :: "char \<Rightarrow> string list \<Rightarrow> string" where
  "joinWith c [] = []"
| "joinWith c [p] = p"
| "joinWith c (p # ps) = p @ c # joinWith c ps"

lemma Split_nonempty: "Split c s \<noteq> []"
  by (induction s) (auto split: list.splits)

lemma joinWith_Cons: "ps \<noteq> [] \<Longrightarrow> joinWith c (p # ps) = p @ c # joinWith c ps"
  by (cases ps) auto

lemma joinWith_Split: "joinWith c (Split c s) = s"
proof (induction s)
  case Nil
  then show ?case by simp
next
  case (Cons x xs)
  obtain p ps where ps: "Split c xs = p # ps"
    using Split_nonempty [of c xs] by (cases "Split c xs") auto
  with Cons show ?case by (cases ps) (auto simp: joinWith_Cons)
qed

lemma hd_Split: "hd (Split c s) = fst (Cut c s)"
proof (induction s)
  case (Cons x xs)
  with Split_nonempty [of c xs] show ?case by (cases "Split c xs") (auto simp: Cut_def)
qed (simp add: Cut_def)

lemma Split_no_sep: "p \<in> set (Split c s) \<Longrightarrow> c \<notin> set p"
  by (induction s arbitrary: p) (auto split: if_splits list.splits)


subsection \<open>Decimal numbers\<close>

definition maxInt64 :: int where "maxInt64 = 9223372036854775807"
definition minInt64 :: int where "minInt64 = - 9223372036854775808"

fun digitsVal :: "int \<Rightarrow> string \<Rightarrow> int" where
  "digitsVal acc [] = acc"
| "digitsVal acc (c # cs) = digitsVal (10 * acc + int (byte c - 48)) cs"

text \<open>\<open>strconv.Atoi\<close>: an optional sign, then at least one digit, within the 64-bit range.\<close>

definition Atoi :: "string \<Rightarrow> int option" where
  "Atoi s =
     (let neg = (s \<noteq> [] \<and> hd s = CHR ''-'');
          ds = (if s \<noteq> [] \<and> (hd s = CHR ''-'' \<or> hd s = CHR ''+'') then tl s else s);
          v = (if neg then - digitsVal 0 ds else digitsVal 0 ds)
      in if ds = [] \<or> \<not> list_all isDigit ds then None
         else if v < minInt64 \<or> maxInt64 < v then None
         else Some v)"

fun natDigits :: "nat \<Rightarrow> string" where
  "natDigits n = (if n < 10 then [char_of (48 + n)]
     else natDigits (n div 10) @ [char_of (48 + n mod 10)])"

declare natDigits.simps [simp del]

definition Itoa :: "int \<Rightarrow> string" where
  "Itoa n = (if n < 0 then CHR ''-'' # natDigits (nat (- n)) else natDigits (nat n))"

lemma digitsVal_append: "digitsVal acc (xs @ ys) = digitsVal (digitsVal acc xs) ys"
  by (induction xs arbitrary: acc) auto

lemma natDigits_isDigit: "list_all isDigit (natDigits n)"
proof (induction n rule: natDigits.induct)
  case (1 n)
  have "isDigit (char_of (48 + d))" if "d < 10" for d :: nat
    using that by (simp add: isDigit_def)
  with "1" show ?case by (subst natDigits.simps) auto
qed

lemma natDigits_nonempty: "natDigits n \<noteq> []"
  by (subst natDigits.simps) auto

lemma digitsVal_natDigits: "digitsVal 0 (natDigits n) = int n"
proof (induction n rule: natDigits.induct)
  case (1 n)
  show ?case
  proof (cases "n < 10")
    case True
    then show ?thesis by (subst natDigits.simps) simp
  next
    case False
    with "1" have "digitsVal 0 (natDigits (n div 10)) = int (n div 10)" by simp
    moreover have "n mod 10 < 10" by simp
    ultimately show ?thesis using False
      by (subst natDigits.simps) (simp add: digitsVal_append del: of_nat_mod; presburger)
  qed
qed

lemma Atoi_Itoa:
  assumes "0 \<le> n" and "n \<le> maxInt64"
  shows "Atoi (Itoa n) = Some n"
proof -
  let ?ds = "natDigits (nat n)"
  have ne: "?ds \<noteq> []" and dig: "list_all isDigit ?ds"
    by (rule natDigits_nonempty, rule natDigits_isDigit)
  then have "isDigit (hd ?ds)" by (cases ?ds) auto
  then have "hd ?ds \<noteq> CHR ''-''" and "hd ?ds \<noteq> CHR ''+''" by (auto simp: isDigit_def)
  with ne dig assms show ?thesis
    by (simp add: Atoi_def Itoa_def Let_def digitsVal_natDigits minInt64_def)
qed

text \<open>Rules that evaluate the functions of this theory on literal strings.\<close>

lemmas string_eval = TrimSpace_def TrimRightSpace_def TrimLeftSpace_def trimWords.simps spaceRunes_def
  toLowerByte_def toUpperByte_def isUpper_def isLower_def isDigit_def lowerASCII_def char_of_def
  bit_Suc_0_iff EqualFoldASCII_def Cut_def

end
