(* ===== verification/GoHttp.thy ===== *)
theory GoHttp
  imports GoStrings
begin

text \<open>
  What the router uses of \<open>net/http\<close>: header maps with canonical keys, and the HTTP
  status codes it names. A \<open>http.Header\<close> is a Go map, iterated in an unspecified
  order: it is an association list here, and every statement about it holds for any
  order of its entries.
\<close>

subsection \<open>Canonical header keys\<close>

text \<open>The bytes of an RFC 7230 token: letters, digits and these punctuation characters.\<close>

definition tokenPunct :: "nat list" where
  "tokenPunct = [33, 35, 36, 37, 38, 39, 42, 43, 45, 46, 94, 95, 96, 124, 126]"

definition validHeaderFieldByte :: "char \<Rightarrow> bool" where
  "validHeaderFieldByte c \<longleftrightarrow>
     isUpper c \<or> isLower c \<or> isDigit c \<or> byte c \<in> set tokenPunct"

fun canonLoop :: "bool \<Rightarrow> string \<Rightarrow> string" where
  "canonLoop upper [] = []"
| "canonLoop upper (c # cs) =
     (let c' = (if upper then toUpperByte c else toLowerByte c)
      in c' # canonLoop (c' = CHR ''-'') cs)"

text \<open>
  \<open>http.CanonicalHeaderKey\<close>: the first letter and every letter after a hyphen in upper
  case, the others in lower case; a key with a byte outside the token alphabet is unchanged.
\<close>

definition CanonicalHeaderKey :: "string \<Rightarrow> string" where
  "CanonicalHeaderKey s = (if list_all validHeaderFieldByte s then canonLoop True s else s)"

lemma toUpperByte_dash [simp]: "toUpperByte c = CHR ''-'' \<longleftrightarrow> c = CHR ''-''"
  by (auto simp: byte_inject [symmetric] byte_toUpperByte isLower_def simp del: of_char_eq_iff)

lemma toLowerByte_dash [simp]: "toLowerByte c = CHR ''-'' \<longleftrightarrow> c = CHR ''-''"
  by (auto simp: byte_inject [symmetric] byte_toLowerByte isUpper_def simp del: of_char_eq_iff)

lemma isUpper_toUpperByte: "isLower c \<Longrightarrow> isUpper (toUpperByte c)"
  by (auto simp: isUpper_def byte_toUpperByte isLower_def)

lemma isLower_toLowerByte: "isUpper c \<Longrightarrow> isLower (toLowerByte c)"
  by (auto simp: isLower_def byte_toLowerByte isUpper_def)

lemma validHeaderFieldByte_toUpper [simp]:
  "validHeaderFieldByte (toUpperByte c) \<longleftrightarrow> validHeaderFieldByte c"
proof (cases "isLower c")
  case True
  then show ?thesis by (simp add: validHeaderFieldByte_def isUpper_toUpperByte)
next
  case False
  then show ?thesis by (simp add: toUpperByte_def)
qed

lemma validHeaderFieldByte_toLower [simp]:
  "validHeaderFieldByte (toLowerByte c) \<longleftrightarrow> validHeaderFieldByte c"
proof (cases "isUpper c")
  case True
  then show ?thesis by (simp add: validHeaderFieldByte_def isLower_toLowerByte)
next
  case False
  then show ?thesis by (simp add: toLowerByte_def)
qed

lemma canonLoop_valid [simp]:
  "list_all validHeaderFieldByte (canonLoop u s) \<longleftrightarrow> list_all validHeaderFieldByte s"
  by (induction u s rule: canonLoop.induct) (auto simp: Let_def)

lemma canonLoop_idem [simp]: "canonLoop u (canonLoop u s) = canonLoop u s"
  by (induction u s rule: canonLoop.induct) (auto simp: Let_def split: if_splits)

lemma lowerASCII_canonLoop: "lowerASCII (canonLoop u s) = lowerASCII s"
  by (induction u s rule: canonLoop.induct) (auto simp: Let_def lowerASCII_def)

lemma canonLoop_lowerASCII: "canonLoop u (lowerASCII s) = canonLoop u s"
  by (induction u s rule: canonLoop.induct) (auto simp: Let_def lowerASCII_def split: if_splits)

lemma CanonicalHeaderKey_idem [simp]:
  "CanonicalHeaderKey (CanonicalHeaderKey s) = CanonicalHeaderKey s"
  by (simp add: CanonicalHeaderKey_def)

lemma list_all_valid_lowerASCII [simp]:
  "list_all validHeaderFieldByte (lowerASCII s) \<longleftrightarrow> list_all validHeaderFieldByte s"
  by (induction s) (auto simp: lowerASCII_def)

text \<open>Two tokens that differ in letter case only have the same canonical key, and conversely.\<close>

lemma CanonicalHeaderKey_fold:
  assumes "list_all validHeaderFieldByte s" and "list_all validHeaderFieldByte t"
  shows "CanonicalHeaderKey s = CanonicalHeaderKey t \<longleftrightarrow> lowerASCII s = lowerASCII t"
proof
  assume "CanonicalHeaderKey s = CanonicalHeaderKey t"
  then have "lowerASCII (canonLoop True s) = lowerASCII (canonLoop True t)"
    using assms by (simp add: CanonicalHeaderKey_def)
  then show "lowerASCII s = lowerASCII t" by (simp add: lowerASCII_canonLoop)
next
  assume "lowerASCII s = lowerASCII t"
  then have "canonLoop True (lowerASCII s) = canonLoop True (lowerASCII t)" by simp
  then show "CanonicalHeaderKey s = CanonicalHeaderKey t"
    using assms by (simp add: CanonicalHeaderKey_def canonLoop_lowerASCII)
qed


subsection \<open>Header maps\<close>

type_synonym Header = "(string \<times> string list) list"

fun header_put :: "string \<Rightarrow> string list \<Rightarrow> Header \<Rightarrow> Header" where
  "header_put k vs [] = [(k, vs)]"
| "header_put k vs ((k', vs') # h) = (if k' = k then (k, vs) # h else (k', vs') # header_put k vs h)"

definition header_lookup :: "Header \<Rightarrow> string \<Rightarrow> string list" where
  "header_lookup h k = (case map_of h k of None \<Rightarrow> [] | Some vs \<Rightarrow> vs)"

definition Header_Set :: "Header \<Rightarrow> string \<Rightarrow> string \<Rightarrow> Header" where
  "Header_Set h k v = header_put (CanonicalHeaderKey k) [v] h"

definition Header_Values :: "Header \<Rightarrow> string \<Rightarrow> string list" where
  "Header_Values h k = header_lookup h (CanonicalHeaderKey k)"

definition Header_Get :: "Header \<Rightarrow> string \<Rightarrow> string" where
  "Header_Get h k = (case Header_Values h k of [] \<Rightarrow> '''' | v # _ \<Rightarrow> v)"

definition Header_Add :: "Header \<Rightarrow> string \<Rightarrow> string \<Rightarrow> Header" where
  "Header_Add h k v = header_put (CanonicalHeaderKey k) (header_lookup h (CanonicalHeaderKey k) @ [v]) h"

lemma map_of_header_put: "map_of (header_put k vs h) = (map_of h)(k \<mapsto> vs)"
  by (induction k vs h rule: header_put.induct) auto

lemma header_lookup_put [simp]:
  "header_lookup (header_put k vs h) k' = (if k' = k then vs else header_lookup h k')"
  by (simp add: header_lookup_def map_of_header_put)

lemma keys_header_put: "fst ` set (header_put k vs h) = insert k (fst ` set h)"
  by (induction k vs h rule: header_put.induct) auto

lemma distinct_header_put:
  "distinct (map fst h) \<Longrightarrow> distinct (map fst (header_put k vs h))"
  by (induction k vs h rule: header_put.induct) (auto simp: keys_header_put)

lemma Header_Values_Set [simp]:
  "Header_Values (Header_Set h k v) k' =
     (if CanonicalHeaderKey k' = CanonicalHeaderKey k then [v] else Header_Values h k')"
  by (simp add: Header_Values_def Header_Set_def)

lemma Header_Values_Add [simp]:
  "Header_Values (Header_Add h k v) k' =
     (if CanonicalHeaderKey k' = CanonicalHeaderKey k then Header_Values h k' @ [v]
      else Header_Values h k')"
  by (simp add: Header_Values_def Header_Add_def)

lemma Header_Values_empty [simp]: "Header_Values [] k = []"
  by (simp add: Header_Values_def header_lookup_def)


subsection \<open>Status codes\<close>

abbreviation (input) StatusOK :: int where "StatusOK \<equiv> 200"
abbreviation (input) StatusBadRequest :: int where "StatusBadRequest \<equiv> 400"
abbreviation (input) StatusUnauthorized :: int where "StatusUnauthorized \<equiv> 401"
abbreviation (input) StatusNotFound :: int where "StatusNotFound \<equiv> 404"
abbreviation (input) StatusMethodNotAllowed :: int where "StatusMethodNotAllowed \<equiv> 405"
abbreviation (input) StatusRequestEntityTooLarge :: int where "StatusRequestEntityTooLarge \<equiv> 413"
abbreviation (input) StatusUnsupportedMediaType :: int where "StatusUnsupportedMediaType \<equiv> 415"
abbreviation (input) StatusTooManyRequests :: int where "StatusTooManyRequests \<equiv> 429"
abbreviation (input) StatusInternalServerError :: int where "StatusInternalServerError \<equiv> 500"
abbreviation (input) StatusBadGateway :: int where "StatusBadGateway \<equiv> 502"
abbreviation (input) StatusServiceUnavailable :: int where "StatusServiceUnavailable \<equiv> 503"
abbreviation (input) StatusGatewayTimeout :: int where "StatusGatewayTimeout \<equiv> 504"

end
