(* ===== verification/GoIo.thy ===== *)
theory GoIo
  imports GoHttp
begin

text \<open>
  What the router uses of Go's \<open>io\<close> package and of the server side of \<open>net/http\<close>: error
  values, the response writer a handler gets, and the contract of one write.

  A response writer records what it was told in \<open>rw_Log\<close>. How many bytes a write accepts and
  whether it fails is decided by the network and the client: it is the parameter \<open>wr\<close>,
  a function of the writer's state and the data.
\<close>

datatype ioErr = EOF | ErrShortWrite | ErrInvalidWrite | ErrResponseIdleTimeout | OtherErr string

datatype rwEvent = RW_Header int Header | RW_Info int | RW_Write string int | RW_Flush

record ResponseWriter =
  rw_Header :: Header
  rw_Status :: "int option"
  rw_Body :: string
  rw_Flusher :: bool
  rw_Log :: "rwEvent list"

definition newResponseWriter :: "bool \<Rightarrow> ResponseWriter" where
  "newResponseWriter flusher =
     \<lparr>rw_Header = [], rw_Status = None, rw_Body = [], rw_Flusher = flusher, rw_Log = []\<rparr>"

definition commitHeader :: "int \<Rightarrow> ResponseWriter \<Rightarrow> ResponseWriter" where
  "commitHeader code w = w\<lparr>rw_Status := Some code, rw_Log := rw_Log w @ [RW_Header code (rw_Header w)]\<rparr>"

text \<open>
  \<open>WriteHeader\<close>: a second call is ignored, a code outside three digits panics (\<open>None\<close>), an
  informational code other than 101 is sent without committing the response.
\<close>

definition WriteHeader :: "ResponseWriter \<Rightarrow> int \<Rightarrow> ResponseWriter panics" where
  "WriteHeader w code =
     (if rw_Status w \<noteq> None then Some w
      else if code < 100 \<or> code > 999 then None
      else if code \<le> 199 \<and> code \<noteq> 101 then Some (w\<lparr>rw_Log := rw_Log w @ [RW_Info code]\<rparr>)
      else Some (commitHeader code w))"

definition ensureHeader :: "ResponseWriter \<Rightarrow> ResponseWriter" where
  "ensureHeader w = (if rw_Status w = None then commitHeader StatusOK w else w)"

type_synonym writeOracle = "ResponseWriter \<Rightarrow> string \<Rightarrow> int \<times> ioErr option"

definition ResponseWrite :: "writeOracle \<Rightarrow> ResponseWriter \<Rightarrow> string \<Rightarrow> ResponseWriter \<times> int \<times> ioErr option" where
  "ResponseWrite wr w p =
     (let w1 = ensureHeader w; (n, err) = wr w1 p
      in (w1\<lparr>rw_Body := rw_Body w1 @ take (nat n) p, rw_Log := rw_Log w1 @ [RW_Write p n]\<rparr>, n, err))"

definition Flush :: "ResponseWriter \<Rightarrow> ResponseWriter" where
  "Flush w = (let w1 = ensureHeader w in w1\<lparr>rw_Log := rw_Log w1 @ [RW_Flush]\<rparr>)"

lemma commitHeader_simps [simp]:
  "rw_Status (commitHeader c w) = Some c" "rw_Body (commitHeader c w) = rw_Body w"
  "rw_Header (commitHeader c w) = rw_Header w" "rw_Flusher (commitHeader c w) = rw_Flusher w"
  "rw_Log (commitHeader c w) = rw_Log w @ [RW_Header c (rw_Header w)]"
  by (simp_all add: commitHeader_def)

lemma ensureHeader_body [simp]: "rw_Body (ensureHeader w) = rw_Body w"
  by (simp add: ensureHeader_def)

lemma ensureHeader_committed [simp]: "rw_Status w = Some c \<Longrightarrow> ensureHeader w = w"
  by (simp add: ensureHeader_def)

lemma ensureHeader_status: "rw_Status (ensureHeader w) \<noteq> None"
  by (cases "rw_Status w") (simp_all add: ensureHeader_def)

lemma ResponseWrite_body: "ResponseWrite wr w p = (w', n, e) \<Longrightarrow> rw_Body w' = rw_Body w @ take (nat n) p"
  by (auto simp: ResponseWrite_def Let_def split: prod.splits)

lemma Flush_body [simp]: "rw_Body (Flush w) = rw_Body w"
  by (simp add: Flush_def Let_def)

lemma WriteHeader_None_iff: "WriteHeader w c = None \<longleftrightarrow> rw_Status w = None \<and> (c < 100 \<or> 999 < c)"
  by (auto simp: WriteHeader_def)

text \<open>A client that takes every byte.\<close>

definition acceptAll :: writeOracle where
  "acceptAll w p = (int (length p), None)"

end
