(* ===== verification/Mime.thy ===== *)
theory Mime
  imports GoHttp
begin

text \<open>
  \<open>mime.ParseMediaType\<close> of Go's standard library, which the router uses to recognise event
  streams and JSON requests. Only the media type and whether there was an error are
  returned: the router discards the parameters, but their syntax decides about errors.
\<close>

definition isTSpecial :: "char \<Rightarrow> bool" where
  "isTSpecial c \<longleftrightarrow> c \<in> set ''()<>@,;:'' \<or> byte c \<in> {92, 34} \<or> c \<in> set ''/[]?=''"

definition consumeToken :: "string \<Rightarrow> string \<times> string" where
  "consumeToken v = (takeWhile validHeaderFieldByte v, dropWhile validHeaderFieldByte v)"

text \<open>
  The body of a quoted string after its opening quote: the unescaped value and the rest
  after the closing quote, \<open>None\<close> when there is no closing quote or a line break comes first.
\<close>

fun consumeQuoted :: "string \<Rightarrow> (string \<times> string) option" where
  "consumeQuoted [] = None"
| "consumeQuoted (c # cs) =
     (if byte c = 34 then Some ([], cs)
      else if byte c = 92 \<and> (case cs of [] \<Rightarrow> False | d # _ \<Rightarrow> isTSpecial d)
        then map_option (\<lambda>(v, rest). (take 1 cs @ v, rest)) (consumeQuoted (drop 1 cs))
      else if byte c = 13 \<or> byte c = 10 then None
      else map_option (\<lambda>(v, rest). (c # v, rest)) (consumeQuoted cs))"

definition consumeValue :: "string \<Rightarrow> string \<times> string" where
  "consumeValue v =
     (case v of
        [] \<Rightarrow> ([], [])
      | c # cs \<Rightarrow> if byte c \<noteq> 34 then consumeToken v
                 else (case consumeQuoted cs of None \<Rightarrow> ([], v) | Some r \<Rightarrow> r))"

definition consumeMediaParam :: "string \<Rightarrow> (string \<times> string \<times> string) option" where
  "consumeMediaParam v =
     (case TrimLeftSpace v of
        [] \<Rightarrow> None
      | c # rest \<Rightarrow>
         if c \<noteq> CHR '';'' then None
         else (let (param, rest1) = consumeToken (TrimLeftSpace rest)
               in if param = [] then None
                  else (case TrimLeftSpace rest1 of
                          [] \<Rightarrow> None
                        | d # rest2 \<Rightarrow>
                           if d \<noteq> CHR ''='' then None
                           else (let rest3 = TrimLeftSpace rest2; (value, rest4) = consumeValue rest3
                                 in if value = [] \<and> rest4 = rest3 then None
                                    else Some (ToLower param, value, rest4)))))"

lemma TrimLeftSpace_length: "length (TrimLeftSpace s) \<le> length s"
  by (simp add: TrimLeftSpace_def trimWords_length)

lemma consumeToken_length: "length (snd (consumeToken v)) \<le> length v"
  by (simp add: consumeToken_def length_dropWhile_le)

lemma consumeQuoted_length: "consumeQuoted v = Some (a, rest) \<Longrightarrow> length rest < length v"
proof (induction v arbitrary: a rest rule: consumeQuoted.induct)
  case (2 c cs)
  then show ?case by (fastforce split: if_splits list.splits)
qed simp

lemma consumeValue_length: "length (snd (consumeValue v)) \<le> length v"
  using consumeToken_length [of v]
  by (auto simp: consumeValue_def split: list.splits option.splits dest: consumeQuoted_length)

lemma consumeMediaParam_length:
  assumes "consumeMediaParam v = Some (key, value, rest)"
  shows "length rest < length v"
proof -
  from assms obtain c r where t: "TrimLeftSpace v = c # r"
    by (auto simp: consumeMediaParam_def split: list.splits)
  from assms t obtain d r2 where t2: "TrimLeftSpace (snd (consumeToken (TrimLeftSpace r))) = d # r2"
    by (auto simp: consumeMediaParam_def Let_def split: list.splits if_splits prod.splits)
  from assms t t2 have rest: "rest = snd (consumeValue (TrimLeftSpace r2))"
    by (auto simp: consumeMediaParam_def Let_def split: list.splits if_splits prod.splits)
  have "length rest \<le> length r2"
    using rest consumeValue_length [of "TrimLeftSpace r2"] TrimLeftSpace_length [of r2] by simp
  also have "\<dots> < length (TrimLeftSpace (snd (consumeToken (TrimLeftSpace r))))" by (simp add: t2)
  also have "\<dots> \<le> length (snd (consumeToken (TrimLeftSpace r)))" by (rule TrimLeftSpace_length)
  also have "\<dots> \<le> length r"
    using consumeToken_length [of "TrimLeftSpace r"] TrimLeftSpace_length [of r] by simp
  also have "\<dots> < length v" using t TrimLeftSpace_length [of v] by simp
  finally show ?thesis .
qed

text \<open>
  The parameter loop: \<open>True\<close> when the parameters are well formed. Parameters without an
  asterisk and continuations (with one) are kept apart, but a name determines which of the
  two it belongs to, so one association list serves for the duplicate check.
\<close>

function mediaParamsOk :: "(string \<times> string) list \<Rightarrow> string \<Rightarrow> bool" where
  "mediaParamsOk seen v =
     (if TrimLeftSpace v = [] then True
      else (case consumeMediaParam (TrimLeftSpace v) of
              None \<Rightarrow> TrimSpace (TrimLeftSpace v) = '';''
            | Some (key, value, rest) \<Rightarrow>
                (case map_of seen key of
                   Some value' \<Rightarrow> value' = value \<and> mediaParamsOk seen rest
                 | None \<Rightarrow> mediaParamsOk ((key, value) # seen) rest)))"
  by pat_completeness auto
termination
  by (relation "measure (\<lambda>(seen, v). length v)")
    (auto dest!: consumeMediaParam_length intro: less_le_trans [OF _ TrimLeftSpace_length])

declare mediaParamsOk.simps [simp del]

definition checkMediaTypeDisposition :: "string \<Rightarrow> bool" where
  "checkMediaTypeDisposition s =
     (let (typ, rest) = consumeToken s
      in typ \<noteq> [] \<and>
         (case rest of
            [] \<Rightarrow> True
          | c # cs \<Rightarrow> c = CHR ''/'' \<and> fst (consumeToken cs) \<noteq> [] \<and> snd (consumeToken cs) = []))"

definition ParseMediaType :: "string \<Rightarrow> string option" where
  "ParseMediaType v =
     (let base = fst (Cut (CHR '';'') v); mediatype = TrimSpace (ToLower base)
      in if checkMediaTypeDisposition mediatype \<and> mediaParamsOk [] (drop (length base) v)
         then Some mediatype else None)"

lemmas token_eval = consumeToken_def validHeaderFieldByte_def tokenPunct_def isUpper_def isLower_def isDigit_def

lemma mediaParamsOk_Nil [simp]: "mediaParamsOk seen []"
  by (simp add: mediaParamsOk.simps string_eval)

lemma consumeMediaParam_charset:
  "consumeMediaParam ''; charset=utf-8'' = Some (''charset'', ''utf-8'', '''')"
proof -
  have s: "TrimLeftSpace ''; charset=utf-8'' = ''; charset=utf-8''" "TrimLeftSpace '' charset=utf-8'' = ''charset=utf-8''"
    "TrimLeftSpace ''=utf-8'' = ''=utf-8''" "TrimLeftSpace ''utf-8'' = ''utf-8''"
    by (simp_all add: string_eval)
  have t: "consumeToken ''charset=utf-8'' = (''charset'', ''=utf-8'')" "consumeValue ''utf-8'' = (''utf-8'', '''')"
    by (simp_all add: token_eval consumeValue_def)
  have "ToLower ''charset'' = ''charset''" by (simp add: string_eval)
  then show ?thesis by (simp add: consumeMediaParam_def s t del: ToLower.simps)
qed

lemma consumeMediaParam_no_value: "consumeMediaParam ''; charset'' = None"
proof -
  have s: "TrimLeftSpace ''; charset'' = ''; charset''" "TrimLeftSpace '' charset'' = ''charset''"
    "TrimLeftSpace '''' = ''''"
    by (simp_all add: string_eval)
  have t: "consumeToken ''charset'' = (''charset'', '''')"
    by (simp_all add: token_eval)
  show ?thesis by (simp add: consumeMediaParam_def s t)
qed

lemma ParseMediaType_sse: "ParseMediaType ''text/event-stream'' = Some ''text/event-stream''"
proof -
  have "ToLower ''text/event-stream'' = ''text/event-stream''" "TrimSpace ''text/event-stream'' = ''text/event-stream''"
    by (simp_all add: string_eval)
  moreover have "checkMediaTypeDisposition ''text/event-stream''"
    by (simp add: checkMediaTypeDisposition_def token_eval)
  ultimately show ?thesis by (simp add: ParseMediaType_def Cut_def del: ToLower.simps)
qed

lemma ParseMediaType_json: "ParseMediaType ''Application/JSON; charset=utf-8'' = Some ''application/json''"
proof -
  have "ToLower ''Application/JSON'' = ''application/json''" "TrimSpace ''application/json'' = ''application/json''"
    by (simp_all add: string_eval)
  moreover have "checkMediaTypeDisposition ''application/json''"
    by (simp add: checkMediaTypeDisposition_def token_eval)
  moreover have "mediaParamsOk [] ''; charset=utf-8''"
    by (simp add: mediaParamsOk.simps consumeMediaParam_charset string_eval)
  ultimately show ?thesis by (simp add: ParseMediaType_def Cut_def del: ToLower.simps)
qed

lemma ParseMediaType_malformed: "ParseMediaType ''text/event-stream; charset'' = None"
proof -
  have "\<not> mediaParamsOk [] ''; charset''"
    by (simp add: mediaParamsOk.simps consumeMediaParam_no_value string_eval)
  then show ?thesis by (simp add: ParseMediaType_def Cut_def del: ToLower.simps)
qed
end
