(* ===== verification/Config.thy ===== *)
theory Config
  imports GoStrings
begin

text \<open>
  \<^verbatim>\<open>internal/config/types.go\<close>: the configuration file's data and its defaults.
\<close>

record BackendConfig =
  bc_Name :: string
  bc_Kind :: string
  bc_BaseURL :: string
  bc_MaxInflight :: int
  bc_ResponseHeaderTimeoutMS :: int
  bc_ResponseIdleTimeoutMS :: int
  bc_BearerTokenEnv :: string

record RouteConfig =
  rc_Backend :: string
  rc_UpstreamModel :: string
  rc_Priority :: int

record AliasConfig =
  ac_Name :: string
  ac_Routes :: "RouteConfig list"

record Config =
  cfg_Version :: int
  cfg_Listen :: string
  cfg_BearerTokenEnv :: string
  cfg_Backends :: "BackendConfig list"
  cfg_Aliases :: "AliasConfig list"

definition DefaultListen :: string where "DefaultListen = ''127.0.0.1:8080''"
definition DefaultResponseHeaderTimeoutMS :: int where "DefaultResponseHeaderTimeoutMS = 120000"
definition DefaultResponseIdleTimeoutMS :: int where "DefaultResponseIdleTimeoutMS = 120000"
definition MaxConfigBytes :: int where "MaxConfigBytes = 1048576"

definition KindOllama :: string where "KindOllama = ''ollama''"
definition KindLlamaCPP :: string where "KindLlamaCPP = ''llama_cpp''"
definition KindVLLM :: string where "KindVLLM = ''vllm''"

definition HealthPath :: "string \<Rightarrow> string" where
  "HealthPath kind =
     (if kind = KindOllama then ''/api/version''
      else if kind = KindLlamaCPP \<or> kind = KindVLLM then ''/health''
      else '''')"

end
