(* ===== verification/Net.thy ===== *)
theory Net
  imports GoStrings
begin

text \<open>
  What the configuration code uses of Go's packages \<open>net\<close> and \<open>net/netip\<close>: host-port pairs and
  the parsing and printing of IP addresses.
\<close>

subsection \<open>Host and port\<close>

text \<open>Splitting at the last occurrence of a byte: what is before it and what is after it.\<close>

definition cutLast :: "char \<Rightarrow> string \<Rightarrow> (string \<times> string) option" where
  "cutLast c s =
     (if c \<in> set s
      then Some (rev (drop 1 (dropWhile (\<lambda>x. x \<noteq> c) (rev s))), rev (takeWhile (\<lambda>x. x \<noteq> c) (rev s)))
      else None)"

lemma cutLast_append: "c \<notin> set b \<Longrightarrow> cutLast c (a @ c # b) = Some (a, b)"
proof -
  assume "c \<notin> set b"
  then have all: "\<And>x. x \<in> set (rev b) \<Longrightarrow> x \<noteq> c" by auto
  have "takeWhile (\<lambda>x. x \<noteq> c) (rev b @ c # rev a) = rev b"
    using takeWhile_append2 [of "rev b" "\<lambda>x. x \<noteq> c"] all by simp
  moreover have "dropWhile (\<lambda>x. x \<noteq> c) (rev b @ c # rev a) = c # rev a"
    using dropWhile_append2 [of "rev b" "\<lambda>x. x \<noteq> c"] all by simp
  ultimately show ?thesis by (simp add: cutLast_def)
qed

lemma cutLast_Some:
  assumes "cutLast c s = Some (a, b)"
  shows "s = a @ c # b" and "c \<notin> set b"
proof -
  from assms have c: "c \<in> set s" and a: "a = rev (drop 1 (dropWhile (\<lambda>x. x \<noteq> c) (rev s)))"
      and b: "b = rev (takeWhile (\<lambda>x. x \<noteq> c) (rev s))"
    by (auto simp: cutLast_def split: if_splits)
  from c have "dropWhile (\<lambda>x. x \<noteq> c) (rev s) \<noteq> []" by (simp add: dropWhile_eq_Nil_conv)
  then have d: "dropWhile (\<lambda>x. x \<noteq> c) (rev s) = c # drop 1 (dropWhile (\<lambda>x. x \<noteq> c) (rev s))"
    using hd_dropWhile [of "\<lambda>x. x \<noteq> c" "rev s"] by (cases "dropWhile (\<lambda>x. x \<noteq> c) (rev s)") auto
  have "rev s = takeWhile (\<lambda>x. x \<noteq> c) (rev s) @ c # drop 1 (dropWhile (\<lambda>x. x \<noteq> c) (rev s))"
    using takeWhile_dropWhile_id [of "\<lambda>x. x \<noteq> c" "rev s"] d by simp
  then have "s = rev (c # drop 1 (dropWhile (\<lambda>x. x \<noteq> c) (rev s))) @ rev (takeWhile (\<lambda>x. x \<noteq> c) (rev s))"
    by (metis rev_append rev_rev_ident)
  with a b show "s = a @ c # b" by simp
  show "c \<notin> set b" unfolding b by (auto dest: set_takeWhileD)
qed

definition SplitHostPort :: "string \<Rightarrow> (string \<times> string) option" where
  "SplitHostPort hostport =
     (case cutLast (CHR '':'') hostport of
        None \<Rightarrow> None
      | Some (front, port) \<Rightarrow>
         if take 1 hostport = ''['' then
           (let (inside, after, closed) = Cut (CHR '']'') hostport
            in if \<not> closed then None
               else if inside @ '']'' \<noteq> front then None
               else if CHR ''['' \<in> set (drop 1 hostport) then None
               else if CHR '']'' \<in> set after then None
               else Some (drop 1 inside, port))
         else if CHR '':'' \<in> set front then None
         else if CHR ''['' \<in> set hostport \<or> CHR '']'' \<in> set hostport then None
         else Some (front, port))"

definition JoinHostPort :: "string \<Rightarrow> string \<Rightarrow> string" where
  "JoinHostPort host port =
     (if CHR '':'' \<in> set host then ''['' @ host @ '']:'' @ port else host @ '':'' @ port)"

lemma JoinHostPort_inject:
  assumes "CHR '':'' \<notin> set p" and "CHR '':'' \<notin> set q"
  shows "JoinHostPort h p = JoinHostPort g q \<longleftrightarrow> h = g \<and> p = q"
proof
  assume eq: "JoinHostPort h p = JoinHostPort g q"
  define f where "f = (\<lambda>h. if CHR '':'' \<in> set h then ''['' @ h @ '']'' else h)"
  have j: "JoinHostPort h p = f h @ CHR '':'' # p" for h p by (simp add: JoinHostPort_def f_def)
  from eq have "f h @ CHR '':'' # p = f g @ CHR '':'' # q" by (simp only: j)
  then have "Some (f h, p) = Some (f g, q)"
    unfolding cutLast_append [OF assms(1), of "f h", symmetric] cutLast_append [OF assms(2), of "f g", symmetric]
    by (simp only:)
  then have "f h = f g" "p = q" by simp_all
  moreover have "CHR '':'' \<in> set (f h) \<longleftrightarrow> CHR '':'' \<in> set h" for h by (simp add: f_def)
  ultimately have "CHR '':'' \<in> set h \<longleftrightarrow> CHR '':'' \<in> set g" by metis
  with \<open>f h = f g\<close> \<open>p = q\<close> show "h = g \<and> p = q" by (cases "CHR '':'' \<in> set h") (simp_all add: f_def)
qed simp


subsection \<open>IP addresses\<close>

text \<open>An IPv4 address is four bytes, an IPv6 address eight groups of 16 bits.\<close>

datatype Addr = Addr4 "nat list" | Addr6 "nat list"

definition parseOctet :: "string \<Rightarrow> nat option" where
  "parseOctet s =
     (if s = '''' \<or> \<not> list_all isDigit s \<or> length s > 3 \<or> (length s > 1 \<and> hd s = CHR ''0'') then None
      else (let v = nat (digitsVal 0 s) in if v > 255 then None else Some v))"

fun parseOctets :: "string list \<Rightarrow> nat list option" where
  "parseOctets [] = Some []"
| "parseOctets (p # ps) =
     (case parseOctet p of
        None \<Rightarrow> None
      | Some v \<Rightarrow> map_option (\<lambda>vs. v # vs) (parseOctets ps))"

definition parseIPv4Fields :: "string \<Rightarrow> nat list option" where
  "parseIPv4Fields s = (if length (Split (CHR ''.'') s) = 4 then parseOctets (Split (CHR ''.'') s) else None)"

definition hexVal :: "char \<Rightarrow> nat option" where
  "hexVal c =
     (if isDigit c then Some (byte c - 48)
      else if 97 \<le> byte c \<and> byte c \<le> 102 then Some (byte c - 87)
      else if 65 \<le> byte c \<and> byte c \<le> 70 then Some (byte c - 55)
      else None)"

definition hexNum :: "string \<Rightarrow> nat" where
  "hexNum s = foldl (\<lambda>acc c. 16 * acc + the (hexVal c)) 0 s"

text \<open>
  The group loop of \<open>parseIPv6\<close>: the groups so far, the position of the ellipsis, and the rest
  of the text. At most eight groups are read, so the first argument counts down from 8.
\<close>

fun parseGroups :: "nat \<Rightarrow> nat list \<Rightarrow> nat option \<Rightarrow> string \<Rightarrow> (nat list \<times> nat option \<times> string) option" where
  "parseGroups 0 gs ell s = Some (gs, ell, s)"
| "parseGroups (Suc k) gs ell s =
     (let digits = takeWhile (\<lambda>c. hexVal c \<noteq> None) s; rest = dropWhile (\<lambda>c. hexVal c \<noteq> None) s
      in if digits = [] \<or> length digits > 4 then None
         else if take 1 rest = ''.'' then
           (if ell = None \<and> length gs \<noteq> 6 then None
            else if length gs > 6 then None
            else (case parseIPv4Fields s of
                Some [a, b, c, d] \<Rightarrow> Some (gs @ [256 * a + b, 256 * c + d], ell, '''')
              | _ \<Rightarrow> None))
         else
           (let gs1 = gs @ [hexNum digits]
            in case rest of
                 [] \<Rightarrow> Some (gs1, ell, '''')
               | [c] \<Rightarrow> None
               | c # d # rest1 \<Rightarrow>
                   if c \<noteq> CHR '':'' then None
                   else if d = CHR '':'' then
                     (if ell \<noteq> None then None
                      else if rest1 = [] then Some (gs1, Some (length gs1), '''')
                      else parseGroups k gs1 (Some (length gs1)) rest1)
                   else parseGroups k gs1 ell (d # rest1)))"

definition expandGroups :: "nat list \<Rightarrow> nat option \<Rightarrow> nat list option" where
  "expandGroups gs ell =
     (if length gs < 8 then
        (case ell of
           None \<Rightarrow> None
         | Some e \<Rightarrow> Some (take e gs @ replicate (8 - length gs) 0 @ drop e gs))
      else if ell \<noteq> None then None else Some gs)"

text \<open>\<open>parseIPv6\<close>, returning the address and the zone.\<close>

definition parseIPv6 :: "string \<Rightarrow> (Addr \<times> string) option" where
  "parseIPv6 text =
     (let (s, zone, hasZone) = Cut (CHR ''%'') text
      in if hasZone \<and> zone = '''' then None
         else
          (let lead = (take 2 s = ''::''); s1 = (if lead then drop 2 s else s)
           in if lead \<and> s1 = '''' then Some (Addr6 (replicate 8 0), zone)
              else (case parseGroups 8 [] (if lead then Some 0 else None) s1 of
                  None \<Rightarrow> None
                | Some (gs, ell, rest) \<Rightarrow>
                    if rest \<noteq> '''' then None else map_option (\<lambda>g. (Addr6 g, zone)) (expandGroups gs ell))))"

text \<open>\<open>netip.ParseAddr\<close>: the first dot, colon or percent sign decides the form.\<close>

definition ParseAddr :: "string \<Rightarrow> (Addr \<times> string) option" where
  "ParseAddr s =
     (case find (\<lambda>c. c \<in> set ''.:%'') s of
        None \<Rightarrow> None
      | Some c \<Rightarrow>
         if c = CHR ''.'' then map_option (\<lambda>f. (Addr4 f, '''')) (parseIPv4Fields s)
         else if c = CHR '':'' then parseIPv6 s
         else None)"

definition ParseIP :: "string \<Rightarrow> Addr option" where
  "ParseIP s = (case ParseAddr s of None \<Rightarrow> None | Some (a, zone) \<Rightarrow> if zone \<noteq> '''' then None else Some a)"


subsection \<open>Printing addresses\<close>

definition octetsString :: "nat list \<Rightarrow> string" where
  "octetsString f = joinWith (CHR ''.'') (map natDigits f)"

function hexDigits :: "nat \<Rightarrow> string" where
  "hexDigits n = (if n < 16 then [''0123456789abcdef'' ! n] else hexDigits (n div 16) @ [''0123456789abcdef'' ! (n mod 16)])"
  by pat_completeness auto
termination by (relation "measure id") auto

declare hexDigits.simps [simp del]

text \<open>The length of the run of zero groups at the start of a list.\<close>

definition zeroRun :: "nat list \<Rightarrow> nat" where
  "zeroRun gs = length (takeWhile (\<lambda>g. g = 0) gs)"

text \<open>The first longest run of at least two zero groups, as its start and end.\<close>

fun longestZeros :: "nat \<Rightarrow> nat list \<Rightarrow> nat \<times> nat \<Rightarrow> nat \<times> nat" where
  "longestZeros i [] best = best"
| "longestZeros i (g # gs) best =
     (let l = zeroRun (g # gs)
      in longestZeros (Suc i) gs (if l \<ge> 2 \<and> l > snd best - fst best then (i, i + l) else best))"

definition groupsString :: "nat list \<Rightarrow> string" where
  "groupsString gs =
     (let (z, e) = longestZeros 0 gs (0, 0)
      in if e = 0 then joinWith (CHR '':'') (map hexDigits gs)
         else joinWith (CHR '':'') (map hexDigits (take z gs)) @ ''::'' @ joinWith (CHR '':'') (map hexDigits (drop e gs)))"

text \<open>\<open>IP.String\<close>: an IPv4-mapped IPv6 address is printed in dotted form.\<close>

definition IPString :: "Addr \<Rightarrow> string" where
  "IPString a =
     (case a of
        Addr4 f \<Rightarrow> octetsString f
      | Addr6 gs \<Rightarrow>
          if take 6 gs = [0, 0, 0, 0, 0, 65535]
          then octetsString [gs ! 6 div 256, gs ! 6 mod 256, gs ! 7 div 256, gs ! 7 mod 256]
          else groupsString gs)"

end
