(* ===== verification/Addresses.thy ===== *)
theory Addresses
  imports Net
begin

text \<open>
  Printing and parsing IP addresses are inverse to each other: \<open>IPString\<close> of a parsed address
  parses to the same address, so two literals are printed alike exactly if they name the same
  address. The origin keys of the configuration rest on this.
\<close>

subsection \<open>The address a literal names\<close>

text \<open>
  The 16-byte form of \<open>net.IP\<close>, as eight groups of 16 bits: an IPv4 address is the IPv6 address it
  is mapped to.
\<close>

definition groups16 :: "Addr \<Rightarrow> nat list" where
  "groups16 a =
     (case a of
        Addr4 f \<Rightarrow> [0, 0, 0, 0, 0, 65535, 256 * f ! 0 + f ! 1, 256 * f ! 2 + f ! 3]
      | Addr6 gs \<Rightarrow> gs)"

definition addr_ok :: "Addr \<Rightarrow> bool" where
  "addr_ok a \<longleftrightarrow>
     (case a of
        Addr4 f \<Rightarrow> length f = 4 \<and> list_all (\<lambda>v. v < 256) f
      | Addr6 gs \<Rightarrow> length gs = 8 \<and> list_all (\<lambda>g. g < 65536) gs)"

subsection \<open>Parsed addresses are in range\<close>

lemma parseOctets_ok: "parseOctets ps = Some vs \<Longrightarrow> length vs = length ps \<and> list_all (\<lambda>v. v < 256) vs"
  by (induction ps arbitrary: vs) (auto simp: parseOctet_def Let_def split: option.splits if_splits)

lemma parseIPv4Fields_ok: "parseIPv4Fields s = Some f \<Longrightarrow> length f = 4 \<and> list_all (\<lambda>v. v < 256) f"
  using parseOctets_ok by (fastforce simp: parseIPv4Fields_def split: if_splits)

lemma hexVal_less: "hexVal c = Some v \<Longrightarrow> v < 16"
  by (auto simp: hexVal_def isDigit_def split: if_splits)

lemma hexNum_append: "hexNum (xs @ [c]) = 16 * hexNum xs + the (hexVal c)"
  by (simp add: hexNum_def)

lemma hexNum_less: "list_all (\<lambda>c. hexVal c \<noteq> None) s \<Longrightarrow> hexNum s < 16 ^ length s"
proof (induction s rule: rev_induct)
  case (snoc c s)
  then have "the (hexVal c) < 16" using hexVal_less by auto
  moreover have "hexNum s + 1 \<le> 16 ^ length s" using snoc by simp
  then have "16 * (hexNum s + 1) \<le> 16 * 16 ^ length s" by (rule mult_le_mono2)
  ultimately show ?case by (simp add: hexNum_append)
qed (simp add: hexNum_def)

text \<open>The digits a group starts with, and what follows them.\<close>

definition hexRun :: "string \<Rightarrow> string" where
  "hexRun s = takeWhile (\<lambda>c. hexVal c \<noteq> None) s"

definition hexRest :: "string \<Rightarrow> string" where
  "hexRest s = dropWhile (\<lambda>c. hexVal c \<noteq> None) s"

lemma parseGroups_Suc:
  "parseGroups (Suc k) gs ell s =
     (if hexRun s = [] \<or> length (hexRun s) > 4 then None
      else if take 1 (hexRest s) = ''.'' then
        (if ell = None \<and> length gs \<noteq> 6 then None
         else if length gs > 6 then None
         else (case parseIPv4Fields s of
             Some [a, b, c, d] \<Rightarrow> Some (gs @ [256 * a + b, 256 * c + d], ell, '''')
           | _ \<Rightarrow> None))
      else
        (let gs1 = gs @ [hexNum (hexRun s)]
         in case hexRest s of
              [] \<Rightarrow> Some (gs1, ell, '''')
            | [c] \<Rightarrow> None
            | c # d # rest1 \<Rightarrow>
                if c \<noteq> CHR '':'' then None
                else if d = CHR '':'' then
                  (if ell \<noteq> None then None
                   else if rest1 = [] then Some (gs1, Some (length gs1), '''')
                   else parseGroups k gs1 (Some (length gs1)) rest1)
                else parseGroups k gs1 ell (d # rest1)))"
  unfolding parseGroups.simps Let_def hexRun_def [symmetric] hexRest_def [symmetric] by (rule refl)

declare parseGroups.simps(2) [simp del]

lemma hexRun_less: "length (hexRun s) \<le> 4 \<Longrightarrow> hexNum (hexRun s) < 65536"
proof -
  assume l: "length (hexRun s) \<le> 4"
  have "list_all (\<lambda>c. hexVal c \<noteq> None) (hexRun s)"
    unfolding hexRun_def list_all_iff by (blast dest: set_takeWhileD)
  note hexNum_less [OF this]
  also have "(16::nat) ^ length (hexRun s) \<le> 16 ^ 4" using l by (intro power_increasing) simp_all
  finally show ?thesis by simp
qed

lemma parseGroups_ok:
  assumes "parseGroups k gs ell s = Some (gs', ell', r)" and "list_all (\<lambda>g. g < 65536) gs" and "length gs + k \<le> 8"
  shows "list_all (\<lambda>g. g < 65536) gs' \<and> length gs' \<le> 8"
  using assms
proof (induction k arbitrary: gs ell s)
  case (Suc k)
  have d: "hexRun s \<noteq> []" "length (hexRun s) \<le> 4" using Suc.prems(1) by (auto simp: parseGroups_Suc split: if_splits)
  have ok: "list_all (\<lambda>g. g < 65536) (gs @ [hexNum (hexRun s)])" "length (gs @ [hexNum (hexRun s)]) + k \<le> 8"
    using hexRun_less [OF d(2)] Suc.prems(2,3) by simp_all
  note IH = Suc.IH [OF _ ok]
  show ?case
  proof (cases "take 1 (hexRest s) = ''.''")
    case True
    with Suc.prems(1) d obtain a b c e where v4: "parseIPv4Fields s = Some [a, b, c, e]" "length gs \<le> 6"
        "gs' = gs @ [256 * a + b, 256 * c + e]"
      by (auto simp: parseGroups_Suc split: if_splits option.splits list.splits)
    from parseIPv4Fields_ok [OF v4(1)] v4(2,3) Suc.prems(2) show ?thesis by simp
  next
    case False
    with Suc.prems(1) ok show ?thesis
      by (auto simp: parseGroups_Suc Let_def split: if_splits list.splits dest!: IH)
  qed
qed auto

lemma expandGroups_ok:
  assumes "list_all (\<lambda>g. g < 65536) gs" and "length gs \<le> 8" and "expandGroups gs ell = Some hs"
  shows "addr_ok (Addr6 hs)"
proof -
  have z: "list_all (\<lambda>g. g < 65536) (replicate n (0::nat))" for n by (simp add: list_all_iff)
  from assms(1) have "list_all (\<lambda>g. g < 65536) (take n gs)" "list_all (\<lambda>g. g < 65536) (drop n gs)" for n
    by (auto simp: list_all_iff dest: in_set_takeD in_set_dropD)
  with assms z show ?thesis by (auto simp: expandGroups_def addr_ok_def split: if_splits option.splits)
qed

lemma parseIPv6_ok: "parseIPv6 s = Some (a, z) \<Longrightarrow> addr_ok a"
proof -
  have zero: "addr_ok (Addr6 (replicate 8 0))" by (simp add: addr_ok_def list_all_iff)
  have ex: "addr_ok (Addr6 hs)" if "parseGroups 8 [] ell t = Some (gs, ell', r)" "expandGroups gs ell' = Some hs" for ell t gs ell' r hs
    using parseGroups_ok [OF that(1)] expandGroups_ok [OF _ _ that(2)] by simp
  assume "parseIPv6 s = Some (a, z)"
  then show ?thesis
    by (auto simp: parseIPv6_def Let_def zero split: prod.splits if_splits option.splits intro: ex)
qed

lemma ParseIP_ok: "ParseIP s = Some a \<Longrightarrow> addr_ok a"
proof -
  assume "ParseIP s = Some a"
  then obtain z where "ParseAddr s = Some (a, z)" by (auto simp: ParseIP_def split: option.splits if_splits)
  then show ?thesis
    using parseIPv6_ok parseIPv4Fields_ok by (auto simp: ParseAddr_def addr_ok_def split: option.splits if_splits)
qed


subsection \<open>Octets\<close>

lemma Split_joinWith: "ps \<noteq> [] \<Longrightarrow> list_all (\<lambda>p. c \<notin> set p) ps \<Longrightarrow> Split c (joinWith c ps) = ps"
proof (induction ps)
  case (Cons p ps)
  have one: "c \<notin> set p \<Longrightarrow> Split c p = [p]" for p by (induction p) auto
  have more: "c \<notin> set p \<Longrightarrow> Split c (p @ c # r) = p # Split c r" for p r by (induction p) auto
  show ?case
  proof (cases "ps = []")
    case True
    with Cons.prems one show ?thesis by simp
  next
    case False
    with Cons more show ?thesis by (simp add: joinWith_Cons)
  qed
qed simp

lemma natDigits_byte:
  assumes "v < 256"
  shows "length (natDigits v) \<le> 3" and "1 < length (natDigits v) \<Longrightarrow> hd (natDigits v) \<noteq> CHR ''0''"
proof -
  have one: "natDigits d = [char_of (48 + d)]" if "d < 10" for d using that by (subst natDigits.simps) simp
  have nz: "char_of (48 + d) \<noteq> CHR ''0''" if "0 < d" "d < 10" for d :: nat
  proof
    assume "char_of (48 + d) = CHR ''0''"
    then have "byte (char_of (48 + d)) = byte (CHR ''0'')" by simp
    with that show False by simp
  qed
  have two: "natDigits d = [char_of (48 + d div 10), char_of (48 + d mod 10)]" if "10 \<le> d" "d < 100" for d
    using that by (subst natDigits.simps) (simp add: one)
  have three: "natDigits d = [char_of (48 + d div 100), char_of (48 + d div 10 mod 10), char_of (48 + d mod 10)]" if "100 \<le> d" "d < 1000" for d
    using that by (subst natDigits.simps) (simp add: two div_mult2_eq [of d 10 10, simplified])
  have "length (natDigits v) \<le> 3 \<and> (1 < length (natDigits v) \<longrightarrow> hd (natDigits v) \<noteq> CHR ''0'')"
  proof -
    consider "v < 10" | "10 \<le> v" "v < 100" | "100 \<le> v" by linarith
    then show ?thesis
      by cases (use assms nz [of "v div 10"] nz [of "v div 100"] in \<open>simp_all add: one two three\<close>)
  qed
  then show "length (natDigits v) \<le> 3" and "1 < length (natDigits v) \<Longrightarrow> hd (natDigits v) \<noteq> CHR ''0''" by blast+
qed

lemma parseOctet_natDigits: "v < 256 \<Longrightarrow> parseOctet (natDigits v) = Some v"
  using natDigits_byte [of v] natDigits_isDigit [of v]
  by (auto simp: parseOctet_def natDigits_nonempty digitsVal_natDigits Let_def)

lemma parseOctets_natDigits: "list_all (\<lambda>v. v < 256) f \<Longrightarrow> parseOctets (map natDigits f) = Some f"
  by (induction f) (simp_all add: parseOctet_natDigits)

lemma digits_only: "c \<in> set (natDigits v) \<Longrightarrow> isDigit c"
  using natDigits_isDigit [of v] by (simp add: list_all_iff)

text \<open>The byte that decides the form of a literal.\<close>

lemma find_first: "list_all (\<lambda>x. \<not> P x) p \<Longrightarrow> P c \<Longrightarrow> find P (p @ c # r) = Some c"
  by (induction p) auto

lemma ParseIP_octets:
  assumes "length f = 4" and "list_all (\<lambda>v. v < 256) f"
  shows "ParseIP (octetsString f) = Some (Addr4 f)"
proof -
  obtain a b c d where f: "f = [a, b, c, d]" using assms(1) by (auto simp: numeral_eq_Suc length_Suc_conv)
  have dot: "list_all (\<lambda>p. CHR ''.'' \<notin> set p) (map natDigits f)"
    by (auto simp: list_all_iff isDigit_def dest!: digits_only)
  have "Split (CHR ''.'') (octetsString f) = map natDigits f"
    unfolding octetsString_def by (rule Split_joinWith) (use f dot in auto)
  then have v4: "parseIPv4Fields (octetsString f) = Some f"
    using parseOctets_natDigits [OF assms(2)] assms(1) by (simp add: parseIPv4Fields_def)
  have "octetsString f = natDigits a @ CHR ''.'' # joinWith (CHR ''.'') (map natDigits [b, c, d])"
    by (simp add: octetsString_def f)
  moreover have "list_all (\<lambda>x. \<not> x \<in> set ''.:%'') (natDigits a)"
    by (auto simp: list_all_iff isDigit_def dest!: digits_only)
  ultimately have "find (\<lambda>c. c \<in> set ''.:%'') (octetsString f) = Some (CHR ''.'')"
    using find_first [of "\<lambda>c. c \<in> set ''.:%''" "natDigits a" "CHR ''.''"] by simp
  with v4 show ?thesis by (simp add: ParseIP_def ParseAddr_def)
qed


subsection \<open>Groups\<close>

lemma hexVal_digit: "n < 16 \<Longrightarrow> hexVal (''0123456789abcdef'' ! n) = Some n"
proof -
  have "\<forall>n<16. hexVal (''0123456789abcdef'' ! n) = Some n"
    by (simp add: All_less_Suc numeral_eq_Suc hexVal_def isDigit_def)
  then show "n < 16 \<Longrightarrow> hexVal (''0123456789abcdef'' ! n) = Some n" by blast
qed

lemma hexDigits_ok: "list_all (\<lambda>c. hexVal c \<noteq> None) (hexDigits n) \<and> hexDigits n \<noteq> [] \<and> hexNum (hexDigits n) = n"
proof (induction n rule: hexDigits.induct)
  case (1 n)
  show ?case
  proof (cases "n < 16")
    case True
    then show ?thesis by (subst (1 2 3) hexDigits.simps) (simp add: hexVal_digit hexNum_def)
  next
    case False
    moreover have "n mod 16 < 16" by simp
    ultimately show ?thesis using 1 hexVal_digit [of "n mod 16"]
      by (subst (1 2 3) hexDigits.simps) (simp add: hexNum_append)
  qed
qed

lemma hexDigits_length: "n < 16 ^ Suc k \<Longrightarrow> length (hexDigits n) \<le> Suc k"
proof (induction k arbitrary: n)
  case 0
  then show ?case by (subst hexDigits.simps) simp
next
  case (Suc k)
  then have "n div 16 < 16 ^ Suc k" by (simp add: less_mult_imp_div_less mult.commute)
  from Suc.IH [OF this] show ?case by (subst hexDigits.simps) simp
qed

text \<open>A printed group is read back, up to a separator or the end.\<close>

definition sep :: "string \<Rightarrow> bool" where
  "sep r \<longleftrightarrow> r = [] \<or> hd r = CHR '':''"

lemma group_read:
  assumes "sep r"
  shows "hexRun (hexDigits g @ r) = hexDigits g" "hexRest (hexDigits g @ r) = r"
proof -
  have all: "\<And>c. c \<in> set (hexDigits g) \<Longrightarrow> hexVal c \<noteq> None" using hexDigits_ok [of g] by (auto simp: list_all_iff)
  have stop: "takeWhile (\<lambda>c. hexVal c \<noteq> None) r = []" "dropWhile (\<lambda>c. hexVal c \<noteq> None) r = r"
    using assms by (cases r; simp add: sep_def hexVal_def isDigit_def)+
  show "hexRun (hexDigits g @ r) = hexDigits g" "hexRest (hexDigits g @ r) = r"
    unfolding hexRun_def hexRest_def
    using takeWhile_append2 [of "hexDigits g" "\<lambda>c. hexVal c \<noteq> None" r] dropWhile_append2 [of "hexDigits g" "\<lambda>c. hexVal c \<noteq> None" r] all stop
    by simp_all
qed

lemma group_step:
  assumes "g < 65536" and "sep r"
  shows "parseGroups (Suc k) gs ell (hexDigits g @ r) =
     (case r of
        [] \<Rightarrow> Some (gs @ [g], ell, '''')
      | [c] \<Rightarrow> None
      | c # d # rest1 \<Rightarrow>
          if d = CHR '':'' then
            (if ell \<noteq> None then None
             else if rest1 = [] then Some (gs @ [g], Some (length (gs @ [g])), '''')
             else parseGroups k (gs @ [g]) (Some (length (gs @ [g]))) rest1)
          else parseGroups k (gs @ [g]) ell (d # rest1))"
proof -
  have "length (hexDigits g) \<le> 4" using hexDigits_length [of g 3] assms(1) by simp
  moreover have "take 1 r \<noteq> ''.''" using assms(2) by (cases r) (auto simp: sep_def)
  moreover have "\<And>c cs. r = c # cs \<Longrightarrow> c = CHR '':''" using assms(2) by (auto simp: sep_def)
  ultimately show ?thesis
    using hexDigits_ok [of g] by (simp add: parseGroups_Suc group_read [OF assms(2)] Let_def split: list.split)
qed

abbreviation colons :: "nat list \<Rightarrow> string" where
  "colons gs \<equiv> joinWith (CHR '':'') (map hexDigits gs)"

lemma colons_hd: "gs \<noteq> [] \<Longrightarrow> \<exists>d ds. colons gs @ r = d # ds \<and> hexVal d \<noteq> None"
proof -
  assume "gs \<noteq> []"
  then obtain g hs where gs: "gs = g # hs" by (cases gs) auto
  obtain d ds where "hexDigits g = d # ds" "hexVal d \<noteq> None" using hexDigits_ok [of g] by (cases "hexDigits g") auto
  then show ?thesis by (cases "hs = []") (auto simp: gs joinWith_Cons)
qed

lemma not_colon: "hexVal d \<noteq> None \<Longrightarrow> d \<noteq> CHR '':''"
  by (auto simp: hexVal_def isDigit_def)

lemma parseGroups_colons:
  assumes "gs \<noteq> []" and "list_all (\<lambda>g. g < 65536) gs" and "length gs \<le> k"
  shows "parseGroups k acc ell (colons gs) = Some (acc @ gs, ell, '''')"
  using assms
proof (induction gs arbitrary: k acc)
  case (Cons g gs)
  then obtain j where k: "k = Suc j" "length gs \<le> j" by (cases k) auto
  show ?case
  proof (cases "gs = []")
    case True
    with Cons.prems k(1) group_step [of g "[]" j acc ell] show ?thesis by (simp add: sep_def)
  next
    case False
    from colons_hd [OF False, of "[]"] obtain d ds where d: "colons gs = d # ds" "hexVal d \<noteq> None" by auto
    have "parseGroups j (acc @ [g]) ell (colons gs) = Some ((acc @ [g]) @ gs, ell, '''')"
      using Cons.IH [OF False, of j "acc @ [g]"] Cons.prems(2) k(2) by simp
    with Cons.prems(2) k(1) False not_colon [OF d(2)] group_step [of g "CHR '':'' # colons gs" j acc ell] d(1) show ?thesis
      by (simp add: sep_def joinWith_Cons)
  qed
qed simp

lemma parseGroups_ellipsis:
  assumes "gs \<noteq> []" and "list_all (\<lambda>g. g < 65536) gs" and "length gs \<le> k"
  shows "parseGroups k acc None (colons gs @ ''::'' @ t) =
    (if t = [] then Some (acc @ gs, Some (length (acc @ gs)), '''')
     else parseGroups (k - length gs) (acc @ gs) (Some (length (acc @ gs))) t)"
  using assms
proof (induction gs arbitrary: k acc)
  case (Cons g gs)
  then obtain j where k: "k = Suc j" "length gs \<le> j" by (cases k) auto
  show ?case
  proof (cases "gs = []")
    case True
    with Cons.prems k(1) group_step [of g "''::'' @ t" j acc None] show ?thesis by (simp add: sep_def)
  next
    case False
    from colons_hd [OF False, of "''::'' @ t"] obtain d ds where d: "colons gs @ ''::'' @ t = d # ds" "hexVal d \<noteq> None" by auto
    have "parseGroups j (acc @ [g]) None (colons gs @ ''::'' @ t) =
        (if t = [] then Some ((acc @ [g]) @ gs, Some (length ((acc @ [g]) @ gs)), '''')
         else parseGroups (j - length gs) ((acc @ [g]) @ gs) (Some (length ((acc @ [g]) @ gs))) t)"
      using Cons.IH [OF False, of j "acc @ [g]"] Cons.prems(2) k(2) by simp
    with Cons.prems(2) k(1) False not_colon [OF d(2)] group_step [of g "CHR '':'' # colons gs @ ''::'' @ t" j acc None] d(1) show ?thesis
      by (simp add: sep_def joinWith_Cons)
  qed
qed simp


subsection \<open>The omitted run of zeros\<close>

lemma zeroRun_zeros: "zeroRun gs \<le> length gs \<and> take (zeroRun gs) gs = replicate (zeroRun gs) 0"
  by (induction gs) (auto simp: zeroRun_def)

lemma longestZeros_zeros:
  assumes "longestZeros i gs best = (z, e)" and "(z, e) \<noteq> best"
  shows "i \<le> z \<and> z + 2 \<le> e \<and> e \<le> i + length gs \<and> take (e - z) (drop (z - i) gs) = replicate (e - z) 0"
  using assms
proof (induction i gs best rule: longestZeros.induct)
  case (2 i g gs best)
  let ?l = "zeroRun (g # gs)"
  let ?best = "if ?l \<ge> 2 \<and> ?l > snd best - fst best then (i, i + ?l) else best"
  have run: "longestZeros (Suc i) gs ?best = (z, e)" using "2.prems"(1) by (simp add: Let_def)
  show ?case
  proof (cases "(z, e) = ?best")
    case True
    with "2.prems"(2) have "?l \<ge> 2" "z = i" "e = i + ?l" by (auto split: if_splits)
    with zeroRun_zeros [of "g # gs"] show ?thesis by auto
  next
    case False
    from "2.IH" [OF refl run False] have IH: "Suc i \<le> z" "z + 2 \<le> e" "e \<le> Suc i + length gs"
        "take (e - z) (drop (z - Suc i) gs) = replicate (e - z) 0" by auto
    then have "z - i = Suc (z - Suc i)" by simp
    with IH show ?thesis by simp
  qed
qed simp

lemma groups_split:
  assumes "longestZeros 0 gs (0, 0) = (z, e)" and "e \<noteq> 0"
  shows "gs = take z gs @ replicate (e - z) 0 @ drop e gs \<and> z + 2 \<le> e \<and> e \<le> length gs"
proof -
  have "(z, e) \<noteq> (0, 0)" using assms(2) by simp
  from longestZeros_zeros [OF assms(1) this] have z: "z + 2 \<le> e" "e \<le> length gs" "take (e - z) (drop z gs) = replicate (e - z) 0" by auto
  have "gs = take z gs @ take (e - z) (drop z gs) @ drop (e - z) (drop z gs)" by (metis append_take_drop_id)
  with z show ?thesis by simp
qed


subsection \<open>The round trip\<close>

lemma colons_bytes: "c \<in> set (colons gs) \<Longrightarrow> c = CHR '':'' \<or> hexVal c \<noteq> None"
proof (induction gs)
  case (Cons g gs)
  with hexDigits_ok [of g] show ?case by (cases "gs = []") (auto simp: joinWith_Cons list_all_iff)
qed simp

lemma not_percent: "hexVal c \<noteq> None \<Longrightarrow> c \<noteq> CHR ''%'' \<and> c \<noteq> CHR ''.'' \<and> c \<noteq> CHR '':''"
  by (auto simp: hexVal_def isDigit_def)

text \<open>A text of digits and colons is read by \<open>parseIPv6\<close>, without a zone.\<close>

lemma ParseIP_v6:
  assumes "list_all (\<lambda>c. c = CHR '':'' \<or> hexVal c \<noteq> None) s" and "CHR '':'' \<in> set s"
  shows "ParseIP s =
    (if take 2 s = ''::'' \<and> drop 2 s = '''' then Some (Addr6 (replicate 8 0))
     else (case parseGroups 8 [] (if take 2 s = ''::'' then Some 0 else None) (if take 2 s = ''::'' then drop 2 s else s) of
         None \<Rightarrow> None
       | Some (gs, ell, rest) \<Rightarrow> if rest \<noteq> '''' then None else map_option Addr6 (expandGroups gs ell)))"
proof -
  from assms(2) obtain p r where s: "s = p @ CHR '':'' # r" "CHR '':'' \<notin> set p" by (blast dest: split_list_first)
  have each: "c = CHR '':'' \<or> hexVal c \<noteq> None" if "c \<in> set s" for c
    using assms(1) that unfolding list_all_iff by blast
  have "hexVal c \<noteq> None" if "c \<in> set p" for c
  proof -
    have "c \<in> set s" using that s(1) by simp
    from each [OF this] show ?thesis using s(2) that by blast
  qed
  then have "list_all (\<lambda>c. \<not> c \<in> set ''.:%'') p" unfolding list_all_iff using not_percent by auto
  with s(1) have first: "find (\<lambda>c. c \<in> set ''.:%'') s = Some (CHR '':'')"
    using find_first [of "\<lambda>c. c \<in> set ''.:%''" p "CHR '':''" r] by simp
  have no: "CHR ''%'' \<notin> set s" using assms(1) not_percent [of "CHR ''%''"] by (auto simp: list_all_iff)
  then have "takeWhile (\<lambda>x. x \<noteq> CHR ''%'') s = s" "dropWhile (\<lambda>x. x \<noteq> CHR ''%'') s = []"
    by (auto simp: takeWhile_eq_all_conv dropWhile_eq_Nil_conv)
  with no have "Cut (CHR ''%'') s = (s, '''', False)" by (simp only: Cut_def drop_Nil simp_thms)
  note cut = this
  have "ParseAddr s = parseIPv6 s" unfolding ParseAddr_def first by simp
  then show ?thesis
    unfolding ParseIP_def by (auto simp: cut parseIPv6_def split: option.split)
qed

lemma ParseIP_groups:
  assumes "length gs = 8" and "list_all (\<lambda>g. g < 65536) gs"
  shows "ParseIP (groupsString gs) = Some (Addr6 gs)"
proof (cases "longestZeros 0 gs (0, 0)")
  case (Pair z e)
  have lead: "take 2 (colons hs @ r) \<noteq> ''::''" if "hs \<noteq> []" for hs r
    using colons_hd [OF that, of r] not_colon by fastforce
  show ?thesis
  proof (cases "e = 0")
    case True
    then have s: "groupsString gs = colons gs" using Pair by (simp add: groupsString_def)
    obtain g hs where gs: "gs = g # hs" "length hs = 7" using assms(1) by (cases gs) auto
    then have "hs \<noteq> []" by auto
    then have "CHR '':'' \<in> set (colons gs)" by (simp add: gs(1) joinWith_Cons)
    moreover have "list_all (\<lambda>c. c = CHR '':'' \<or> hexVal c \<noteq> None) (colons gs)" using colons_bytes by (simp add: list_all_iff)
    moreover have "parseGroups 8 [] None (colons gs) = Some (gs, None, '''')"
      using parseGroups_colons [of gs 8 "[]" None] assms gs by simp
    moreover have "take 2 (colons gs) \<noteq> ''::''" using lead [of gs "[]"] gs by simp
    ultimately show ?thesis using ParseIP_v6 [of "colons gs"] assms(1) unfolding s by (simp add: expandGroups_def)
  next
    case False
    define L R where "L = take z gs" and "R = drop e gs"
    from groups_split [OF Pair False] assms(1) have gs: "gs = L @ replicate (e - z) 0 @ R" and len: "length L + length R \<le> 6"
      and fill: "e - z = 8 - length (L @ R)" by (auto simp: L_def R_def)
    have ok: "list_all (\<lambda>g. g < 65536) L" "list_all (\<lambda>g. g < 65536) R"
      using assms(2) by (auto simp: L_def R_def list_all_iff dest: in_set_takeD in_set_dropD)
    have s: "groupsString gs = colons L @ ''::'' @ colons R" using Pair False by (simp add: groupsString_def L_def R_def)
    have bytes: "list_all (\<lambda>c. c = CHR '':'' \<or> hexVal c \<noteq> None) (colons L @ ''::'' @ colons R)"
      using colons_bytes by (auto simp: list_all_iff)
    note parse = ParseIP_v6 [OF bytes]
    have expand: "expandGroups (L @ R) (Some (length L)) = Some gs"
      using len by (simp add: expandGroups_def gs fill)
    have ne: "hs \<noteq> [] \<Longrightarrow> colons hs \<noteq> []" for hs using colons_hd [of hs "[]"] by auto
    have right: "R \<noteq> [] \<Longrightarrow> parseGroups (8 - length L) L (Some (length L)) (colons R) = Some (L @ R, Some (length L), '''')"
      using parseGroups_colons [OF _ ok(2), of "8 - length L" L "Some (length L)"] len by simp
    show ?thesis
    proof (cases "L = []")
      case True
      then show ?thesis
      proof (cases "R = []")
        case True
        with \<open>L = []\<close> gs fill have "gs = replicate 8 0" by simp
        with \<open>L = []\<close> True parse show ?thesis unfolding s by simp
      next
        case False
        with True right expand ne [OF False] parse show ?thesis unfolding s by simp
      qed
    next
      case left: False
      note par = parseGroups_ellipsis [OF left ok(1), of 8 "[]" "colons R"]
      show ?thesis
        using left len right expand ne parse lead [OF left, of "''::'' @ colons R"] par
        unfolding s by (cases "R = []") simp_all
    qed
  qed
qed

lemma IPString_parses:
  assumes "addr_ok a"
  shows "\<exists>b. ParseIP (IPString a) = Some b \<and> groups16 b = groups16 a"
proof (cases a)
  case (Addr4 f)
  with assms ParseIP_octets [of f] show ?thesis by (simp add: IPString_def addr_ok_def)
next
  case (Addr6 gs)
  with assms have gs: "length gs = 8" "list_all (\<lambda>g. g < 65536) gs" by (simp_all add: addr_ok_def)
  show ?thesis
  proof (cases "take 6 gs = [0, 0, 0, 0, 0, 65535]")
    case True
    let ?f = "[gs ! 6 div 256, gs ! 6 mod 256, gs ! 7 div 256, gs ! 7 mod 256]"
    have "gs ! 6 < 65536" "gs ! 7 < 65536" using gs by (simp_all add: list_all_length)
    then have "list_all (\<lambda>v. v < 256) ?f" by (simp add: less_mult_imp_div_less)
    then have "ParseIP (octetsString ?f) = Some (Addr4 ?f)" by (intro ParseIP_octets) simp_all
    moreover have "drop 6 gs = [gs ! 6, gs ! 7]"
      using Cons_nth_drop_Suc [of 6 gs] Cons_nth_drop_Suc [of 7 gs] gs(1) by simp
    then have "gs = [0, 0, 0, 0, 0, 65535] @ [gs ! 6, gs ! 7]" using True append_take_drop_id [of 6 gs] by metis
    then have "groups16 (Addr4 ?f) = gs" by (simp add: groups16_def)
    ultimately show ?thesis using True Addr6 by (simp add: IPString_def groups16_def [of "Addr6 gs"])
  next
    case False
    with Addr6 ParseIP_groups [OF gs] show ?thesis by (simp add: IPString_def)
  qed
qed

text \<open>Two addresses are printed alike exactly if they are the same address.\<close>

lemma IPString_groups16: "addr_ok a \<Longrightarrow> IPString a = (if take 6 (groups16 a) = [0, 0, 0, 0, 0, 65535]
    then octetsString [groups16 a ! 6 div 256, groups16 a ! 6 mod 256, groups16 a ! 7 div 256, groups16 a ! 7 mod 256]
    else groupsString (groups16 a))"
proof (cases a)
  case (Addr4 f)
  assume "addr_ok a"
  then obtain w x y z where "f = [w, x, y, z]" "w < 256" "x < 256" "y < 256" "z < 256"
    using Addr4 by (auto simp: addr_ok_def numeral_eq_Suc length_Suc_conv)
  then show ?thesis by (simp add: Addr4 IPString_def groups16_def)
qed (simp add: IPString_def groups16_def)

lemma IPString_iff:
  assumes "addr_ok a" and "addr_ok b"
  shows "IPString a = IPString b \<longleftrightarrow> groups16 a = groups16 b"
proof
  assume "IPString a = IPString b"
  with IPString_parses [OF assms(1)] IPString_parses [OF assms(2)] show "groups16 a = groups16 b" by auto
next
  assume "groups16 a = groups16 b"
  with IPString_groups16 [OF assms(1)] IPString_groups16 [OF assms(2)] show "IPString a = IPString b" by simp
qed

end
