(* ===== verification/Url.thy ===== *)
theory Url
  imports Config Addresses
begin

text \<open>
  \<^verbatim>\<open>internal/config/url.go\<close>: base URLs of backends. The first part is what it uses of Go's
  \<open>net/url\<close>: parsing of an absolute or relative URL, and the host name and port of a host.
\<close>

record URL =
  u_Scheme :: string
  u_Opaque :: string
  u_User :: "string option"
  u_Host :: string
  u_Path :: string
  u_RawQuery :: string
  u_ForceQuery :: bool
  u_Fragment :: string


subsection \<open>Escapes\<close>

datatype encoding = encodePath | encodeHost | encodeZone | encodeUserPassword | encodeFragment

definition isAlnum :: "char \<Rightarrow> bool" where
  "isAlnum c \<longleftrightarrow> isUpper c \<or> isLower c \<or> isDigit c"

text \<open>Whether a byte is not allowed as it is in a host or, with \<open>encodeZone\<close>, in a zone.\<close>

definition shouldEscapeHost :: "char \<Rightarrow> bool" where
  "shouldEscapeHost c \<longleftrightarrow> \<not> (isAlnum c \<or> c \<in> set ''!$&()*+,;=:[]<>-_.~'' \<or> byte c \<in> {39, 34})"

fun unescape :: "encoding \<Rightarrow> string \<Rightarrow> string option" where
  "unescape m [] = Some []"
| "unescape m (c # cs) =
     (if c = CHR ''%'' then
        (case cs of
           h # l # rest \<Rightarrow>
             (case (hexVal h, hexVal l) of
                (Some a, Some b) \<Rightarrow>
                  (let is25 = (a = 2 \<and> b = 5); v = char_of (16 * a + b) :: char
                   in if m = encodeHost \<and> a < 8 \<and> \<not> is25 then None
                      else if m = encodeZone \<and> \<not> is25 \<and> v \<noteq> CHR '' '' \<and> shouldEscapeHost v then None
                      else map_option (\<lambda>r. v # r) (unescape m rest))
              | _ \<Rightarrow> None)
         | _ \<Rightarrow> None)
      else if (m = encodeHost \<or> m = encodeZone) \<and> byte c < 128 \<and> shouldEscapeHost c then None
      else map_option (\<lambda>r. c # r) (unescape m cs))"


subsection \<open>Parsing\<close>

definition validOptionalPort :: "string \<Rightarrow> bool" where
  "validOptionalPort port \<longleftrightarrow> port = '''' \<or> (hd port = CHR '':'' \<and> list_all isDigit (tl port))"

text \<open>\<open>getScheme\<close>: \<open>None\<close> for a missing protocol scheme, otherwise the scheme and the rest.\<close>

fun getSchemeFrom :: "string \<Rightarrow> string \<Rightarrow> string \<Rightarrow> (string \<times> string) option" where
  "getSchemeFrom raw seen [] = Some ('''', raw)"
| "getSchemeFrom raw seen (c # cs) =
     (if isUpper c \<or> isLower c then getSchemeFrom raw (seen @ [c]) cs
      else if isDigit c \<or> c \<in> set ''+-.''
      then (if seen = '''' then Some ('''', raw) else getSchemeFrom raw (seen @ [c]) cs)
      else if c = CHR '':'' then (if seen = '''' then None else Some (seen, cs))
      else Some ('''', raw))"

definition getScheme :: "string \<Rightarrow> (string \<times> string) option" where
  "getScheme raw = getSchemeFrom raw '''' raw"

text \<open>The position of the first escaped percent sign splits a literal from its zone.\<close>

fun cutZone :: "string \<Rightarrow> string \<times> string" where
  "cutZone [] = ([], [])"
| "cutZone (c # cs) =
     (if take 3 (c # cs) = ''%25'' then ([], c # cs) else (let (a, b) = cutZone cs in (c # a, b)))"

definition parseHost :: "string \<Rightarrow> string option" where
  "parseHost host =
     (case cutLast (CHR ''['') host of
        Some (before, inside) \<Rightarrow>
          (case cutLast (CHR '']'') host of
             None \<Rightarrow> None
           | Some (front, colonPort) \<Rightarrow>
               if before \<noteq> '''' then None
               else if \<not> validOptionalPort colonPort then None
               else
                (let (lit, zone) = cutZone (drop 1 front)
                 in case (unescape encodeHost colonPort, unescape encodeHost lit, unescape encodeZone zone) of
                      (Some p, Some l, Some z) \<Rightarrow>
                        (case ParseAddr (l @ z) of
                           Some (Addr6 _, _) \<Rightarrow> Some (''['' @ l @ z @ '']'' @ p)
                         | _ \<Rightarrow> None)
                    | _ \<Rightarrow> None))
      | None \<Rightarrow>
          (case cutLast (CHR '':'') host of
             None \<Rightarrow> unescape encodeHost host
           | Some (h, p) \<Rightarrow>
               if CHR '':'' \<in> set h then None
               else if \<not> list_all isDigit p then None else unescape encodeHost host))"

definition validUserinfo :: "string \<Rightarrow> bool" where
  "validUserinfo s \<longleftrightarrow> list_all (\<lambda>c. isAlnum c \<or> c \<in> set ''-._:~!$&()*+,;=%@'' \<or> byte c = 39) s"

text \<open>\<open>parseAuthority\<close>: the user information, if any, and the host.\<close>

definition parseAuthority :: "string \<Rightarrow> (string option \<times> string) option" where
  "parseAuthority authority =
     (case cutLast (CHR ''@'') authority of
        None \<Rightarrow> map_option (\<lambda>h. (None, h)) (parseHost authority)
      | Some (userinfo, hostpart) \<Rightarrow>
         (case parseHost hostpart of
            None \<Rightarrow> None
          | Some h \<Rightarrow>
              if \<not> validUserinfo userinfo then None
              else (let (name, pass, _) = Cut (CHR '':'') userinfo
                    in case (unescape encodeUserPassword name, unescape encodeUserPassword pass) of
                         (Some _, Some _) \<Rightarrow> Some (Some userinfo, h)
                       | _ \<Rightarrow> None)))"

definition hasCTLByte :: "string \<Rightarrow> bool" where
  "hasCTLByte s \<longleftrightarrow> (\<exists>c\<in>set s. byte c < 32 \<or> byte c = 127)"

definition emptyURL :: URL where
  "emptyURL = \<lparr>u_Scheme = '''', u_Opaque = '''', u_User = None, u_Host = '''', u_Path = '''',
     u_RawQuery = '''', u_ForceQuery = False, u_Fragment = ''''\<rparr>"

definition setPath :: "string \<Rightarrow> URL \<Rightarrow> URL option" where
  "setPath p u = map_option (\<lambda>path. u\<lparr>u_Path := path\<rparr>) (unescape encodePath p)"

text \<open>After scheme and query are split off: an opaque part, or an authority and a path.\<close>

definition parseHier :: "string \<Rightarrow> string \<Rightarrow> URL \<Rightarrow> URL option" where
  "parseHier scheme rest u =
     (if take 1 rest \<noteq> ''/'' \<and> scheme \<noteq> '''' then Some (u\<lparr>u_Opaque := rest\<rparr>)
      else if take 1 rest \<noteq> ''/'' \<and> CHR '':'' \<in> set (fst (Cut (CHR ''/'') rest)) then None
      else if (scheme \<noteq> '''' \<or> take 3 rest \<noteq> ''///'') \<and> take 2 rest = ''//'' then
        (let authority = takeWhile (\<lambda>c. c \<noteq> CHR ''/'') (drop 2 rest);
             path = dropWhile (\<lambda>c. c \<noteq> CHR ''/'') (drop 2 rest)
         in case parseAuthority authority of
              None \<Rightarrow> None
            | Some (user, host) \<Rightarrow> setPath path (u\<lparr>u_User := user, u_Host := host\<rparr>))
      else setPath rest u)"

definition parseNoFragment :: "string \<Rightarrow> URL option" where
  "parseNoFragment raw =
     (if hasCTLByte raw then None
      else if raw = ''*'' then Some (emptyURL\<lparr>u_Path := ''*''\<rparr>)
      else (case getScheme raw of
         None \<Rightarrow> None
       | Some (scheme, rest) \<Rightarrow>
          (let force = (rest \<noteq> '''' \<and> last rest = CHR ''?'' \<and> count_list rest (CHR ''?'') = 1);
               (rest1, query) = (if force then (butlast rest, '''')
                                 else (fst (Cut (CHR ''?'') rest), fst (snd (Cut (CHR ''?'') rest))))
           in parseHier scheme rest1
                (emptyURL\<lparr>u_Scheme := ToLower scheme, u_ForceQuery := force, u_RawQuery := query\<rparr>))))"

definition ParseURL :: "string \<Rightarrow> URL option" where
  "ParseURL raw =
     (let (before, frag, _) = Cut (CHR ''#'') raw
      in case parseNoFragment before of
           None \<Rightarrow> None
         | Some u \<Rightarrow>
            if frag = '''' then Some u
            else map_option (\<lambda>f. u\<lparr>u_Fragment := f\<rparr>) (unescape encodeFragment frag))"

definition urlSplitHostPort :: "string \<Rightarrow> string \<times> string" where
  "urlSplitHostPort hostPort =
     (let (host, port) = (case cutLast (CHR '':'') hostPort of
              None \<Rightarrow> (hostPort, '''')
            | Some (h, p) \<Rightarrow> if list_all isDigit p then (h, p) else (hostPort, ''''))
      in if take 1 host = ''['' \<and> host \<noteq> '''' \<and> last host = CHR '']''
         then (butlast (drop 1 host), port) else (host, port))"

definition Hostname :: "URL \<Rightarrow> string" where
  "Hostname u = fst (urlSplitHostPort (u_Host u))"

definition Port :: "URL \<Rightarrow> string" where
  "Port u = snd (urlSplitHostPort (u_Host u))"


subsection \<open>The functions of url.go\<close>

datatype urlError =
    UrlEmpty | UrlInvalid | UrlScheme | UrlNoHost | UrlCredentials | UrlEmptyPort | UrlBrackets
  | UrlQuery | UrlFragment | UrlPath | UrlOpaque | UrlPortRange

definition ChatCompletionsPath :: string where
  "ChatCompletionsPath = ''/v1/chat/completions''"

definition badPort :: "string \<Rightarrow> bool" where
  "badPort port = (case Atoi port of None \<Rightarrow> True | Some number \<Rightarrow> number < 1 \<or> number > 65535)"

text \<open>The checks of the \<open>switch\<close> and of the port, in their order.\<close>

definition checkBaseURL :: "URL \<Rightarrow> urlError option" where
  "checkBaseURL parsed =
     (if u_Scheme parsed \<noteq> ''http'' \<and> u_Scheme parsed \<noteq> ''https'' then Some UrlScheme
      else if Hostname parsed = '''' then Some UrlNoHost
      else if u_User parsed \<noteq> None then Some UrlCredentials
      else if u_Host parsed \<noteq> '''' \<and> last (u_Host parsed) = CHR '':'' then Some UrlEmptyPort
      else if count_list (u_Host parsed) (CHR '':'') > 1 \<and> take 1 (u_Host parsed) \<noteq> ''['' then Some UrlBrackets
      else if u_RawQuery parsed \<noteq> '''' \<or> u_ForceQuery parsed then Some UrlQuery
      else if u_Fragment parsed \<noteq> '''' then Some UrlFragment
      else if u_Path parsed \<noteq> '''' \<and> u_Path parsed \<noteq> ''/'' then Some UrlPath
      else if u_Opaque parsed \<noteq> '''' then Some UrlOpaque
      else if Port parsed \<noteq> '''' \<and> badPort (Port parsed) then Some UrlPortRange
      else None)"

definition ParseBaseURL :: "string \<Rightarrow> urlError + URL" where
  "ParseBaseURL raw =
     (let trimmed = TrimSpace raw
      in if trimmed = '''' then Inl UrlEmpty
         else (case ParseURL trimmed of
             None \<Rightarrow> Inl UrlInvalid
           | Some parsed \<Rightarrow>
              (case checkBaseURL parsed of
                 Some err \<Rightarrow> Inl err
               | None \<Rightarrow> Inr (emptyURL\<lparr>u_Scheme := u_Scheme parsed, u_Host := u_Host parsed\<rparr>))))"

definition canonicalHost :: "URL \<Rightarrow> string" where
  "canonicalHost base =
     (let host = ToLower (Hostname base)
      in case ParseIP host of None \<Rightarrow> host | Some ip \<Rightarrow> IPString ip)"

definition canonicalPort :: "URL \<Rightarrow> string" where
  "canonicalPort base =
     (let scheme = ToLower (u_Scheme base); port = Port base
      in if port = '''' then (if scheme = ''http'' then ''80'' else if scheme = ''https'' then ''443'' else port)
         else (case Atoi port of None \<Rightarrow> port | Some number \<Rightarrow> Itoa number))"

definition canonicalOriginKey :: "URL \<Rightarrow> string" where
  "canonicalOriginKey base =
     ToLower (u_Scheme base) @ ''://'' @ JoinHostPort (canonicalHost base) (canonicalPort base)"

definition EndpointURL :: "URL \<Rightarrow> string \<Rightarrow> URL" where
  "EndpointURL base path =
     base\<lparr>u_Path := path, u_RawQuery := '''', u_Fragment := '''', u_User := None\<rparr>"

subsection \<open>Bare origins\<close>

definition bareOrigin :: "URL \<Rightarrow> bool" where
  "bareOrigin u \<longleftrightarrow> u_Scheme u \<in> {''http'', ''https''} \<and> Hostname u \<noteq> '''' \<and>
     (Port u = '''' \<or> (\<exists>n. Atoi (Port u) = Some n \<and> 1 \<le> n \<and> n \<le> 65535)) \<and>
     u = emptyURL\<lparr>u_Scheme := u_Scheme u, u_Host := u_Host u\<rparr>"

lemma checkBaseURL_None:
  assumes "checkBaseURL p = None"
  shows "u_Scheme p \<in> {''http'', ''https''} \<and> Hostname p \<noteq> [] \<and> (Port p = [] \<or> \<not> badPort (Port p))"
  using assms unfolding checkBaseURL_def by (simp split: if_split_asm)

lemma ParseBaseURL_bareOrigin: "ParseBaseURL raw = Inr u \<Longrightarrow> bareOrigin u"
proof -
  assume "ParseBaseURL raw = Inr u"
  then obtain p where p: "checkBaseURL p = None" and u: "u = emptyURL\<lparr>u_Scheme := u_Scheme p, u_Host := u_Host p\<rparr>"
    by (auto simp: ParseBaseURL_def Let_def split: option.splits if_splits)
  from u have h: "Hostname u = Hostname p" "Port u = Port p" "u_Scheme u = u_Scheme p" "u_Host u = u_Host p"
    by (simp_all add: Hostname_def Port_def)
  from checkBaseURL_None [OF p] show ?thesis
    unfolding bareOrigin_def h by (auto simp: u badPort_def split: option.splits)
qed

text \<open>The effective port number of a bare origin.\<close>

definition portNumber :: "URL \<Rightarrow> int" where
  "portNumber u = (if Port u = '''' then (if u_Scheme u = ''http'' then 80 else 443) else the (Atoi (Port u)))"

lemma ToLower_http: "ToLower ''http'' = ''http''" "ToLower ''https'' = ''https''"
  by (simp_all add: string_eval)

lemma Itoa_80: "Itoa 80 = ''80''" "Itoa 443 = ''443''"
  by (simp_all add: Itoa_def natDigits.simps char_of_def bit_Suc_0_iff)

lemma canonicalPort_Itoa: "bareOrigin u \<Longrightarrow> canonicalPort u = Itoa (portNumber u)"
  by (auto simp: canonicalPort_def portNumber_def bareOrigin_def Let_def ToLower_http Itoa_80 simp del: ToLower.simps)

lemma portNumber_pos: "bareOrigin u \<Longrightarrow> 1 \<le> portNumber u \<and> portNumber u \<le> 65535"
  by (auto simp: portNumber_def bareOrigin_def)

lemma Itoa_no_colon: "0 \<le> n \<Longrightarrow> CHR '':'' \<notin> set (Itoa n)"
proof -
  assume "0 \<le> n"
  have "\<not> isDigit (CHR '':'')" by (simp add: isDigit_def)
  then show ?thesis using natDigits_isDigit [of "nat n"] \<open>0 \<le> n\<close> by (auto simp: Itoa_def list_all_iff)
qed

lemma Itoa_inject: "1 \<le> m \<Longrightarrow> m \<le> 65535 \<Longrightarrow> 1 \<le> n \<Longrightarrow> n \<le> 65535 \<Longrightarrow> Itoa m = Itoa n \<longleftrightarrow> m = n"
proof -
  assume "1 \<le> m" "m \<le> 65535" "1 \<le> n" "n \<le> 65535"
  then have "Atoi (Itoa m) = Some m" "Atoi (Itoa n) = Some n"
    by (simp_all add: Atoi_Itoa maxInt64_def minInt64_def)
  then show ?thesis by (metis option.inject)
qed

text \<open>
  The canonical host names agree exactly if both hosts are literals of the same address, or both
  are names and equal up to the case of letters.
\<close>

lemma canonicalHost_iff:
  "canonicalHost u = canonicalHost v \<longleftrightarrow>
    (case (ParseIP (ToLower (Hostname u)), ParseIP (ToLower (Hostname v))) of
       (Some a, Some b) \<Rightarrow> groups16 a = groups16 b
     | (None, None) \<Rightarrow> ToLower (Hostname u) = ToLower (Hostname v)
     | _ \<Rightarrow> False)"
proof -
  have mixed: "IPString a \<noteq> h" if "ParseIP s = Some a" and "ParseIP h = None" for a s h
    using IPString_parses [OF ParseIP_ok [OF that(1)]] that(2) by auto
  have both: "IPString a = IPString b \<longleftrightarrow> groups16 a = groups16 b" if "ParseIP s = Some a" and "ParseIP h = Some b" for a b s h
    using that by (intro IPString_iff ParseIP_ok)
  show ?thesis
    using mixed mixed [symmetric]
    by (auto simp: canonicalHost_def Let_def both split: option.split simp del: ToLower.simps)
qed

text \<open>
  C28: two backends have the same origin key exactly if they are the same origin. For base URLs
  that passed \<open>ParseBaseURL\<close>, the keys are equal if and only if the schemes are equal, the hosts
  are (two IP literals by the address they name, in its 16-byte form, so that an IPv4 address and
  the IPv6 address it is mapped to agree; two names without regard to letter case; a literal and
  a name never), and the effective port numbers are (with defaults made explicit and leading zeros
  ignored).
\<close>

theorem canonicalOriginKey_iff:
  assumes "ParseBaseURL raw = Inr u" and "ParseBaseURL raw' = Inr v"
  shows "canonicalOriginKey u = canonicalOriginKey v \<longleftrightarrow>
    u_Scheme u = u_Scheme v \<and>
    (case (ParseIP (ToLower (Hostname u)), ParseIP (ToLower (Hostname v))) of
       (Some a, Some b) \<Rightarrow> groups16 a = groups16 b
     | (None, None) \<Rightarrow> ToLower (Hostname u) = ToLower (Hostname v)
     | _ \<Rightarrow> False) \<and>
    portNumber u = portNumber v"
proof -
  note b = ParseBaseURL_bareOrigin [OF assms(1)] ParseBaseURL_bareOrigin [OF assms(2)]
  note pos = portNumber_pos [OF b(1)] portNumber_pos [OF b(2)]
  have key: "canonicalOriginKey w = u_Scheme w @ ''://'' @ JoinHostPort (canonicalHost w) (Itoa (portNumber w))"
    if "bareOrigin w" for w
    using that by (auto simp: canonicalOriginKey_def canonicalPort_Itoa bareOrigin_def ToLower_http simp del: ToLower.simps)
  have "canonicalOriginKey u = canonicalOriginKey v \<longleftrightarrow> u_Scheme u = u_Scheme v \<and>
      JoinHostPort (canonicalHost u) (Itoa (portNumber u)) = JoinHostPort (canonicalHost v) (Itoa (portNumber v))"
    unfolding key [OF b(1)] key [OF b(2)] using b by (auto simp: bareOrigin_def)
  then show ?thesis
    unfolding canonicalHost_iff [symmetric]
    using pos by (simp add: JoinHostPort_inject Itoa_no_colon Itoa_inject)
qed


subsection \<open>Ordinary origins are accepted\<close>

text \<open>A host name of letters, digits, hyphens and dots.\<close>

definition plainHost :: "string \<Rightarrow> bool" where
  "plainHost h \<longleftrightarrow> h \<noteq> '''' \<and> list_all (\<lambda>c. isAlnum c \<or> c \<in> set ''-.'') h"

lemma plainHost_bytes:
  assumes "plainHost h" and "c \<in> set h"
  shows "32 < byte c" "byte c < 127" "c \<notin> set ''#?/@[]:%''" "\<not> shouldEscapeHost c"
proof -
  from assms have c: "isAlnum c \<or> c \<in> set ''-.''" by (auto simp: plainHost_def list_all_iff)
  then show "32 < byte c" "byte c < 127" by (auto simp: isAlnum_def isUpper_def isLower_def isDigit_def)
  show "c \<notin> set ''#?/@[]:%''" using c by (auto simp: isAlnum_def isUpper_def isLower_def isDigit_def)
  show "\<not> shouldEscapeHost c" using c by (auto simp: shouldEscapeHost_def)
qed

lemma unescape_plain:
  "(\<And>c. c \<in> set s \<Longrightarrow> c \<noteq> CHR ''%'' \<and> \<not> shouldEscapeHost c) \<Longrightarrow> unescape encodeHost s = Some s"
  by (induction s) (simp_all del: unescape.simps(1), simp)

lemma digit_bytes:
  assumes "isDigit c"
  shows "c \<notin> set ''#?/@[]:%''" "\<not> shouldEscapeHost c" "32 < byte c" "byte c < 127"
  using assms by (auto simp: shouldEscapeHost_def isAlnum_def isDigit_def)

lemma parseHost_plain:
  assumes "plainHost h" and "list_all isDigit p"
  shows "parseHost (h @ '':'' @ p) = Some (h @ '':'' @ p)"
proof -
  have host: "c \<noteq> CHR '':'' \<and> c \<noteq> CHR ''['' \<and> c \<noteq> CHR ''%'' \<and> \<not> shouldEscapeHost c" if "c \<in> set h" for c
    using plainHost_bytes(3,4) [OF assms(1) that] by simp
  have port: "c \<noteq> CHR '':'' \<and> c \<noteq> CHR ''['' \<and> c \<noteq> CHR ''%'' \<and> \<not> shouldEscapeHost c" if "c \<in> set p" for c
    using digit_bytes(1,2) [of c] that assms(2) by (simp add: list_all_iff)
  have colon: "CHR '':'' \<notin> set p" "CHR '':'' \<notin> set h" "CHR ''['' \<notin> set p" "CHR ''['' \<notin> set h" using host port by blast+
  have "unescape encodeHost (h @ '':'' @ p) = Some (h @ '':'' @ p)"
  proof (rule unescape_plain)
    fix c assume "c \<in> set (h @ '':'' @ p)"
    then consider "c \<in> set h" | "c \<in> set p" | "c = CHR '':''" by auto
    then show "c \<noteq> CHR ''%'' \<and> \<not> shouldEscapeHost c"
    proof cases
      case 1
      with host show ?thesis by blast
    next
      case 2
      with port show ?thesis by blast
    next
      case 3
      then show ?thesis by (simp add: shouldEscapeHost_def)
    qed
  qed
  moreover have "cutLast (CHR ''['') (h @ '':'' @ p) = None" using colon by (simp add: cutLast_def)
  moreover have "cutLast (CHR '':'') (h @ '':'' @ p) = Some (h, p)"
    using cutLast_append [OF colon(1), of h] by simp
  ultimately show ?thesis using colon assms(2) by (simp add: parseHost_def)
qed

lemma getScheme_http:
  "getScheme (''http:'' @ rest) = Some (''http'', rest)" "getScheme (''https:'' @ rest) = Some (''https'', rest)"
  by (simp_all add: getScheme_def isUpper_def isLower_def isDigit_def)

lemma Cut_absent: "c \<notin> set s \<Longrightarrow> Cut c s = (s, [], False)"
proof -
  assume c: "c \<notin> set s"
  then have "dropWhile (\<lambda>x. x \<noteq> c) s = []" by auto
  moreover have "takeWhile (\<lambda>x. x \<noteq> c) s = s" using c by (auto simp: takeWhile_eq_all_conv)
  ultimately show ?thesis using c by (simp only: Cut_def drop_Nil simp_thms)
qed

lemma ParseURL_origin:
  assumes scheme: "scheme = ''http'' \<or> scheme = ''https''" and host: "parseHost a = Some a"
    and ok: "\<And>c. c \<in> set a \<Longrightarrow> 32 < byte c \<and> byte c < 127 \<and> c \<notin> set ''#?/@''"
  shows "ParseURL (scheme @ ''://'' @ a) = Some (emptyURL\<lparr>u_Scheme := scheme, u_Host := a\<rparr>)"
proof -
  let ?raw = "scheme @ ''://'' @ a"
  have no: "CHR ''#'' \<notin> set a" "CHR ''?'' \<notin> set a" "CHR ''/'' \<notin> set a" "CHR ''@'' \<notin> set a"
    using ok by fastforce+
  have "CHR ''#'' \<notin> set ?raw" using scheme no by auto
  note frag = Cut_absent [OF this]
  have ctl: "\<not> hasCTLByte ?raw" using scheme ok by (fastforce simp: hasCTLByte_def)
  have star: "?raw \<noteq> ''*''" using scheme by auto
  have sch: "getScheme ?raw = Some (scheme, ''//'' @ a)"
    using scheme getScheme_http [of "''//'' @ a"] by auto
  have "CHR ''?'' \<notin> set (''//'' @ a)" using no by simp
  note q = Cut_absent [OF this]
  have lst: "last (''//'' @ a) \<noteq> CHR ''?''" using no(2) last_in_set [of a] by (cases "a = []") (simp, metis last_appendR)
  have tw: "takeWhile (\<lambda>c. c \<noteq> CHR ''/'') a = a" "dropWhile (\<lambda>c. c \<noteq> CHR ''/'') a = []"
    using no by (auto simp: takeWhile_eq_all_conv dropWhile_eq_Nil_conv)
  have auth: "parseAuthority a = Some (None, a)" using host no by (simp add: parseAuthority_def cutLast_def)
  have low: "ToLower scheme = scheme" using scheme by (auto simp: ToLower_http simp del: ToLower.simps)
  have "scheme \<noteq> []" using scheme by auto
  then have "parseHier scheme (''//'' @ a) u = Some (u\<lparr>u_User := None, u_Host := a, u_Path := ''''\<rparr>)" for u
    unfolding parseHier_def using auth by (simp add: tw setPath_def del: takeWhile_eq_all_conv dropWhile_eq_Nil_conv)
  then have "parseNoFragment ?raw = Some (emptyURL\<lparr>u_Scheme := scheme, u_Host := a\<rparr>)"
    using ctl star sch q lst low
    by (simp add: parseNoFragment_def emptyURL_def Let_def del: ToLower.simps append_Cons append_Nil)
  then show ?thesis using frag by (simp add: ParseURL_def)
qed

lemma ParseBaseURL_plain:
  assumes "scheme = ''http'' \<or> scheme = ''https''" and "plainHost h" and "1 \<le> n" and "n \<le> 65535"
  shows "ParseBaseURL (scheme @ ''://'' @ h @ '':'' @ Itoa n) =
    Inr (emptyURL\<lparr>u_Scheme := scheme, u_Host := h @ '':'' @ Itoa n\<rparr>)"
proof -
  let ?a = "h @ '':'' @ Itoa n" and ?raw = "scheme @ ''://'' @ h @ '':'' @ Itoa n"
  from assms(3) have It: "Itoa n = natDigits (nat n)" by (simp add: Itoa_def)
  then have dig: "list_all isDigit (Itoa n)" and ne: "Itoa n \<noteq> []"
    using natDigits_isDigit natDigits_nonempty by simp_all
  have ok: "32 < byte c \<and> byte c < 127 \<and> c \<notin> set ''#?/@[]''" if "c \<in> set ?a" for c
    using that plainHost_bytes [OF assms(2), of c] dig by (auto simp: list_all_iff isDigit_def)
  note host = parseHost_plain [OF assms(2) dig]
  have parse: "ParseURL ?raw = Some (emptyURL\<lparr>u_Scheme := scheme, u_Host := ?a\<rparr>)"
    using ParseURL_origin [OF assms(1) host] ok by fastforce
  have "last ?raw \<in> set ?a" "last ?raw = last (Itoa n)" using ne by (auto simp: last_append)
  then have trim: "TrimSpace ?raw = ?raw" using assms(1) ok [of "last ?raw"] by (intro TrimSpace_id) auto
  have colon: "CHR '':'' \<notin> set (Itoa n)" "CHR '':'' \<notin> set h"
    using Itoa_no_colon [of n] assms(3) plainHost_bytes(3) [OF assms(2)] by fastforce+
  have "CHR ''['' \<notin> set h" using plainHost_bytes(3) [OF assms(2)] by fastforce
  then have hd: "take 1 h \<noteq> ''[''" "take 1 ?a \<noteq> ''[''" using assms(2) by (cases h; auto simp: plainHost_def)+
  then have split: "urlSplitHostPort ?a = (h, Itoa n)"
    using cutLast_append [OF colon(1), of h] dig by (simp add: urlSplitHostPort_def)
  have "count_list ?a (CHR '':'') = 1" using colon by (simp add: count_notin)
  moreover have "last ?a \<noteq> CHR '':''" using ne colon(1) last_in_set [OF ne] by (metis append_is_Nil_conv last_appendR)
  moreover have "Atoi (Itoa n) = Some n" using assms(3,4) by (simp add: Atoi_Itoa maxInt64_def minInt64_def)
  ultimately show ?thesis
    using parse trim split assms ne hd
    by (auto simp: ParseBaseURL_def checkBaseURL_def Let_def Hostname_def Port_def badPort_def emptyURL_def plainHost_def)
qed

text \<open>
  Ordinary base URLs are accepted as they are. An http or https URL made of a host name of
  letters, digits, hyphens and dots and a decimal port between 1 and 65535 parses to exactly
  that origin, with surrounding white space removed by \<open>TrimSpace\<close> only.
\<close>

theorem ParseBaseURL_accepts:
  assumes "scheme = ''http'' \<or> scheme = ''https''" and "plainHost h" and "1 \<le> n" and "n \<le> 65535"
  shows "ParseBaseURL (scheme @ ''://'' @ h @ '':'' @ Itoa n) =
    Inr (emptyURL\<lparr>u_Scheme := scheme, u_Host := h @ '':'' @ Itoa n\<rparr>)"
  by (rule ParseBaseURL_plain [OF assms])

theorem ParseBaseURL_accepts_witness:
  "ParseBaseURL (''http'' @ ''://'' @ ''gpu-1.lan'' @ '':'' @ Itoa 8000) =
     Inr (emptyURL\<lparr>u_Scheme := ''http'', u_Host := ''gpu-1.lan'' @ '':'' @ Itoa 8000\<rparr>)"
  by (rule ParseBaseURL_accepts) (simp_all add: plainHost_def isAlnum_def isUpper_def isLower_def isDigit_def)

lemma Itoa_8000: "Itoa 8000 = ''8000''"
  by (simp add: Itoa_def natDigits.simps char_of_def bit_Suc_0_iff)

theorem canonicalOriginKey_iff_witness:
  "canonicalOriginKey (emptyURL\<lparr>u_Scheme := ''http'', u_Host := ''GPU'' @ '':'' @ Itoa 8000\<rparr>) =
   canonicalOriginKey (emptyURL\<lparr>u_Scheme := ''http'', u_Host := ''gpu'' @ '':'' @ Itoa 8000\<rparr>)"
proof -
  let ?u = "emptyURL\<lparr>u_Scheme := ''http'', u_Host := ''GPU'' @ '':'' @ Itoa 8000\<rparr>"
  let ?v = "emptyURL\<lparr>u_Scheme := ''http'', u_Host := ''gpu'' @ '':'' @ Itoa 8000\<rparr>"
  have u: "ParseBaseURL (''http'' @ ''://'' @ ''GPU'' @ '':'' @ Itoa 8000) = Inr ?u"
    by (rule ParseBaseURL_plain) (simp_all add: plainHost_def isAlnum_def isUpper_def isLower_def isDigit_def)
  have v: "ParseBaseURL (''http'' @ ''://'' @ ''gpu'' @ '':'' @ Itoa 8000) = Inr ?v"
    by (rule ParseBaseURL_plain) (simp_all add: plainHost_def isAlnum_def isUpper_def isLower_def isDigit_def)
  have "urlSplitHostPort ''GPU:8000'' = (''GPU'', ''8000'')" "urlSplitHostPort ''gpu:8000'' = (''gpu'', ''8000'')"
    by (simp_all add: urlSplitHostPort_def cutLast_def isDigit_def)
  then have "Hostname ?u = ''GPU''" "Hostname ?v = ''gpu''" "Port ?u = Port ?v"
    by (simp_all add: Hostname_def Port_def Itoa_8000)
  moreover have "ToLower ''GPU'' = ''gpu''" "ToLower ''gpu'' = ''gpu''" by (simp_all add: string_eval)
  ultimately show ?thesis
    using canonicalOriginKey_iff [OF u v]
    by (simp add: portNumber_def split: option.split del: ToLower.simps)
qed

end
