(* ===== verification/Backend.thy ===== *)
theory Backend
  imports Url GoHttp
begin

text \<open>
  \<^verbatim>\<open>internal/backend/backend.go\<close> and \<^verbatim>\<open>internal/backend/client.go\<close>: the validated
  inference runtimes and the HTTP clients that talk to them.

  Durations are 64-bit numbers of nanoseconds.
\<close>

definition wrap64 :: "int \<Rightarrow> int" where
  "wrap64 x = (x + 2 ^ 63) mod 2 ^ 64 - 2 ^ 63"

definition Millisecond :: int where "Millisecond = 1000000"
definition Second :: int where "Second = 1000000000"


subsection \<open>Clients\<close>

record HttpClient =
  hc_DialTimeout :: int
  hc_TLSHandshakeTimeout :: int
  hc_IdleConnTimeout :: int
  hc_ResponseHeaderTimeout :: int
  hc_ForceAttemptHTTP2 :: bool
  hc_Timeout :: int
  hc_FollowRedirects :: bool

definition DialTimeout :: int where "DialTimeout = 5 * Second"
definition TLSHandshakeTimeout :: int where "TLSHandshakeTimeout = 5 * Second"
definition IdleConnTimeout :: int where "IdleConnTimeout = 90 * Second"
definition HealthTimeout :: int where "HealthTimeout = 2 * Second"

text \<open>The fields of a transport and of its client in one record; the client's own are set by the caller.\<close>

definition newTransport :: "int \<Rightarrow> HttpClient" where
  "newTransport responseHeaderTimeout =
     \<lparr>hc_DialTimeout = DialTimeout, hc_TLSHandshakeTimeout = TLSHandshakeTimeout,
      hc_IdleConnTimeout = IdleConnTimeout, hc_ResponseHeaderTimeout = responseHeaderTimeout,
      hc_ForceAttemptHTTP2 = True, hc_Timeout = 0, hc_FollowRedirects = True\<rparr>"

definition NewClient :: "int \<Rightarrow> HttpClient" where
  "NewClient responseHeaderTimeout = (newTransport responseHeaderTimeout)\<lparr>hc_FollowRedirects := False\<rparr>"

definition NewHealthClient :: HttpClient where
  "NewHealthClient = (newTransport HealthTimeout)\<lparr>hc_Timeout := HealthTimeout, hc_FollowRedirects := False\<rparr>"


subsection \<open>Backends\<close>

record Backend =
  b_Name :: string
  b_Kind :: string
  b_BaseURL :: URL
  b_MaxInflight :: int
  b_ResponseHeaderTimeout :: int
  b_ResponseIdleTimeout :: int
  b_token :: string
  b_client :: HttpClient

definition ChatURL :: "Backend \<Rightarrow> URL" where
  "ChatURL b = EndpointURL (b_BaseURL b) ChatCompletionsPath"

definition HealthURL :: "Backend \<Rightarrow> URL" where
  "HealthURL b = EndpointURL (b_BaseURL b) (HealthPath (b_Kind b))"

definition Authorize :: "Backend \<Rightarrow> Header \<Rightarrow> Header" where
  "Authorize b h =
     (if b_token b \<noteq> '''' then Header_Set h ''Authorization'' (''Bearer '' @ b_token b) else h)"

datatype buildError = BuildURL string urlError | BuildSecret string string

text \<open>\<open>SecretResolver\<close>: the value of an environment variable, \<open>None\<close> when it is not set.\<close>

type_synonym SecretResolver = "string \<Rightarrow> string option"

definition resolveToken :: "SecretResolver \<Rightarrow> BackendConfig \<Rightarrow> buildError + string" where
  "resolveToken secrets cfg =
     (if bc_BearerTokenEnv cfg = '''' then Inr ''''
      else (case secrets (bc_BearerTokenEnv cfg) of
          None \<Rightarrow> Inl (BuildSecret (bc_Name cfg) (bc_BearerTokenEnv cfg))
        | Some value \<Rightarrow>
            if value = '''' then Inl (BuildSecret (bc_Name cfg) (bc_BearerTokenEnv cfg)) else Inr value))"

definition buildOne :: "SecretResolver \<Rightarrow> BackendConfig \<Rightarrow> buildError + Backend" where
  "buildOne secrets cfg =
     (case ParseBaseURL (bc_BaseURL cfg) of
        Inl e \<Rightarrow> Inl (BuildURL (bc_Name cfg) e)
      | Inr base \<Rightarrow>
         (case resolveToken secrets cfg of
            Inl e \<Rightarrow> Inl e
          | Inr token \<Rightarrow>
             (let timeout = wrap64 (bc_ResponseHeaderTimeoutMS cfg * Millisecond);
                  idleTimeout = wrap64 (bc_ResponseIdleTimeoutMS cfg * Millisecond)
              in Inr \<lparr>b_Name = bc_Name cfg, b_Kind = bc_Kind cfg, b_BaseURL = base, b_MaxInflight = bc_MaxInflight cfg,
                   b_ResponseHeaderTimeout = timeout, b_ResponseIdleTimeout = idleTimeout, b_token = token,
                   b_client = NewClient timeout\<rparr>)))"

fun Build :: "BackendConfig list \<Rightarrow> SecretResolver \<Rightarrow> buildError + Backend list" where
  "Build [] secrets = Inr []"
| "Build (cfg # cfgs) secrets =
     (case buildOne secrets cfg of
        Inl e \<Rightarrow> Inl e
      | Inr b \<Rightarrow> (case Build cfgs secrets of Inl e \<Rightarrow> Inl e | Inr bs \<Rightarrow> Inr (b # bs)))"

lemma wrap64_id: "- (2 ^ 63) \<le> x \<Longrightarrow> x < 2 ^ 63 \<Longrightarrow> wrap64 x = x"
  by (simp add: wrap64_def)

text \<open>The backend a configuration describes when nothing overflows.\<close>

definition describes :: "BackendConfig \<Rightarrow> Backend \<Rightarrow> bool" where
  "describes cfg b \<longleftrightarrow> b_Name b = bc_Name cfg \<and> b_Kind b = bc_Kind cfg \<and> b_MaxInflight b = bc_MaxInflight cfg \<and>
     ParseBaseURL (bc_BaseURL cfg) = Inr (b_BaseURL b) \<and>
     b_ResponseHeaderTimeout b = 1000000 * bc_ResponseHeaderTimeoutMS cfg \<and>
     b_ResponseIdleTimeout b = 1000000 * bc_ResponseIdleTimeoutMS cfg \<and>
     hc_ResponseHeaderTimeout (b_client b) = b_ResponseHeaderTimeout b \<and> hc_Timeout (b_client b) = 0 \<and>
     \<not> hc_FollowRedirects (b_client b)"

definition secretsPresent :: "SecretResolver \<Rightarrow> BackendConfig \<Rightarrow> bool" where
  "secretsPresent secrets cfg \<longleftrightarrow> bc_BearerTokenEnv cfg = '''' \<or>
     (\<exists>v. secrets (bc_BearerTokenEnv cfg) = Some v \<and> v \<noteq> '''')"

lemma resolveToken_Inr: "(\<exists>t. resolveToken secrets cfg = Inr t) \<longleftrightarrow> secretsPresent secrets cfg"
  by (auto simp: resolveToken_def secretsPresent_def split: option.splits)

lemma buildOne_describes:
  assumes "buildOne secrets cfg = Inr b" and "0 \<le> bc_ResponseHeaderTimeoutMS cfg" "bc_ResponseHeaderTimeoutMS cfg \<le> 900000"
    and "0 \<le> bc_ResponseIdleTimeoutMS cfg" "bc_ResponseIdleTimeoutMS cfg \<le> 900000"
  shows "describes cfg b"
proof -
  from assms(2-5) have "wrap64 (bc_ResponseHeaderTimeoutMS cfg * Millisecond) = 1000000 * bc_ResponseHeaderTimeoutMS cfg"
      "wrap64 (bc_ResponseIdleTimeoutMS cfg * Millisecond) = 1000000 * bc_ResponseIdleTimeoutMS cfg"
    by (subst wrap64_id; simp add: Millisecond_def)+
  with assms(1) show ?thesis
    by (auto simp: buildOne_def Let_def describes_def NewClient_def newTransport_def split: sum.splits)
qed

end
