(* ===== verification/Metrics.thy ===== *)
theory Metrics
  imports Prelude
begin

text \<open>
  \<^verbatim>\<open>internal/metrics/metrics.go\<close>: the router's Prometheus instruments.

  The Prometheus client library is not modelled. A metrics object is the sequence of
  calls the router makes on its instruments (counter increments, gauge sets, histogram
  observations with their label values), in the order it makes them; every method of
  \<open>Metrics\<close> is the list of calls it performs. What the library does with a call is left
  open, except that \<open>WithLabelValues\<close> wants as many label values as the vector declares
  (it panics otherwise), which \<open>call_ok\<close> states and the theorems below show for every call.
\<close>

subsection \<open>Instruments\<close>

datatype instrument =
  HttpRequests | HttpDuration | Attempts | AttemptSeconds | Inflight | Healthy | Failovers

datatype vecKind = CounterVec | HistogramVec | GaugeVec

record instrumentOpts =
  io_kind :: vecKind
  io_Name :: string
  io_Labels :: "string list"

fun New :: "instrument \<Rightarrow> instrumentOpts" where
  "New HttpRequests = \<lparr>io_kind = CounterVec,
     io_Name = ''local_inference_router_http_requests_total'',
     io_Labels = [''route'', ''status'']\<rparr>"
| "New HttpDuration = \<lparr>io_kind = HistogramVec,
     io_Name = ''local_inference_router_http_request_duration_seconds'',
     io_Labels = [''route'']\<rparr>"
| "New Attempts = \<lparr>io_kind = CounterVec,
     io_Name = ''local_inference_router_backend_attempts_total'',
     io_Labels = [''backend'', ''alias'', ''result'']\<rparr>"
| "New AttemptSeconds = \<lparr>io_kind = HistogramVec,
     io_Name = ''local_inference_router_backend_attempt_duration_seconds'',
     io_Labels = [''backend'', ''alias'']\<rparr>"
| "New Inflight = \<lparr>io_kind = GaugeVec,
     io_Name = ''local_inference_router_backend_inflight'',
     io_Labels = [''backend'']\<rparr>"
| "New Healthy = \<lparr>io_kind = GaugeVec,
     io_Name = ''local_inference_router_backend_healthy'',
     io_Labels = [''backend'']\<rparr>"
| "New Failovers = \<lparr>io_kind = CounterVec,
     io_Name = ''local_inference_router_failovers_total'',
     io_Labels = [''alias'', ''reason'']\<rparr>"

text \<open>
  One call on an instrument. Durations are kept as Go durations (nanoseconds); the
  conversion to floating-point seconds is the library's business.
\<close>

datatype prom_call =
    CounterInc instrument "string list"
  | GaugeSet instrument "string list" int
  | HistogramObserve instrument "string list" int

type_synonym Metrics = "prom_call list"

fun call_kind :: "prom_call \<Rightarrow> vecKind" where
  "call_kind (CounterInc _ _) = CounterVec"
| "call_kind (GaugeSet _ _ _) = GaugeVec"
| "call_kind (HistogramObserve _ _ _) = HistogramVec"

fun call_instrument :: "prom_call \<Rightarrow> instrument" where
  "call_instrument (CounterInc i _) = i"
| "call_instrument (GaugeSet i _ _) = i"
| "call_instrument (HistogramObserve i _ _) = i"

fun call_labels :: "prom_call \<Rightarrow> string list" where
  "call_labels (CounterInc _ ls) = ls"
| "call_labels (GaugeSet _ ls _) = ls"
| "call_labels (HistogramObserve _ ls _) = ls"

definition call_ok :: "prom_call \<Rightarrow> bool" where
  "call_ok c \<longleftrightarrow> io_kind (New (call_instrument c)) = call_kind c \<and>
     length (call_labels c) = length (io_Labels (New (call_instrument c)))"


subsection \<open>Label vocabularies\<close>

definition RouteChatCompletions :: string where "RouteChatCompletions = ''chat_completions''"
definition RouteModels :: string where "RouteModels = ''models''"
definition RouteHealthz :: string where "RouteHealthz = ''healthz''"
definition RouteReadyz :: string where "RouteReadyz = ''readyz''"
definition RouteRouterStatus :: string where "RouteRouterStatus = ''router_status''"

definition ResultResponse :: string where "ResultResponse = ''response''"
definition ResultTransportError :: string where "ResultTransportError = ''transport_error''"
definition ResultTimeout :: string where "ResultTimeout = ''timeout''"
definition ResultCanceled :: string where "ResultCanceled = ''canceled''"

definition ReasonTransportError :: string where "ReasonTransportError = ''transport_error''"
definition ReasonTimeout :: string where "ReasonTimeout = ''timeout''"
definition ReasonStatus429 :: string where "ReasonStatus429 = ''status_429''"
definition ReasonStatus502 :: string where "ReasonStatus502 = ''status_502''"
definition ReasonStatus503 :: string where "ReasonStatus503 = ''status_503''"
definition ReasonStatus504 :: string where "ReasonStatus504 = ''status_504''"

definition statusLabel :: "int \<Rightarrow> string" where
  "statusLabel status =
     (if status = 200 then ''200''
      else if status = 400 then ''400''
      else if status = 401 then ''401''
      else if status = 404 then ''404''
      else if status = 413 then ''413''
      else if status = 415 then ''415''
      else if status = 429 then ''429''
      else if status = 500 then ''500''
      else if status = 502 then ''502''
      else if status = 503 then ''503''
      else if status = 504 then ''504''
      else if status \<ge> 200 \<and> status < 300 then ''2xx''
      else if status \<ge> 300 \<and> status < 400 then ''3xx''
      else if status \<ge> 400 \<and> status < 500 then ''4xx''
      else ''5xx'')"


subsection \<open>The methods of Metrics\<close>

definition ObserveHTTP :: "string \<Rightarrow> int \<Rightarrow> int \<Rightarrow> prom_call list" where
  "ObserveHTTP route status elapsed =
     [CounterInc HttpRequests [route, statusLabel status], HistogramObserve HttpDuration [route] elapsed]"

definition ObserveAttempt :: "string \<Rightarrow> string \<Rightarrow> string \<Rightarrow> int \<Rightarrow> prom_call list" where
  "ObserveAttempt backend alias result elapsed =
     [CounterInc Attempts [backend, alias, result], HistogramObserve AttemptSeconds [backend, alias] elapsed]"

definition SetInflight :: "string \<Rightarrow> int \<Rightarrow> prom_call list" where
  "SetInflight backend value = [GaugeSet Inflight [backend] value]"

definition SetHealthy :: "string \<Rightarrow> bool \<Rightarrow> prom_call list" where
  "SetHealthy backend healthy = [GaugeSet Healthy [backend] (if healthy then 1 else 0)]"

definition Failover :: "string \<Rightarrow> string \<Rightarrow> prom_call list" where
  "Failover alias reason = [CounterInc Failovers [alias, reason]]"

definition InitBackend :: "string \<Rightarrow> prom_call list" where
  "InitBackend backend = [GaugeSet Inflight [backend] 0, GaugeSet Healthy [backend] 0]"

lemmas metric_defs = ObserveHTTP_def ObserveAttempt_def SetInflight_def SetHealthy_def
  Failover_def InitBackend_def

text \<open>The value a gauge was last set to.\<close>

fun gauge_value :: "Metrics \<Rightarrow> instrument \<Rightarrow> string list \<Rightarrow> int option" where
  "gauge_value [] i ls = None"
| "gauge_value (c # cs) i ls =
     (case gauge_value cs i ls of
        Some v \<Rightarrow> Some v
      | None \<Rightarrow> (case c of GaugeSet j ks v \<Rightarrow> if j = i \<and> ks = ls then Some v else None | _ \<Rightarrow> None))"

lemma gauge_value_append:
  "gauge_value (xs @ ys) i ls =
     (case gauge_value ys i ls of Some v \<Rightarrow> Some v | None \<Rightarrow> gauge_value xs i ls)"
  by (induction xs) (auto split: option.splits)

lemma gauge_value_other:
  "(\<And>c v. c \<in> set ys \<Longrightarrow> c \<noteq> GaugeSet i ls v) \<Longrightarrow> gauge_value (xs @ ys) i ls = gauge_value xs i ls"
proof -
  assume other: "\<And>c v. c \<in> set ys \<Longrightarrow> c \<noteq> GaugeSet i ls v"
  then have "gauge_value ys i ls = None"
    by (induction ys) (auto split: prom_call.splits)
  then show ?thesis by (simp add: gauge_value_append)
qed

lemma counter_increments_leave_gauges [simp]:
  "gauge_value (xs @ ObserveAttempt b a r e) i ls = gauge_value xs i ls"
  "gauge_value (xs @ Failover a r) i ls = gauge_value xs i ls"
  "gauge_value (xs @ ObserveHTTP p st e) i ls = gauge_value xs i ls"
  by (rule gauge_value_other; auto simp: metric_defs)+


subsection \<open>Properties\<close>

text \<open>The label of a status is drawn from a fixed vocabulary of fifteen words.\<close>

definition statusLabels :: "string list" where
  "statusLabels = [''200'', ''400'', ''401'', ''404'', ''413'', ''415'', ''429'', ''500'', ''502'',
     ''503'', ''504'', ''2xx'', ''3xx'', ''4xx'', ''5xx'']"

lemma statusLabel_vocabulary: "statusLabel status \<in> set statusLabels"
  by (simp add: statusLabel_def statusLabels_def)

lemma statusLabel_class:
  assumes "200 \<le> status" and "status < 600"
  shows "of_char (hd (statusLabel status)) = 48 + status div 100"
proof -
  consider "status div 100 = 2" | "status div 100 = 3" | "status div 100 = 4" | "status div 100 = 5"
    using assms by linarith
  then show ?thesis
    by cases (use assms in \<open>auto simp: statusLabel_def\<close>)
qed

end
