(* ===== verification/Ledger.thy ===== *)
theory Ledger
  imports Prelude
begin

text \<open>
  The contract between the routing state and the requests that use it.

  A request holds at most one reservation at a time and gives it back or moves it. What
  the request code relies on is stated here, once, as a locale over the operations of the
  provider: a granted reservation adds one to the load of one backend that was below its
  limit, a transfer moves one unit, a release of a held reservation takes one away, and
  a refused operation changes nothing. From these laws follow the two facts every use of
  the provider needs: the load of a backend is exactly the number of reservations held on
  it, and it never exceeds the backend's limit.
\<close>

text \<open>The loads agree with the multiset of backends on which reservations are held.\<close>

definition balanced :: "(string \<Rightarrow> int) \<Rightarrow> string multiset \<Rightarrow> bool" where
  "balanced l H \<longleftrightarrow> (\<forall>b. l b = int (count H b))"

text \<open>No load is negative or above its limit.\<close>

definition within :: "(string \<Rightarrow> int) \<Rightarrow> (string \<Rightarrow> int) \<Rightarrow> bool" where
  "within l m \<longleftrightarrow> (\<forall>b. 0 \<le> l b \<and> l b \<le> max 0 (m b))"

lemma balanced_held_positive: "balanced l H \<Longrightarrow> b \<in># H \<Longrightarrow> 0 < l b"
  by (simp add: balanced_def)

lemma balanced_add: "balanced l H \<Longrightarrow> balanced (l(b := l b + 1)) (add_mset b H)"
  by (simp add: balanced_def)

lemma balanced_remove: "balanced l H \<Longrightarrow> b \<in># H \<Longrightarrow> balanced (l(b := l b - 1)) (H - {#b#})"
  by (auto simp: balanced_def)

lemma within_add: "within l m \<Longrightarrow> l b < m b \<Longrightarrow> within (l(b := l b + 1)) m"
  by (auto simp: within_def)

lemma within_remove: "within l m \<Longrightarrow> 0 < l b \<Longrightarrow> within (l(b := l b - 1)) m"
  by (auto simp: within_def intro: order_trans [of _ "l b"])

locale reservation_provider =
  fixes inv :: "'s \<Rightarrow> bool"
    and ld :: "'s \<Rightarrow> string \<Rightarrow> int"
    and lim :: "'s \<Rightarrow> string \<Rightarrow> int"
    and backend_of :: "'r \<Rightarrow> string"
    and reserve :: "'s \<Rightarrow> 'a \<Rightarrow> 'r set \<Rightarrow> (('e + 'r) \<times> 's) option"
    and swap :: "'s \<Rightarrow> 'a \<Rightarrow> 'r option \<Rightarrow> 'r set \<Rightarrow> (('e + 'r) \<times> 's \<times> 'c) option"
    and release :: "'s \<Rightarrow> 'r option \<Rightarrow> 's \<times> 'c"
  assumes reserve_total: "inv s \<Longrightarrow> reserve s a att \<noteq> None"
    and reserve_refused: "inv s \<Longrightarrow> reserve s a att = Some (Inl e, s') \<Longrightarrow> s' = s"
    and reserve_granted: "inv s \<Longrightarrow> reserve s a att = Some (Inr r, s') \<Longrightarrow>
      inv s' \<and> r \<notin> att \<and> lim s' = lim s \<and> ld s (backend_of r) < lim s (backend_of r) \<and>
      ld s' = (ld s)(backend_of r := ld s (backend_of r) + 1)"
    and swap_total: "inv s \<Longrightarrow> swap s a cur att \<noteq> None"
    and swap_refused: "inv s \<Longrightarrow> swap s a cur att = Some (Inl e, s', cs) \<Longrightarrow> s' = s"
    and swap_moved: "inv s \<Longrightarrow> swap s a (Some c) att = Some (Inr r, s', cs) \<Longrightarrow>
      inv s' \<and> r \<notin> att \<and> lim s' = lim s \<and>
      (let l = (ld s)(backend_of c := ld s (backend_of c) - 1)
       in l (backend_of r) < lim s (backend_of r) \<and> ld s' = l(backend_of r := l (backend_of r) + 1))"
    and release_held: "inv s \<Longrightarrow> 0 < ld s (backend_of r) \<Longrightarrow> release s (Some r) = (s', cs) \<Longrightarrow>
      inv s' \<and> lim s' = lim s \<and> ld s' = (ld s)(backend_of r := ld s (backend_of r) - 1)"
begin

lemma reserve_keeps:
  assumes "inv s" and "balanced (ld s) H" and "within (ld s) (lim s)"
    and "reserve s a att = Some (Inr r, s')"
  shows "inv s'" and "lim s' = lim s" and "balanced (ld s') (add_mset (backend_of r) H)"
    and "within (ld s') (lim s')"
  using reserve_granted [OF assms(1,4)] assms(2,3) by (simp_all add: balanced_add within_add)

lemma swap_keeps:
  assumes inv: "inv s" and bal: "balanced (ld s) H" and wi: "within (ld s) (lim s)"
    and held: "backend_of c \<in># H" and swap: "swap s a (Some c) att = Some (Inr r, s', cs)"
  shows "inv s'" and "lim s' = lim s" and "within (ld s') (lim s')"
    and "balanced (ld s') (add_mset (backend_of r) (H - {#backend_of c#}))"
proof -
  let ?l = "(ld s)(backend_of c := ld s (backend_of c) - 1)"
  have moved: "inv s'" "lim s' = lim s" "?l (backend_of r) < lim s (backend_of r)"
      "ld s' = ?l(backend_of r := ?l (backend_of r) + 1)"
    using swap_moved [OF inv swap] by (simp_all add: Let_def)
  from moved(1,2) show "inv s'" and "lim s' = lim s" by this+
  have "balanced ?l (H - {#backend_of c#})" by (rule balanced_remove [OF bal held])
  then show "balanced (ld s') (add_mset (backend_of r) (H - {#backend_of c#}))"
    unfolding moved(4) by (rule balanced_add)
  have "within ?l (lim s)" by (rule within_remove [OF wi balanced_held_positive [OF bal held]])
  then show "within (ld s') (lim s')"
    unfolding moved(4) moved(2) using moved(3) by (rule within_add)
qed

lemma release_keeps:
  assumes inv: "inv s" and bal: "balanced (ld s) H" and wi: "within (ld s) (lim s)"
    and held: "backend_of r \<in># H" and rel: "release s (Some r) = (s', cs)"
  shows "inv s'" and "lim s' = lim s" and "within (ld s') (lim s')"
    and "balanced (ld s') (H - {#backend_of r#})"
proof -
  note pos = balanced_held_positive [OF bal held]
  note law = release_held [OF inv pos rel]
  from law show "inv s'" and "lim s' = lim s" by simp_all
  from law show "within (ld s') (lim s')" by (simp add: within_remove [OF wi pos])
  from law show "balanced (ld s') (H - {#backend_of r#})" by (simp add: balanced_remove [OF bal held])
qed

text \<open>Nothing is ever lost: a reservation taken and given back leaves every load as it was.\<close>

lemma reserve_release_id:
  assumes "inv s" and "0 \<le> ld s (backend_of r)" and "reserve s a att = Some (Inr r, s1)"
    and "release s1 (Some r) = (s2, cs)"
  shows "ld s2 = ld s"
proof -
  note res = reserve_granted [OF assms(1,3)]
  then have "0 < ld s1 (backend_of r)" using assms(2) by simp
  with res assms(4) release_held have "ld s2 = (ld s1)(backend_of r := ld s1 (backend_of r) - 1)"
    by blast
  with res show ?thesis by simp
qed

end

text \<open>
  The health checker writes to the same state. Its interface (\<open>HealthSink\<close> in the source)
  adds one operation, which must not touch any load or limit.
\<close>

locale health_aware_provider = reservation_provider +
  fixes set_health :: "'s \<Rightarrow> string \<Rightarrow> bool \<Rightarrow> 's \<times> 'c"
    and known :: "'s \<Rightarrow> string \<Rightarrow> bool"
    and usable :: "'s \<Rightarrow> string \<Rightarrow> bool"
  assumes health_frame: "inv s \<Longrightarrow> set_health s b h = (s', cs) \<Longrightarrow>
      inv s' \<and> lim s' = lim s \<and> ld s' = ld s"
    and health_recorded: "inv s \<Longrightarrow> set_health s b h = (s', cs) \<Longrightarrow>
      usable s' b' = (if b' = b \<and> known s b then h else usable s b')"
    and usable_known: "inv s \<Longrightarrow> usable s b \<Longrightarrow> known s b"
    and reserve_usable: "inv s \<Longrightarrow> reserve s a att = Some (Inr r, s') \<Longrightarrow> usable s (backend_of r)"
begin

lemma health_keeps:
  assumes "inv s" and "balanced (ld s) H" and "within (ld s) (lim s)" and "set_health s b h = (s', cs)"
  shows "inv s'" and "lim s' = lim s" and "balanced (ld s') H" and "within (ld s') (lim s')"
  using health_frame [OF assms(1,4)] assms(2,3) by simp_all

text \<open>A backend recorded as unhealthy is not selected by the next reservation.\<close>

lemma quarantined_not_reserved:
  assumes "inv s" and "set_health s b False = (s1, cs)" and "reserve s1 a att = Some (Inr r, s2)"
  shows "backend_of r \<noteq> b"
proof -
  have "inv s1" using health_frame [OF assms(1,2)] by simp
  then have "usable s1 (backend_of r)" using assms(3) by (rule reserve_usable)
  with health_recorded [OF assms(1,2)] usable_known [OF assms(1)] show ?thesis by (auto split: if_splits)
qed

end

end
