(* ===== verification/RouterState.thy ===== *)
theory RouterState
  imports Backend Metrics Ledger
begin

text \<open>
  \<^verbatim>\<open>internal/router/state.go\<close> and \<^verbatim>\<open>internal/router/select.go\<close>: the routing state that
  all requests share, route selection, and the reservation of backend capacity.

  The Go state holds pointers to \<open>backendState\<close> objects, reached both through the map
  \<open>backends\<close> and through the slice \<open>order\<close>. The model keeps the objects in the list
  \<open>st_cells\<close> and represents a pointer by the position of its object, so that an update
  through one access path is seen through the other. A \<open>*Route\<close> is used as a key of the
  set of attempted routes: routes of one alias differ in their position (\<open>r_Order\<close>),
  so equality of the records is identity of the pointers (\<open>wf_state\<close> keeps that).

  Every method runs its body under \<open>s.mu\<close>. Where a method publishes metrics after
  unlocking, the model separates the critical section (suffix \<open>_locked\<close>), which returns
  the calls still to be made, from the publication.
\<close>

subsection \<open>Data\<close>

record Route =
  r_Alias :: string
  r_Backend :: Backend
  r_UpstreamModel :: string
  r_Priority :: int
  r_Order :: nat

record backendState =
  bs_backend :: Backend
  bs_checked :: bool
  bs_healthy :: bool
  bs_inflight :: int

record aliasState =
  as_name :: string
  as_routes :: "Route list"

record State =
  st_cells :: "backendState list"
  st_backends :: "string \<rightharpoonup> nat"
  st_order :: "nat list"
  st_aliases :: "string \<rightharpoonup> aliasState"
  st_aliasOrder :: "aliasState list"
  st_metrics :: "Metrics option"

datatype routeError = ErrNoRoute | ErrUnknownAlias

datatype newStateError = UnknownBackend string string

text \<open>\<open>s.backends[name]\<close>, dereferenced; \<open>None\<close> is the nil pointer of a missing key.\<close>

definition bsOf :: "State \<Rightarrow> string \<Rightarrow> backendState option" where
  "bsOf s name = map_option (\<lambda>p. st_cells s ! p) (st_backends s name)"

text \<open>Writing the object a pointer refers to.\<close>

definition putCell :: "nat \<Rightarrow> backendState \<Rightarrow> State \<Rightarrow> State" where
  "putCell p bs s = s\<lparr>st_cells := (st_cells s)[p := bs]\<rparr>"

text \<open>\<open>if s.metrics != nil\<close> followed by calls on the metrics object.\<close>

definition emit :: "prom_call list \<Rightarrow> State \<Rightarrow> State" where
  "emit calls s = s\<lparr>st_metrics := map_option (\<lambda>m. m @ calls) (st_metrics s)\<rparr>"

definition publish :: "State \<times> prom_call list \<Rightarrow> State" where
  "publish sc = emit (snd sc) (fst sc)"


subsection \<open>Construction\<close>

definition addBackend :: "Backend \<Rightarrow> State \<Rightarrow> State" where
  "addBackend b s =
     emit (InitBackend (b_Name b))
       (s\<lparr>st_cells := st_cells s @ [\<lparr>bs_backend = b, bs_checked = False, bs_healthy = False, bs_inflight = 0\<rparr>],
          st_backends := (st_backends s)(b_Name b \<mapsto> length (st_cells s)),
          st_order := st_order s @ [length (st_cells s)]\<rparr>)"

fun newState_backends :: "Backend list \<Rightarrow> State \<Rightarrow> State" where
  "newState_backends [] s = s"
| "newState_backends (b # bs) s = newState_backends bs (addBackend b s)"

definition mkRoute :: "string \<Rightarrow> nat \<Rightarrow> RouteConfig \<Rightarrow> backendState \<Rightarrow> Route" where
  "mkRoute alias i rc bs = \<lparr>r_Alias = alias, r_Backend = bs_backend bs,
     r_UpstreamModel = rc_UpstreamModel rc, r_Priority = rc_Priority rc, r_Order = i\<rparr>"

fun newState_routes :: "State \<Rightarrow> string \<Rightarrow> nat \<Rightarrow> RouteConfig list \<Rightarrow> newStateError + Route list" where
  "newState_routes s alias i [] = Inr []"
| "newState_routes s alias i (rc # rcs) =
     (case bsOf s (rc_Backend rc) of
        None \<Rightarrow> Inl (UnknownBackend alias (rc_Backend rc))
      | Some bs \<Rightarrow>
         (case newState_routes s alias (Suc i) rcs of
            Inl e \<Rightarrow> Inl e
          | Inr rs \<Rightarrow> Inr (mkRoute alias i rc bs # rs)))"

definition addAlias :: "string \<Rightarrow> Route list \<Rightarrow> State \<Rightarrow> State" where
  "addAlias name rs s =
     (let alias = \<lparr>as_name = name, as_routes = rs\<rparr>
      in s\<lparr>st_aliases := (st_aliases s)(name \<mapsto> alias), st_aliasOrder := st_aliasOrder s @ [alias]\<rparr>)"

fun newState_aliases :: "AliasConfig list \<Rightarrow> State \<Rightarrow> newStateError + State" where
  "newState_aliases [] s = Inr s"
| "newState_aliases (ac # acs) s =
     (case newState_routes s (ac_Name ac) 0 (ac_Routes ac) of
        Inl e \<Rightarrow> Inl e
      | Inr rs \<Rightarrow> newState_aliases acs (addAlias (ac_Name ac) rs s))"

definition emptyState :: "Metrics option \<Rightarrow> State" where
  "emptyState m = \<lparr>st_cells = [], st_backends = Map.empty, st_order = [],
     st_aliases = Map.empty, st_aliasOrder = [], st_metrics = m\<rparr>"

definition NewState :: "Config \<Rightarrow> Backend list \<Rightarrow> Metrics option \<Rightarrow> newStateError + State" where
  "NewState cfg backends m = newState_aliases (cfg_Aliases cfg) (newState_backends backends (emptyState m))"


subsection \<open>Route selection\<close>

fun selectLoop :: "State \<Rightarrow> Route set \<Rightarrow> Route list \<Rightarrow> (Route \<times> int) option \<Rightarrow> Route option panics" where
  "selectLoop s attempted [] best = Some (map_option fst best)"
| "selectLoop s attempted (route # rest) best =
     (if route \<in> attempted then selectLoop s attempted rest best
      else case bsOf s (b_Name (r_Backend route)) of
        None \<Rightarrow> None
      | Some bs \<Rightarrow>
          if \<not> bs_checked bs \<or> \<not> bs_healthy bs then selectLoop s attempted rest best
          else if bs_inflight bs \<ge> b_MaxInflight (bs_backend bs) then selectLoop s attempted rest best
          else (case best of
              None \<Rightarrow> selectLoop s attempted rest (Some (route, bs_inflight bs))
            | Some (b, bestInflight) \<Rightarrow>
                if r_Priority route < r_Priority b
                then selectLoop s attempted rest (Some (route, bs_inflight bs))
                else if r_Priority route > r_Priority b
                then selectLoop s attempted rest best
                else if bs_inflight bs < bestInflight
                then selectLoop s attempted rest (Some (route, bs_inflight bs))
                else selectLoop s attempted rest best))"

definition selectLocked :: "State \<Rightarrow> aliasState \<Rightarrow> Route set \<Rightarrow> Route option panics" where
  "selectLocked s alias attempted = selectLoop s attempted (as_routes alias) None"


subsection \<open>Operations\<close>

definition SetHealth_locked :: "State \<Rightarrow> string \<Rightarrow> bool \<Rightarrow> State \<times> prom_call list" where
  "SetHealth_locked s name healthy =
     (case st_backends s name of
        None \<Rightarrow> (s, [])
      | Some p \<Rightarrow> (putCell p ((st_cells s ! p)\<lparr>bs_checked := True, bs_healthy := healthy\<rparr>) s,
                  SetHealthy name healthy))"

definition SetHealth :: "State \<Rightarrow> string \<Rightarrow> bool \<Rightarrow> State" where
  "SetHealth s name healthy = publish (SetHealth_locked s name healthy)"

definition HasAlias :: "State \<Rightarrow> string \<Rightarrow> bool" where
  "HasAlias s name = (st_aliases s name \<noteq> None)"

definition RouteCount :: "State \<Rightarrow> string \<Rightarrow> nat" where
  "RouteCount s name = (case st_aliases s name of None \<Rightarrow> 0 | Some alias \<Rightarrow> length (as_routes alias))"

definition Reserve :: "State \<Rightarrow> string \<Rightarrow> Route set \<Rightarrow> ((routeError + Route) \<times> State) panics" where
  "Reserve s aliasName attempted =
     (case st_aliases s aliasName of
        None \<Rightarrow> Some (Inl ErrUnknownAlias, s)
      | Some alias \<Rightarrow>
         (case selectLocked s alias attempted of
            None \<Rightarrow> None
          | Some None \<Rightarrow> Some (Inl ErrNoRoute, s)
          | Some (Some selected) \<Rightarrow>
             (case st_backends s (b_Name (r_Backend selected)) of
                None \<Rightarrow> None
              | Some p \<Rightarrow>
                 (let bs = (st_cells s ! p)\<lparr>bs_inflight := bs_inflight (st_cells s ! p) + 1\<rparr>
                  in Some (Inr selected,
                       emit (SetInflight (b_Name (bs_backend bs)) (bs_inflight bs)) (putCell p bs s))))))"

definition SwapReservation_locked ::
  "State \<Rightarrow> string \<Rightarrow> Route option \<Rightarrow> Route set \<Rightarrow> ((routeError + Route) \<times> State \<times> prom_call list) panics" where
  "SwapReservation_locked s aliasName current attempted =
     (case current of
        None \<Rightarrow> Some (Inl ErrNoRoute, s, [])
      | Some cur \<Rightarrow>
     (case st_aliases s aliasName of
        None \<Rightarrow> Some (Inl ErrUnknownAlias, s, [])
      | Some alias \<Rightarrow>
     (case st_backends s (b_Name (r_Backend cur)) of
        None \<Rightarrow> Some (Inl ErrNoRoute, s, [])
      | Some cp \<Rightarrow>
         if bs_inflight (st_cells s ! cp) \<le> 0 then Some (Inl ErrNoRoute, s, [])
         else
          (let freed = putCell cp ((st_cells s ! cp)\<lparr>bs_inflight := bs_inflight (st_cells s ! cp) - 1\<rparr>) s
           in case selectLocked freed alias attempted of
                None \<Rightarrow> None
              | Some None \<Rightarrow>
                  Some (Inl ErrNoRoute,
                    putCell cp ((st_cells freed ! cp)\<lparr>bs_inflight := bs_inflight (st_cells freed ! cp) + 1\<rparr>) freed, [])
              | Some (Some selected) \<Rightarrow>
                 (case st_backends freed (b_Name (r_Backend selected)) of
                    None \<Rightarrow> None
                  | Some sp \<Rightarrow>
                     (let taken = putCell sp ((st_cells freed ! sp)\<lparr>bs_inflight := bs_inflight (st_cells freed ! sp) + 1\<rparr>) freed;
                          currentName = b_Name (bs_backend (st_cells taken ! cp));
                          selectedName = b_Name (bs_backend (st_cells taken ! sp))
                      in Some (Inr selected, taken,
                           (if currentName \<noteq> selectedName
                            then SetInflight currentName (bs_inflight (st_cells taken ! cp)) else [])
                           @ SetInflight selectedName (bs_inflight (st_cells taken ! sp)))))))))"

definition SwapReservation ::
  "State \<Rightarrow> string \<Rightarrow> Route option \<Rightarrow> Route set \<Rightarrow> ((routeError + Route) \<times> State) panics" where
  "SwapReservation s aliasName current attempted =
     map_option (\<lambda>(res, sc). (res, publish sc)) (SwapReservation_locked s aliasName current attempted)"

definition Release_locked :: "State \<Rightarrow> Route option \<Rightarrow> State \<times> prom_call list" where
  "Release_locked s route =
     (case route of
        None \<Rightarrow> (s, [])
      | Some r \<Rightarrow>
     (case st_backends s (b_Name (r_Backend r)) of
        None \<Rightarrow> (s, [])
      | Some p \<Rightarrow>
         (let s' = (if bs_inflight (st_cells s ! p) > 0
                    then putCell p ((st_cells s ! p)\<lparr>bs_inflight := bs_inflight (st_cells s ! p) - 1\<rparr>) s
                    else s)
          in (s', SetInflight (b_Name (r_Backend r)) (bs_inflight (st_cells s' ! p))))))"

definition Release :: "State \<Rightarrow> Route option \<Rightarrow> State" where
  "Release s route = publish (Release_locked s route)"


subsection \<open>Readiness and status\<close>

fun aliasReadyLoop :: "State \<Rightarrow> Route list \<Rightarrow> bool panics" where
  "aliasReadyLoop s [] = Some False"
| "aliasReadyLoop s (route # rest) =
     (case bsOf s (b_Name (r_Backend route)) of
        None \<Rightarrow> None
      | Some bs \<Rightarrow> if bs_checked bs \<and> bs_healthy bs then Some True else aliasReadyLoop s rest)"

definition aliasReadyLocked :: "State \<Rightarrow> aliasState \<Rightarrow> bool panics" where
  "aliasReadyLocked s alias = aliasReadyLoop s (as_routes alias)"

fun readyLoop :: "State \<Rightarrow> aliasState list \<Rightarrow> bool panics" where
  "readyLoop s [] = Some True"
| "readyLoop s (alias # rest) =
     (case aliasReadyLocked s alias of
        None \<Rightarrow> None
      | Some ok \<Rightarrow> if \<not> ok then Some False else readyLoop s rest)"

definition Ready :: "State \<Rightarrow> bool panics" where
  "Ready s = readyLoop s (st_aliasOrder s)"

record BackendStatus =
  bst_Name :: string
  bst_Kind :: string
  bst_Checked :: bool
  bst_Healthy :: bool
  bst_Inflight :: int
  bst_MaxInflight :: int

record AliasStatus =
  ast_Name :: string
  ast_Ready :: bool
  ast_RouteCount :: nat

record Status =
  status_Backends :: "BackendStatus list"
  status_Aliases :: "AliasStatus list"

definition backendStatus :: "backendState \<Rightarrow> BackendStatus" where
  "backendStatus bs = \<lparr>bst_Name = b_Name (bs_backend bs), bst_Kind = b_Kind (bs_backend bs),
     bst_Checked = bs_checked bs, bst_Healthy = bs_healthy bs, bst_Inflight = bs_inflight bs,
     bst_MaxInflight = b_MaxInflight (bs_backend bs)\<rparr>"

fun aliasStatuses :: "State \<Rightarrow> aliasState list \<Rightarrow> AliasStatus list panics" where
  "aliasStatuses s [] = Some []"
| "aliasStatuses s (alias # rest) =
     (case aliasReadyLocked s alias of
        None \<Rightarrow> None
      | Some ok \<Rightarrow> map_option (\<lambda>ss. \<lparr>ast_Name = as_name alias, ast_Ready = ok,
          ast_RouteCount = length (as_routes alias)\<rparr> # ss) (aliasStatuses s rest))"

definition Snapshot :: "State \<Rightarrow> Status panics" where
  "Snapshot s = map_option (\<lambda>as. \<lparr>status_Backends = map (\<lambda>p. backendStatus (st_cells s ! p)) (st_order s),
     status_Aliases = as\<rparr>) (aliasStatuses s (st_aliasOrder s))"

definition AliasNames :: "State \<Rightarrow> string list" where
  "AliasNames s = map as_name (st_aliasOrder s)"

declare SetHealth_locked_def [op_defs] SetHealth_def [op_defs] Reserve_def [op_defs]
  SwapReservation_locked_def [op_defs] SwapReservation_def [op_defs]
  Release_locked_def [op_defs] Release_def [op_defs]


subsection \<open>Well-formedness\<close>

abbreviation routeBackend :: "Route \<Rightarrow> string" where
  "routeBackend r \<equiv> b_Name (r_Backend r)"

text \<open>
  A route of an alias knows its alias and its position, and its backend is the one the
  state registered under the backend's name.
\<close>

definition alias_ok :: "State \<Rightarrow> aliasState \<Rightarrow> bool" where
  "alias_ok s a \<longleftrightarrow> map r_Order (as_routes a) = [0..<length (as_routes a)] \<and>
     (\<forall>r\<in>set (as_routes a). r_Alias r = as_name a \<and>
        map_option bs_backend (bsOf s (routeBackend r)) = Some (r_Backend r))"

definition wf_state :: "State \<Rightarrow> bool" where
  "wf_state s \<longleftrightarrow>
     st_order s = [0..<length (st_cells s)] \<and>
     (\<forall>n p. st_backends s n = Some p \<longrightarrow> p < length (st_cells s) \<and> b_Name (bs_backend (st_cells s ! p)) = n) \<and>
     (\<forall>n a. st_aliases s n = Some a \<longrightarrow> as_name a = n \<and> a \<in> set (st_aliasOrder s)) \<and>
     (\<forall>a\<in>set (st_aliasOrder s). alias_ok s a)"

text \<open>No backend carries a negative load or more load than its limit.\<close>

definition capacity_ok :: "State \<Rightarrow> bool" where
  "capacity_ok s \<longleftrightarrow>
     (\<forall>bs\<in>set (st_cells s). 0 \<le> bs_inflight bs \<and> bs_inflight bs \<le> max 0 (b_MaxInflight (bs_backend bs)))"

text \<open>What no operation after construction changes.\<close>

definition same_shape :: "State \<Rightarrow> State \<Rightarrow> bool" where
  "same_shape s s' \<longleftrightarrow> map bs_backend (st_cells s') = map bs_backend (st_cells s) \<and>
     st_backends s' = st_backends s \<and> st_order s' = st_order s \<and>
     st_aliases s' = st_aliases s \<and> st_aliasOrder s' = st_aliasOrder s \<and>
     (st_metrics s' = None \<longleftrightarrow> st_metrics s = None)"

lemma same_shape_refl [simp]: "same_shape s s"
  by (simp add: same_shape_def)

lemma same_shape_trans: "same_shape s t \<Longrightarrow> same_shape t u \<Longrightarrow> same_shape s u"
  by (simp add: same_shape_def)

lemma same_shapeD:
  assumes "same_shape s s'"
  shows "st_backends s' = st_backends s" "st_order s' = st_order s" "st_aliases s' = st_aliases s"
    "st_aliasOrder s' = st_aliasOrder s" "length (st_cells s') = length (st_cells s)"
    "map bs_backend (st_cells s') = map bs_backend (st_cells s)"
proof -
  from assms show cells: "map bs_backend (st_cells s') = map bs_backend (st_cells s)"
    by (simp add: same_shape_def)
  from arg_cong [where f = length, OF cells] show "length (st_cells s') = length (st_cells s)"
    by simp
qed (use assms in \<open>simp_all add: same_shape_def\<close>)

lemma same_shape_cell_backend:
  assumes "same_shape s s'" and "p < length (st_cells s)"
  shows "bs_backend (st_cells s' ! p) = bs_backend (st_cells s ! p)"
  using assms(2) same_shapeD(5) [OF assms(1)]
    arg_cong [where f = "\<lambda>xs. xs ! p", OF same_shapeD(6) [OF assms(1)]] by simp

lemma wf_state_pointer:
  assumes "wf_state s" and "st_backends s n = Some p"
  shows "p < length (st_cells s)" and "b_Name (bs_backend (st_cells s ! p)) = n"
  using assms by (simp_all add: wf_state_def)

lemma wf_state_pointer_inj:
  "wf_state s \<Longrightarrow> st_backends s n = Some p \<Longrightarrow> st_backends s m = Some p \<Longrightarrow> m = n"
  using wf_state_pointer(2) [of s n p] wf_state_pointer(2) [of s m p] by simp

lemma same_shape_bsOf_backend:
  assumes "same_shape s s'" and "wf_state s"
  shows "map_option bs_backend (bsOf s' n) = map_option bs_backend (bsOf s n)"
proof (cases "st_backends s n")
  case None
  with same_shapeD(1) [OF assms(1)] show ?thesis by (simp add: bsOf_def)
next
  case (Some p)
  from wf_state_pointer(1) [OF assms(2) Some] same_shapeD(1) [OF assms(1)] Some
  show ?thesis by (simp add: bsOf_def same_shape_cell_backend [OF assms(1)])
qed

lemma same_shape_wf:
  assumes shape: "same_shape s s'" and wf: "wf_state s"
  shows "wf_state s'"
proof -
  have "alias_ok s' a" if "alias_ok s a" for a
    using that by (simp add: alias_ok_def same_shape_bsOf_backend [OF shape wf])
  moreover have "b_Name (bs_backend (st_cells s' ! p)) = n \<and> p < length (st_cells s')"
    if "st_backends s n = Some p" for n p
    using wf_state_pointer [OF wf that] same_shapeD(5) [OF shape]
    by (simp add: same_shape_cell_backend [OF shape])
  ultimately show ?thesis
    using wf by (simp add: wf_state_def same_shapeD [OF shape])
qed

lemma bsOf_Some_name: "wf_state s \<Longrightarrow> bsOf s n = Some bs \<Longrightarrow> b_Name (bs_backend bs) = n"
  by (auto simp: bsOf_def wf_state_pointer)

lemma bsOf_Some_in_cells: "wf_state s \<Longrightarrow> bsOf s n = Some bs \<Longrightarrow> bs \<in> set (st_cells s)"
  by (auto simp: bsOf_def wf_state_pointer)

lemma wf_alias_ok: "wf_state s \<Longrightarrow> st_aliases s n = Some a \<Longrightarrow> alias_ok s a \<and> as_name a = n"
  by (simp add: wf_state_def)

lemma wf_route_registered:
  "wf_state s \<Longrightarrow> st_aliases s n = Some a \<Longrightarrow> r \<in> set (as_routes a) \<Longrightarrow>
     \<exists>bs. bsOf s (routeBackend r) = Some bs \<and> bs_backend bs = r_Backend r"
  by (auto dest!: wf_alias_ok simp: alias_ok_def)

lemma alias_ok_distinct: "alias_ok s a \<Longrightarrow> distinct (as_routes a)"
  by (metis alias_ok_def distinct_map distinct_upt)

lemma wf_routes_distinct: "wf_state s \<Longrightarrow> st_aliases s n = Some a \<Longrightarrow> distinct (as_routes a)"
  using wf_alias_ok alias_ok_distinct by blast


subsection \<open>Updates of one backend\<close>

text \<open>
  Through names, an update of the object behind a pointer is the update of one entry of
  a map: two names never lead to the same object.
\<close>

lemma bsOf_putCell:
  assumes "wf_state s" and "st_backends s n = Some p"
  shows "bsOf (putCell p bs s) = (bsOf s)(n \<mapsto> bs)"
proof
  fix m
  from wf_state_pointer(1) [OF assms] have p: "p < length (st_cells s)" .
  show "bsOf (putCell p bs s) m = ((bsOf s)(n \<mapsto> bs)) m"
  proof (cases "st_backends s m")
    case None
    with assms(2) show ?thesis by (auto simp: bsOf_def putCell_def)
  next
    case (Some q)
    then have "q = p \<longleftrightarrow> m = n" using assms wf_state_pointer_inj [of s n p m] by auto
    with Some p show ?thesis by (auto simp: bsOf_def putCell_def nth_list_update)
  qed
qed

lemma same_shape_putCell:
  assumes "bs_backend bs = bs_backend (st_cells s ! p)"
  shows "same_shape s (putCell p bs s)"
proof (cases "p < length (st_cells s)")
  case True
  then have "(map bs_backend (st_cells s))[p := bs_backend (st_cells s ! p)] = map bs_backend (st_cells s)"
    by (metis list_update_id nth_map)
  with assms show ?thesis by (simp add: same_shape_def putCell_def map_update)
next
  case False
  then show ?thesis by (simp add: same_shape_def putCell_def list_update_beyond)
qed

lemma same_shape_emit [simp]: "same_shape s (emit calls s)"
  by (simp add: same_shape_def emit_def)

lemma bsOf_emit [simp]: "bsOf (emit calls s) = bsOf s"
  by (simp add: bsOf_def emit_def fun_eq_iff)

lemma emit_simps [simp]:
  "st_cells (emit calls s) = st_cells s" "st_backends (emit calls s) = st_backends s"
  "st_order (emit calls s) = st_order s" "st_aliases (emit calls s) = st_aliases s"
  "st_aliasOrder (emit calls s) = st_aliasOrder s"
  "st_metrics (emit calls s) = map_option (\<lambda>m. m @ calls) (st_metrics s)"
  by (simp_all add: emit_def)

lemma putCell_simps [simp]:
  "st_cells (putCell p bs s) = (st_cells s)[p := bs]" "st_backends (putCell p bs s) = st_backends s"
  "st_order (putCell p bs s) = st_order s" "st_aliases (putCell p bs s) = st_aliases s"
  "st_aliasOrder (putCell p bs s) = st_aliasOrder s" "st_metrics (putCell p bs s) = st_metrics s"
  by (simp_all add: putCell_def)

lemma capacity_ok_emit [simp]: "capacity_ok (emit calls s) \<longleftrightarrow> capacity_ok s"
  by (simp add: capacity_ok_def)

lemma capacity_ok_putCell:
  "capacity_ok s \<Longrightarrow> 0 \<le> bs_inflight bs \<Longrightarrow> bs_inflight bs \<le> max 0 (b_MaxInflight (bs_backend bs)) \<Longrightarrow>
     capacity_ok (putCell p bs s)"
  by (auto simp: capacity_ok_def dest!: set_update_subset_insert [THEN subsetD])


subsection \<open>Selection is the lexicographic optimum\<close>

definition eligible :: "State \<Rightarrow> Route set \<Rightarrow> Route \<Rightarrow> bool" where
  "eligible s attempted r \<longleftrightarrow> r \<notin> attempted \<and>
     (case bsOf s (routeBackend r) of
        None \<Rightarrow> False
      | Some bs \<Rightarrow> bs_checked bs \<and> bs_healthy bs \<and> bs_inflight bs < b_MaxInflight (bs_backend bs))"

text \<open>The current load of a backend, and its limit.\<close>

definition load :: "State \<Rightarrow> string \<Rightarrow> int" where
  "load s n = (case bsOf s n of None \<Rightarrow> 0 | Some bs \<Rightarrow> bs_inflight bs)"

definition limit :: "State \<Rightarrow> string \<Rightarrow> int" where
  "limit s n = (case bsOf s n of None \<Rightarrow> 0 | Some bs \<Rightarrow> b_MaxInflight (bs_backend bs))"

text \<open>Priority first, then the load of the route's backend, compared lexicographically.\<close>

definition routeKey :: "State \<Rightarrow> Route \<Rightarrow> int \<times> int" where
  "routeKey s r = (r_Priority r, load s (routeBackend r))"

lemma selectLoop_first_min:
  assumes "\<forall>r\<in>set routes. bsOf s (routeBackend r) \<noteq> None"
  shows "selectLoop s attempted routes (map_option (\<lambda>b. (b, load s (routeBackend b))) best) =
    Some (first_min (routeKey s) (filter (eligible s attempted) routes) best)"
  using assms
proof (induction routes arbitrary: best)
  case Nil
  then show ?case by (cases best) auto
next
  case (Cons r rs)
  then obtain bs where bs: "bsOf s (routeBackend r) = Some bs" by auto
  from Cons.prems have rs: "\<forall>r\<in>set rs. bsOf s (routeBackend r) \<noteq> None" by simp
  note IH = Cons.IH [OF rs]
  show ?case
  proof (cases "eligible s attempted r")
    case False
    with bs have "selectLoop s attempted (r # rs) (map_option (\<lambda>b. (b, load s (routeBackend b))) best) =
        selectLoop s attempted rs (map_option (\<lambda>b. (b, load s (routeBackend b))) best)"
      by (auto simp: eligible_def not_less)
    with False IH show ?thesis by simp
  next
    case True
    with bs have "r \<notin> attempted" "bs_checked bs" "bs_healthy bs"
      "\<not> b_MaxInflight (bs_backend bs) \<le> bs_inflight bs" "load s (routeBackend r) = bs_inflight bs"
      by (auto simp: eligible_def load_def)
    with True bs IH [of "Some r"] IH [of best] show ?thesis
      by (cases best) (auto simp: routeKey_def less_prod_def)
  qed
qed

lemma selectLocked_first_min:
  assumes "wf_state s" and "st_aliases s n = Some a"
  shows "selectLocked s a attempted =
    Some (first_min (routeKey s) (filter (eligible s attempted) (as_routes a)) None)"
proof -
  have "\<forall>r\<in>set (as_routes a). bsOf s (routeBackend r) \<noteq> None"
    using wf_route_registered [OF assms] by fastforce
  from selectLoop_first_min [OF this, of attempted None] show ?thesis
    by (simp add: selectLocked_def)
qed

lemma selectLocked_Some:
  assumes "wf_state s" and "st_aliases s n = Some a" and "selectLocked s a attempted = Some (Some r)"
  shows "r \<in> set (as_routes a)" and "eligible s attempted r"
  using assms selectLocked_first_min [OF assms(1,2), of attempted]
  by (auto dest: first_min_in_set)


subsection \<open>Effect of the operations, by backend name\<close>

lemma eligibleD:
  assumes "eligible s attempted r"
  obtains bs where "bsOf s (routeBackend r) = Some bs" and "r \<notin> attempted"
    and "bs_checked bs" and "bs_healthy bs" and "bs_inflight bs < b_MaxInflight (bs_backend bs)"
  using assms by (auto simp: eligible_def split: option.splits)

lemma bsOf_SomeE:
  assumes "bsOf s n = Some bs"
  obtains p where "st_backends s n = Some p" and "bs = st_cells s ! p"
  using assms by (auto simp: bsOf_def)

lemma capacity_ok_bsOf:
  "wf_state s \<Longrightarrow> capacity_ok s \<Longrightarrow> bsOf s n = Some bs \<Longrightarrow>
     0 \<le> bs_inflight bs \<and> bs_inflight bs \<le> max 0 (b_MaxInflight (bs_backend bs))"
  by (simp add: bsOf_Some_in_cells capacity_ok_def)

text \<open>Taking one slot of a backend, and giving one back.\<close>

abbreviation addInflight :: "int \<Rightarrow> backendState \<Rightarrow> backendState" where
  "addInflight d bs \<equiv> bs\<lparr>bs_inflight := bs_inflight bs + d\<rparr>"

lemma Reserve_cases:
  assumes "wf_state s"
  obtains (unknown) "st_aliases s a = None" "Reserve s a att = Some (Inl ErrUnknownAlias, s)"
  | (none) al where "st_aliases s a = Some al" "filter (eligible s att) (as_routes al) = []"
      "Reserve s a att = Some (Inl ErrNoRoute, s)"
  | (granted) al r bs s' where "st_aliases s a = Some al"
      "first_min (routeKey s) (filter (eligible s att) (as_routes al)) None = Some r"
      "bsOf s (routeBackend r) = Some bs" "same_shape s s'"
      "bsOf s' = (bsOf s)(routeBackend r \<mapsto> addInflight 1 bs)"
      "st_metrics s' = map_option (\<lambda>m. m @ SetInflight (routeBackend r) (bs_inflight bs + 1)) (st_metrics s)"
      "capacity_ok s \<longrightarrow> capacity_ok s'"
      "Reserve s a att = Some (Inr r, s')"
proof (cases "st_aliases s a")
  case None
  then show ?thesis by (intro unknown) (auto simp: Reserve_def)
next
  case (Some al)
  note sel = selectLocked_first_min [OF assms Some, of att]
  show ?thesis
  proof (cases "first_min (routeKey s) (filter (eligible s att) (as_routes al)) None")
    case None
    with Some sel show ?thesis by (intro none) (auto simp: Reserve_def first_min_None_iff)
  next
    case (Some r)
    then have "eligible s att r" by (auto dest: first_min_in_set)
    then obtain bs where bs: "bsOf s (routeBackend r) = Some bs"
        "bs_inflight bs < b_MaxInflight (bs_backend bs)"
      by (rule eligibleD) auto
    from bs(1) obtain p where p: "st_backends s (routeBackend r) = Some p" "bs = st_cells s ! p"
      by (rule bsOf_SomeE)
    let ?s' = "emit (SetInflight (routeBackend r) (bs_inflight bs + 1)) (putCell p (addInflight 1 bs) s)"
    have "same_shape s ?s'"
      using p same_shape_trans [OF same_shape_putCell same_shape_emit] by simp
    moreover have "bsOf ?s' = (bsOf s)(routeBackend r \<mapsto> addInflight 1 bs)"
      using bsOf_putCell [OF assms p(1)] by simp
    moreover have "capacity_ok s \<longrightarrow> capacity_ok ?s'"
      using capacity_ok_bsOf [OF assms _ bs(1)] bs(2) by (auto intro!: capacity_ok_putCell)
    moreover have "Reserve s a att = Some (Inr r, ?s')"
      using \<open>st_aliases s a = Some al\<close> sel Some p bsOf_Some_name [OF assms bs(1)]
      by (simp add: Reserve_def Let_def)
    ultimately show ?thesis
      using \<open>st_aliases s a = Some al\<close> Some bs(1)
      by (intro granted [of al r bs ?s']) auto
  qed
qed


lemma Release_locked_cases:
  assumes "wf_state s"
  obtains (absent) "route = None \<or> (\<exists>r. route = Some r \<and> bsOf s (routeBackend r) = None)"
      "Release_locked s route = (s, [])"
  | (idle) r bs where "route = Some r" "bsOf s (routeBackend r) = Some bs" "bs_inflight bs \<le> 0"
      "Release_locked s route = (s, SetInflight (routeBackend r) (bs_inflight bs))"
  | (freed) r bs s' where "route = Some r" "bsOf s (routeBackend r) = Some bs" "0 < bs_inflight bs"
      "same_shape s s'" "bsOf s' = (bsOf s)(routeBackend r \<mapsto> addInflight (- 1) bs)"
      "st_metrics s' = st_metrics s" "capacity_ok s \<longrightarrow> capacity_ok s'"
      "Release_locked s route = (s', SetInflight (routeBackend r) (bs_inflight bs - 1))"
proof (cases "\<exists>r bs. route = Some r \<and> bsOf s (routeBackend r) = Some bs")
  case False
  then have "route = None \<or> (\<exists>r. route = Some r \<and> bsOf s (routeBackend r) = None)"
    by (cases route) auto
  then show ?thesis by (intro absent) (auto simp: Release_locked_def bsOf_def)
next
  case True
  then obtain r bs where r: "route = Some r" and bs: "bsOf s (routeBackend r) = Some bs" by blast
  from bs obtain p where p: "st_backends s (routeBackend r) = Some p" "bs = st_cells s ! p"
    by (rule bsOf_SomeE)
  show ?thesis
  proof (cases "0 < bs_inflight bs")
    case False
    with r bs p show ?thesis by (intro idle) (auto simp: Release_locked_def Let_def)
  next
    case True
    let ?s' = "putCell p (addInflight (- 1) bs) s"
    have "same_shape s ?s'" using p by (intro same_shape_putCell) simp
    moreover have "bsOf ?s' = (bsOf s)(routeBackend r \<mapsto> addInflight (- 1) bs)"
      using bsOf_putCell [OF assms p(1)] by simp
    moreover have "capacity_ok s \<longrightarrow> capacity_ok ?s'"
      using capacity_ok_bsOf [OF assms _ bs] True by (auto intro!: capacity_ok_putCell)
    moreover have "Release_locked s route = (?s', SetInflight (routeBackend r) (bs_inflight bs - 1))"
      using r p True wf_state_pointer(1) [OF assms p(1)] by (simp add: Release_locked_def Let_def)
    ultimately show ?thesis using r bs True by (intro freed) auto
  qed
qed

text \<open>
  The critical section of \<open>SwapReservation\<close> frees the current slot, selects on the state
  with the slot freed, and either takes the selected slot or puts the current one back.
\<close>

lemma putCell_putCell_id:
  "p < length (st_cells s) \<Longrightarrow> bs = st_cells s ! p \<Longrightarrow> putCell p bs (putCell p bs' s) = s"
  by (simp add: putCell_def)

lemma SwapReservation_locked_cases:
  assumes wf: "wf_state s"
  obtains (refused) e where "SwapReservation_locked s a current att = Some (Inl e, s, [])"
      "current = None \<or> st_aliases s a = None \<or>
         (\<exists>cur. current = Some cur \<and> load s (routeBackend cur) \<le> 0)"
  | (kept) cur cbs al freed where "current = Some cur" "st_aliases s a = Some al"
      "bsOf s (routeBackend cur) = Some cbs" "0 < bs_inflight cbs"
      "bsOf freed = (bsOf s)(routeBackend cur \<mapsto> addInflight (- 1) cbs)"
      "filter (eligible freed att) (as_routes al) = []"
      "SwapReservation_locked s a current att = Some (Inl ErrNoRoute, s, [])"
  | (moved) cur cbs al freed r sbs s' where "current = Some cur" "st_aliases s a = Some al"
      "bsOf s (routeBackend cur) = Some cbs" "0 < bs_inflight cbs"
      "bsOf freed = (bsOf s)(routeBackend cur \<mapsto> addInflight (- 1) cbs)"
      "first_min (routeKey freed) (filter (eligible freed att) (as_routes al)) None = Some r"
      "bsOf freed (routeBackend r) = Some sbs" "same_shape s s'"
      "bsOf s' = (bsOf freed)(routeBackend r \<mapsto> addInflight 1 sbs)"
      "st_metrics s' = st_metrics s" "capacity_ok s \<longrightarrow> capacity_ok s'"
      "SwapReservation_locked s a current att = Some (Inr r, s',
         (if routeBackend cur \<noteq> routeBackend r then SetInflight (routeBackend cur) (load s' (routeBackend cur)) else [])
         @ SetInflight (routeBackend r) (load s' (routeBackend r)))"
proof (cases "\<exists>cur cbs al. current = Some cur \<and> st_aliases s a = Some al \<and>
    bsOf s (routeBackend cur) = Some cbs \<and> 0 < bs_inflight cbs")
  case False
  then have "current = None \<or> st_aliases s a = None \<or>
      (\<exists>cur. current = Some cur \<and> load s (routeBackend cur) \<le> 0)"
    by (cases current; cases "st_aliases s a"; auto simp: load_def not_less split: option.splits)
  moreover have "\<exists>e. SwapReservation_locked s a current att = Some (Inl e, s, [])"
    using False
    by (auto simp: SwapReservation_locked_def bsOf_def not_less split: option.splits)
  ultimately show ?thesis using refused by blast
next
  case True
  then obtain cur cbs al where cur: "current = Some cur" "st_aliases s a = Some al"
      "bsOf s (routeBackend cur) = Some cbs" "0 < bs_inflight cbs" by blast
  from cur(3) obtain cp where cp: "st_backends s (routeBackend cur) = Some cp" "cbs = st_cells s ! cp"
    by (rule bsOf_SomeE)
  note cpl = wf_state_pointer(1) [OF wf cp(1)]
  define freed where "freed = putCell cp (addInflight (- 1) cbs) s"
  have shape: "same_shape s freed" using cp unfolding freed_def by (intro same_shape_putCell) simp
  from same_shape_wf [OF shape wf] have wff: "wf_state freed" .
  have alf: "st_aliases freed a = Some al" using cur by (simp add: freed_def)
  have bf: "bsOf freed = (bsOf s)(routeBackend cur \<mapsto> addInflight (- 1) cbs)"
    using bsOf_putCell [OF wf cp(1)] by (simp add: freed_def)
  have capf: "capacity_ok s \<longrightarrow> capacity_ok freed"
    using capacity_ok_bsOf [OF wf _ cur(3)] cur(4) by (auto intro!: capacity_ok_putCell simp: freed_def)
  note sel = selectLocked_first_min [OF wff alf, of att]
  show ?thesis
  proof (cases "first_min (routeKey freed) (filter (eligible freed att) (as_routes al)) None")
    case None
    have "putCell cp ((st_cells freed ! cp)\<lparr>bs_inflight := bs_inflight (st_cells freed ! cp) + 1\<rparr>) freed = s"
      using cpl cp by (simp add: freed_def putCell_putCell_id)
    with None sel cur cp have "SwapReservation_locked s a current att = Some (Inl ErrNoRoute, s, [])"
      by (simp add: SwapReservation_locked_def Let_def freed_def)
    with None cur bf show ?thesis by (intro kept) (auto simp: first_min_None_iff)
  next
    case (Some r)
    then have "eligible freed att r" by (auto dest: first_min_in_set)
    then obtain sbs where sbs: "bsOf freed (routeBackend r) = Some sbs"
        "bs_inflight sbs < b_MaxInflight (bs_backend sbs)"
      by (rule eligibleD) auto
    from sbs(1) obtain sp where sp: "st_backends freed (routeBackend r) = Some sp" "sbs = st_cells freed ! sp"
      by (rule bsOf_SomeE)
    define taken where "taken = putCell sp (addInflight 1 sbs) freed"
    have shape': "same_shape s taken"
      using sp same_shape_trans [OF shape same_shape_putCell] unfolding taken_def by simp
    have bt: "bsOf taken = (bsOf freed)(routeBackend r \<mapsto> addInflight 1 sbs)"
      using bsOf_putCell [OF wff sp(1)] by (simp add: taken_def)
    have capt: "capacity_ok s \<longrightarrow> capacity_ok taken"
      using capf capacity_ok_bsOf [OF wff _ sbs(1)] sbs(2)
      by (auto intro!: capacity_ok_putCell simp: taken_def)
    note wft = same_shape_wf [OF shape' wf]
    have ptrs: "st_backends taken (routeBackend cur) = Some cp" "st_backends taken (routeBackend r) = Some sp"
      using cp sp by (simp_all add: taken_def freed_def)
    have names: "b_Name (bs_backend (st_cells taken ! cp)) = routeBackend cur"
        "b_Name (bs_backend (st_cells taken ! sp)) = routeBackend r"
      using wf_state_pointer(2) [OF wft] ptrs by auto
    have loads: "bs_inflight (st_cells taken ! cp) = load taken (routeBackend cur)"
        "bs_inflight (st_cells taken ! sp) = load taken (routeBackend r)"
      using ptrs by (simp_all add: load_def bsOf_def)
    have fr: "putCell cp ((st_cells s ! cp)\<lparr>bs_inflight := bs_inflight (st_cells s ! cp) - 1\<rparr>) s = freed"
      and tk: "putCell sp ((st_cells freed ! sp)\<lparr>bs_inflight := bs_inflight (st_cells freed ! sp) + 1\<rparr>) freed = taken"
      using cp sp by (simp_all add: freed_def taken_def)
    have "SwapReservation_locked s a current att = Some (Inr r, taken,
        (if routeBackend cur \<noteq> routeBackend r then SetInflight (routeBackend cur) (load taken (routeBackend cur)) else [])
         @ SetInflight (routeBackend r) (load taken (routeBackend r)))"
      using cur cp sel Some sp names loads fr tk by (simp add: SwapReservation_locked_def Let_def)
    then show ?thesis
      using cur bf Some sbs(1) shape' bt capt
      by (intro moved [of cur al cbs freed r sbs taken]) (auto simp: taken_def freed_def)
  qed
qed

lemma SetHealth_locked_cases:
  assumes "wf_state s"
  obtains (absent) "bsOf s n = None" "SetHealth_locked s n h = (s, [])"
  | (recorded) bs s' where "bsOf s n = Some bs" "same_shape s s'"
      "bsOf s' = (bsOf s)(n \<mapsto> bs\<lparr>bs_checked := True, bs_healthy := h\<rparr>)"
      "st_metrics s' = st_metrics s" "capacity_ok s \<longrightarrow> capacity_ok s'"
      "SetHealth_locked s n h = (s', SetHealthy n h)"
proof (cases "bsOf s n")
  case None
  then show ?thesis by (intro absent) (auto simp: SetHealth_locked_def bsOf_def)
next
  case (Some bs)
  then obtain p where p: "st_backends s n = Some p" "bs = st_cells s ! p" by (rule bsOf_SomeE)
  let ?s' = "putCell p (bs\<lparr>bs_checked := True, bs_healthy := h\<rparr>) s"
  have "same_shape s ?s'" using p by (intro same_shape_putCell) simp
  moreover have "capacity_ok s \<longrightarrow> capacity_ok ?s'"
    using capacity_ok_bsOf [OF assms _ Some] by (auto intro!: capacity_ok_putCell)
  ultimately show ?thesis
    using Some p bsOf_putCell [OF assms p(1)]
    by (intro recorded [of bs ?s']) (auto simp: SetHealth_locked_def)
qed


subsection \<open>The routing state provides reservations\<close>

definition usable :: "State \<Rightarrow> string \<Rightarrow> bool" where
  "usable s n = (case bsOf s n of None \<Rightarrow> False | Some bs \<Rightarrow> bs_checked bs \<and> bs_healthy bs)"

lemma load_upd:
  "bsOf s' = (bsOf s)(n \<mapsto> bs) \<Longrightarrow> load s' = (load s)(n := bs_inflight bs)"
  by (auto simp: load_def fun_eq_iff)

lemma limit_same_shape: "same_shape s s' \<Longrightarrow> wf_state s \<Longrightarrow> limit s' = limit s"
proof
  fix n
  assume "same_shape s s'" and "wf_state s"
  from same_shape_bsOf_backend [OF this, of n] show "limit s' n = limit s n"
    by (cases "bsOf s n"; cases "bsOf s' n") (auto simp: limit_def)
qed

lemma load_eq: "bsOf s n = Some bs \<Longrightarrow> load s n = bs_inflight bs"
  by (simp add: load_def)

lemma eligible_below_limit:
  "eligible s att r \<Longrightarrow> r \<notin> att \<and> usable s (routeBackend r) \<and> load s (routeBackend r) < limit s (routeBackend r)"
  by (auto simp: eligible_def usable_def load_def limit_def split: option.splits)

lemma Reserve_granted:
  assumes "wf_state s" and "Reserve s a att = Some (Inr r, s')"
  shows "same_shape s s'" and "eligible s att r"
    and "load s' = (load s)(routeBackend r := load s (routeBackend r) + 1)"
    and "\<exists>al. st_aliases s a = Some al \<and> r \<in> set (as_routes al)"
  using Reserve_cases [OF assms(1), of a att] assms(2)
  by (cases; auto simp: load_upd load_eq dest: first_min_in_set)+

lemma Swap_moved:
  assumes "wf_state s" and "SwapReservation_locked s a (Some c) att = Some (Inr r, s', cs)"
  obtains freed where "same_shape s s'" and "eligible freed att r"
    and "load freed = (load s)(routeBackend c := load s (routeBackend c) - 1)"
    and "load s' = (load freed)(routeBackend r := load freed (routeBackend r) + 1)"
    and "limit freed = limit s"
    and "\<exists>al. st_aliases s a = Some al \<and> r \<in> set (as_routes al)"
  using assms(1)
proof (cases rule: SwapReservation_locked_cases [of s a "Some c" att])
  case (moved cur cbs al freed r' sbs s'')
  from moved(1,12) assms(2) have eqs: "cur = c" "r' = r" "s'' = s'" by auto
  show ?thesis
  proof (rule that [of freed])
    show "load freed = (load s)(routeBackend c := load s (routeBackend c) - 1)"
      using load_upd [OF moved(5)] load_eq [OF moved(3)] eqs by simp
    show "load s' = (load freed)(routeBackend r := load freed (routeBackend r) + 1)"
      using load_upd [OF moved(9)] load_eq [OF moved(7)] eqs by simp
    show "limit freed = limit s"
      using moved(3,5) by (auto simp: limit_def fun_eq_iff)
    show "eligible freed att r" "\<exists>al. st_aliases s a = Some al \<and> r \<in> set (as_routes al)"
      using first_min_in_set [OF moved(6)] moved(2) eqs by auto
    show "same_shape s s'" using moved(8) eqs by simp
  qed
qed (use assms(2) in auto)

interpretation rs: health_aware_provider wf_state load limit routeBackend Reserve
  SwapReservation_locked Release_locked SetHealth_locked "\<lambda>s n. bsOf s n \<noteq> None" usable
proof (unfold_locales, goal_cases)
  case (1 s a att)
  then show ?case by (rule Reserve_cases [of s a att]) auto
next
  case (2 s a att e s')
  then show ?case by (auto elim: Reserve_cases [of s a att])
next
  case (3 s a att r s')
  from Reserve_granted [OF this] same_shape_wf limit_same_shape eligible_below_limit 3(1)
  show ?case by blast
next
  case (4 s a cur att)
  then show ?case by (rule SwapReservation_locked_cases [of s a cur att]) auto
next
  case (5 s a cur att e s' cs)
  then show ?case by (auto elim: SwapReservation_locked_cases [of s a cur att])
next
  case (6 s a c att r s' cs)
  then obtain freed where f: "same_shape s s'" "eligible freed att r"
      "load freed = (load s)(routeBackend c := load s (routeBackend c) - 1)"
      "load s' = (load freed)(routeBackend r := load freed (routeBackend r) + 1)"
      "limit freed = limit s" by (rule Swap_moved)
  from f(1) 6(1) have "wf_state s'" "limit s' = limit s"
    by (auto intro: same_shape_wf limit_same_shape)
  with eligible_below_limit [OF f(2)] f(3-5) show ?case by (simp add: Let_def)
next
  case (7 s r s' cs)
  from 7(1) show ?case
  proof (cases rule: Release_locked_cases [of s "Some r"])
    case (freed r' bs s'')
    with 7 show ?thesis
      by (auto simp: load_upd load_eq intro: same_shape_wf limit_same_shape)
  qed (use 7 in \<open>auto simp: load_def\<close>)
next
  case (8 s b h s' cs)
  from 8(1) show ?case
  proof (cases rule: SetHealth_locked_cases [of s b h])
    case (recorded bs s'')
    with 8 show ?thesis
      by (auto simp: load_upd load_eq [symmetric] intro: same_shape_wf limit_same_shape)
  qed (use 8 in auto)
next
  case (9 s b h s' cs b')
  from 9(1) show ?case
    by (cases rule: SetHealth_locked_cases [of s b h]) (use 9 in \<open>auto simp: usable_def\<close>)
next
  case (10 s b)
  then show ?case by (auto simp: usable_def split: option.splits)
next
  case (11 s a att r s')
  from Reserve_granted(2) [OF this] show ?case by (simp add: eligible_below_limit)
qed


subsection \<open>Construction yields a well-formed, idle state\<close>

lemma alias_ok_bsOf: "bsOf s' = bsOf s \<Longrightarrow> alias_ok s' a = alias_ok s a"
  by (simp add: alias_ok_def)

lemma addBackend_wf:
  assumes wf: "wf_state s" and none: "st_aliasOrder s = []"
  shows "wf_state (addBackend b s)"
proof -
  have "st_aliases s n = None" for n using assms by (auto simp: wf_state_def)
  moreover have "q < length (st_cells (addBackend b s)) \<and> b_Name (bs_backend (st_cells (addBackend b s) ! q)) = n"
    if "st_backends (addBackend b s) n = Some q" for n q
  proof (cases "n = b_Name b")
    case True
    with that show ?thesis by (auto simp: addBackend_def nth_append)
  next
    case False
    with that have "st_backends s n = Some q" by (simp add: addBackend_def)
    from wf_state_pointer [OF wf this] show ?thesis by (simp add: addBackend_def nth_append)
  qed
  moreover have "st_order (addBackend b s) = [0..<length (st_cells (addBackend b s))]"
    using wf by (simp add: wf_state_def addBackend_def)
  ultimately show ?thesis
    using none unfolding wf_state_def by (simp add: addBackend_def)
qed

lemma addBackend_simps [simp]:
  "st_aliases (addBackend b s) = st_aliases s" "st_aliasOrder (addBackend b s) = st_aliasOrder s"
  "dom (st_backends (addBackend b s)) = insert (b_Name b) (dom (st_backends s))"
  "st_cells (addBackend b s) =
     st_cells s @ [\<lparr>bs_backend = b, bs_checked = False, bs_healthy = False, bs_inflight = 0\<rparr>]"
  by (auto simp: addBackend_def)

lemma newState_backends_wf:
  "wf_state s \<Longrightarrow> st_aliasOrder s = [] \<Longrightarrow> wf_state (newState_backends bs s)"
  by (induction bs arbitrary: s) (simp_all add: addBackend_wf)

lemma newState_backends_frame:
  "st_aliases (newState_backends bs s) = st_aliases s"
  "st_aliasOrder (newState_backends bs s) = st_aliasOrder s"
  by (induction bs arbitrary: s) simp_all

lemma newState_backends_cells:
  "st_cells (newState_backends bs s) = st_cells s @
     map (\<lambda>b. \<lparr>bs_backend = b, bs_checked = False, bs_healthy = False, bs_inflight = 0\<rparr>) bs"
  by (induction bs arbitrary: s) simp_all

lemma newState_backends_dom:
  "dom (st_backends (newState_backends bs s)) = dom (st_backends s) \<union> b_Name ` set bs"
  by (induction bs arbitrary: s) simp_all

definition route_ok :: "State \<Rightarrow> string \<Rightarrow> Route \<Rightarrow> bool" where
  "route_ok s al r \<longleftrightarrow> r_Alias r = al \<and> map_option bs_backend (bsOf s (routeBackend r)) = Some (r_Backend r)"

lemma mkRoute_ok: "wf_state s \<Longrightarrow> bsOf s (rc_Backend rc) = Some bs \<Longrightarrow> route_ok s al (mkRoute al i rc bs)"
  using bsOf_Some_name by (fastforce simp: route_ok_def mkRoute_def)

lemma newState_routes_ConsE:
  assumes "newState_routes s al i (rc # rcs) = Inr rs"
  obtains bs rs' where "bsOf s (rc_Backend rc) = Some bs" and "newState_routes s al (Suc i) rcs = Inr rs'"
    and "rs = mkRoute al i rc bs # rs'"
  using assms by (auto split: option.splits sum.splits)

lemma newState_routes_orders:
  "newState_routes s al i rcs = Inr rs \<Longrightarrow> map r_Order rs = [i..<i + length rcs]"
proof (induction rcs arbitrary: i rs)
  case (Cons rc rcs)
  from Cons.prems show ?case
    by (rule newState_routes_ConsE) (simp add: Cons.IH mkRoute_def upt_rec [of i] del: upt_Suc)
qed simp

lemma newState_routes_ok:
  "wf_state s \<Longrightarrow> newState_routes s al i rcs = Inr rs \<Longrightarrow> r \<in> set rs \<Longrightarrow> route_ok s al r"
proof (induction rcs arbitrary: i rs)
  case (Cons rc rcs)
  from Cons.prems(2) show ?case
    by (rule newState_routes_ConsE) (use Cons mkRoute_ok in \<open>force\<close>)
qed simp

lemma newState_routes_Inl_iff:
  "(\<exists>e. newState_routes s al i rcs = Inl e) \<longleftrightarrow> (\<exists>rc\<in>set rcs. bsOf s (rc_Backend rc) = None)"
proof (induction rcs arbitrary: i)
  case (Cons rc rcs)
  from Cons.IH [of "Suc i"] show ?case
    by (cases "bsOf s (rc_Backend rc)"; cases "newState_routes s al (Suc i) rcs") auto
qed simp

lemma addAlias_bsOf [simp]: "bsOf (addAlias n rs s) = bsOf s"
  by (simp add: addAlias_def Let_def bsOf_def fun_eq_iff)

lemma addAlias_simps [simp]:
  "st_cells (addAlias n rs s) = st_cells s" "st_backends (addAlias n rs s) = st_backends s"
  "st_order (addAlias n rs s) = st_order s"
  "st_aliasOrder (addAlias n rs s) = st_aliasOrder s @ [\<lparr>as_name = n, as_routes = rs\<rparr>]"
  "st_aliases (addAlias n rs s) = (st_aliases s)(n \<mapsto> \<lparr>as_name = n, as_routes = rs\<rparr>)"
  by (simp_all add: addAlias_def Let_def)

lemma addAlias_wf:
  assumes wf: "wf_state s" and rs: "newState_routes s n 0 rcs = Inr rs"
  shows "wf_state (addAlias n rs s)"
proof -
  have "length rs = length rcs"
    using arg_cong [where f = length, OF newState_routes_orders [OF rs]] by simp
  then have "alias_ok s \<lparr>as_name = n, as_routes = rs\<rparr>"
    using newState_routes_orders [OF rs] newState_routes_ok [OF wf rs]
    by (simp add: alias_ok_def route_ok_def)
  with wf show ?thesis by (auto simp: wf_state_def alias_ok_bsOf [OF addAlias_bsOf])
qed

lemma newState_aliases_wf:
  "wf_state s \<Longrightarrow> newState_aliases acs s = Inr s' \<Longrightarrow> wf_state s'"
  by (induction acs arbitrary: s) (auto split: sum.splits dest: addAlias_wf)

lemma newState_aliases_frame:
  assumes "newState_aliases acs s = Inr s'"
  shows "st_cells s' = st_cells s \<and> st_backends s' = st_backends s \<and>
    AliasNames s' = AliasNames s @ map ac_Name acs"
  using assms
  by (induction acs arbitrary: s) (auto simp: AliasNames_def split: sum.splits)

lemma newState_aliases_Inl_iff:
  "(\<exists>e. newState_aliases acs s = Inl e) \<longleftrightarrow>
     (\<exists>ac\<in>set acs. \<exists>rc\<in>set (ac_Routes ac). bsOf s (rc_Backend rc) = None)"
proof (induction acs arbitrary: s)
  case (Cons ac acs)
  note inl = newState_routes_Inl_iff [of s "ac_Name ac" 0 "ac_Routes ac"]
  show ?case
  proof (cases "newState_routes s (ac_Name ac) 0 (ac_Routes ac)")
    case (Inl e)
    with inl show ?thesis by auto
  next
    case (Inr rs)
    with inl have "\<forall>rc\<in>set (ac_Routes ac). bsOf s (rc_Backend rc) \<noteq> None" by auto
    with Inr show ?thesis by (auto simp: Cons.IH)
  qed
qed simp

text \<open>The configuration a route and an alias of the state were built from.\<close>

definition routeOf :: "Route \<Rightarrow> RouteConfig" where
  "routeOf r = \<lparr>rc_Backend = routeBackend r, rc_UpstreamModel = r_UpstreamModel r, rc_Priority = r_Priority r\<rparr>"

definition aliasOf :: "aliasState \<Rightarrow> AliasConfig" where
  "aliasOf al = \<lparr>ac_Name = as_name al, ac_Routes = map routeOf (as_routes al)\<rparr>"

lemma newState_routes_config:
  "wf_state s \<Longrightarrow> newState_routes s al i rcs = Inr rs \<Longrightarrow> map routeOf rs = rcs"
proof (induction rcs arbitrary: i rs)
  case (Cons rc rcs)
  from Cons.prems(2) show ?case
    by (rule newState_routes_ConsE) (use Cons bsOf_Some_name in \<open>auto simp: mkRoute_def routeOf_def\<close>)
qed simp

lemma newState_aliases_config:
  assumes "wf_state s" and "newState_aliases acs s = Inr s'"
  shows "map aliasOf (st_aliasOrder s') = map aliasOf (st_aliasOrder s) @ acs"
  using assms
proof (induction acs arbitrary: s)
  case (Cons ac acs)
  from Cons.prems(2) obtain rs where rs: "newState_routes s (ac_Name ac) 0 (ac_Routes ac) = Inr rs"
    and rest: "newState_aliases acs (addAlias (ac_Name ac) rs s) = Inr s'" by (auto split: sum.splits)
  from newState_routes_config [OF Cons.prems(1) rs] have "aliasOf \<lparr>as_name = ac_Name ac, as_routes = rs\<rparr> = ac"
    by (simp add: aliasOf_def)
  with Cons.IH [OF addAlias_wf [OF Cons.prems(1) rs] rest] show ?case by simp
qed simp

lemma newState_aliases_lookup:
  assumes "newState_aliases acs s = Inr s'"
  shows "n \<notin> ac_Name ` set acs \<longrightarrow> st_aliases s' n = st_aliases s n"
    and "distinct (map ac_Name acs) \<Longrightarrow> \<forall>al\<in>set (st_aliasOrder s') - set (st_aliasOrder s). st_aliases s' (as_name al) = Some al"
proof -
  have frame: "n \<notin> ac_Name ` set acs \<longrightarrow> st_aliases s' n = st_aliases s n" if "newState_aliases acs s = Inr s'" for acs s n
    using that by (induction acs arbitrary: s) (auto split: sum.splits)
  from frame [OF assms] show "n \<notin> ac_Name ` set acs \<longrightarrow> st_aliases s' n = st_aliases s n" .
  show "\<forall>al\<in>set (st_aliasOrder s') - set (st_aliasOrder s). st_aliases s' (as_name al) = Some al"
    if "distinct (map ac_Name acs)"
    using assms that
  proof (induction acs arbitrary: s)
    case (Cons ac acs)
    from Cons.prems(1) obtain rs where rest: "newState_aliases acs (addAlias (ac_Name ac) rs s) = Inr s'"
      by (auto split: sum.splits)
    with Cons.prems(2) have "st_aliases s' (ac_Name ac) = Some \<lparr>as_name = ac_Name ac, as_routes = rs\<rparr>"
      using frame [OF rest, of "ac_Name ac"] by simp
    moreover from Cons.IH [OF rest] Cons.prems(2)
    have "\<forall>al\<in>set (st_aliasOrder s') - set (st_aliasOrder (addAlias (ac_Name ac) rs s)). st_aliases s' (as_name al) = Some al" by simp
    ultimately show ?case by auto
  qed simp
qed

lemma emptyState_wf: "wf_state (emptyState m)"
  by (simp add: wf_state_def emptyState_def)


definition initState :: "Backend list \<Rightarrow> Metrics option \<Rightarrow> State" where
  "initState bs m = newState_backends bs (emptyState m)"

lemma initState_wf: "wf_state (initState bs m)"
  unfolding initState_def by (rule newState_backends_wf [OF emptyState_wf]) (simp add: emptyState_def)

lemma bsOf_initState_None: "bsOf (initState bs m) n = None \<longleftrightarrow> n \<notin> b_Name ` set bs"
proof -
  have "dom (st_backends (initState bs m)) = b_Name ` set bs"
    by (simp add: initState_def newState_backends_dom emptyState_def)
  then have "n \<in> dom (st_backends (initState bs m)) \<longleftrightarrow> n \<in> b_Name ` set bs" by simp
  then show ?thesis by (auto simp: bsOf_def)
qed

lemma NewState_Inr:
  assumes "NewState cfg bs m = Inr s"
  shows "wf_state s" and "AliasNames s = map ac_Name (cfg_Aliases cfg)"
    and "st_cells s = map (\<lambda>b. \<lparr>bs_backend = b, bs_checked = False, bs_healthy = False, bs_inflight = 0\<rparr>) bs"
proof -
  from assms have eq: "newState_aliases (cfg_Aliases cfg) (initState bs m) = Inr s"
    by (simp add: NewState_def initState_def)
  from newState_aliases_wf [OF initState_wf eq] show "wf_state s" .
  from newState_aliases_frame [OF eq] show "AliasNames s = map ac_Name (cfg_Aliases cfg)"
    and "st_cells s = map (\<lambda>b. \<lparr>bs_backend = b, bs_checked = False, bs_healthy = False, bs_inflight = 0\<rparr>) bs"
    by (simp_all add: initState_def newState_backends_cells AliasNames_def newState_backends_frame emptyState_def)
qed

lemma NewState_config:
  assumes "NewState cfg bs m = Inr s"
  shows "map aliasOf (st_aliasOrder s) = cfg_Aliases cfg"
    and "distinct (map ac_Name (cfg_Aliases cfg)) \<Longrightarrow> al \<in> set (st_aliasOrder s) \<Longrightarrow> st_aliases s (as_name al) = Some al"
proof -
  from assms have eq: "newState_aliases (cfg_Aliases cfg) (initState bs m) = Inr s"
    by (simp add: NewState_def initState_def)
  have none: "st_aliasOrder (initState bs m) = []"
    by (simp add: initState_def newState_backends_frame emptyState_def)
  from newState_aliases_config [OF initState_wf eq] none show "map aliasOf (st_aliasOrder s) = cfg_Aliases cfg" by simp
  from newState_aliases_lookup(2) [OF eq] none
  show "distinct (map ac_Name (cfg_Aliases cfg)) \<Longrightarrow> al \<in> set (st_aliasOrder s) \<Longrightarrow> st_aliases s (as_name al) = Some al" by simp
qed

lemma NewState_Inl_iff:
  "(\<exists>e. NewState cfg bs m = Inl e) \<longleftrightarrow>
      (\<exists>ac\<in>set (cfg_Aliases cfg). \<exists>rc\<in>set (ac_Routes ac). rc_Backend rc \<notin> b_Name ` set bs)"
  using newState_aliases_Inl_iff [of "cfg_Aliases cfg" "initState bs m"]
  by (simp add: NewState_def bsOf_initState_None flip: initState_def)

lemma NewState_idle:
  assumes "NewState cfg bs m = Inr s"
  shows "capacity_ok s" and "map bs_backend (st_cells s) = bs" and "load s n = 0" and "\<not> usable s n"
proof -
  note new = NewState_Inr [OF assms]
  from new show "map bs_backend (st_cells s) = bs" "capacity_ok s" by (simp_all add: capacity_ok_def comp_def)
  have "\<forall>bs. bsOf s n = Some bs \<longrightarrow> bs_inflight bs = 0 \<and> \<not> bs_checked bs"
    using bsOf_Some_in_cells [OF new(1)] new(3) by fastforce
  then show "load s n = 0" "\<not> usable s n" by (auto simp: load_def usable_def split: option.splits)
qed

text \<open>
  C33: building the routing state fails exactly when some configured route names a backend
  that was not built. Otherwise the state is well formed and idle with nothing usable, and its
  aliases are the configured ones: in order, each with its routes in order, their backends,
  upstream models and priorities, and (the names being distinct) found under their names.
\<close>

theorem NewState_correct:
  "((\<exists>e. NewState cfg bs m = Inl e) \<longleftrightarrow>
      (\<exists>ac\<in>set (cfg_Aliases cfg). \<exists>rc\<in>set (ac_Routes ac). rc_Backend rc \<notin> b_Name ` set bs)) \<and>
   (\<forall>s. NewState cfg bs m = Inr s \<longrightarrow>
      wf_state s \<and> capacity_ok s \<and> map aliasOf (st_aliasOrder s) = cfg_Aliases cfg \<and>
      (distinct (map ac_Name (cfg_Aliases cfg)) \<longrightarrow> (\<forall>al\<in>set (st_aliasOrder s). st_aliases s (as_name al) = Some al)) \<and>
      map bs_backend (st_cells s) = bs \<and> (\<forall>n. load s n = 0 \<and> \<not> usable s n))"
  by (intro conjI allI impI ballI NewState_Inl_iff) (blast dest: NewState_Inr(1) NewState_config NewState_idle)+


subsection \<open>Selection, readiness and status as the caller sees them\<close>

lemma sorted_orders: "alias_ok s a \<Longrightarrow> sorted_wrt (\<lambda>r r'. r_Order r < r_Order r') (as_routes a)"
  using sorted_wrt_map [of "(<)" r_Order "as_routes a"] by (simp add: alias_ok_def)

definition fullKey :: "State \<Rightarrow> Route \<Rightarrow> int \<times> int \<times> nat" where
  "fullKey s r = (r_Priority r, load s (routeBackend r), r_Order r)"

lemma fullKey_inj:
  assumes "alias_ok s a" and "r \<in> set (as_routes a)" and "r' \<in> set (as_routes a)" and "r_Order r = r_Order r'"
  shows "r = r'"
proof -
  from assms(1) have "distinct (map r_Order (as_routes a))" by (simp add: alias_ok_def)
  with assms(2-4) show ?thesis by (simp add: distinct_map inj_on_def)
qed

lemma first_min_full_key:
  assumes "alias_ok s a" and "first_min (routeKey s) (filter P (as_routes a)) None = Some r"
    and "r' \<in> set (as_routes a)" and "P r'"
  shows "fullKey s r \<le> fullKey s r'"
proof -
  obtain ys zs where split: "filter P (as_routes a) = ys @ r # zs"
      "\<forall>y\<in>set ys. routeKey s r < routeKey s y" "\<forall>z\<in>set zs. routeKey s r \<le> routeKey s z"
    using first_min_split [OF assms(2)] by auto
  have "sorted_wrt (\<lambda>r r'. r_Order r < r_Order r') (filter P (as_routes a))"
    by (rule sorted_wrt_filter) (rule sorted_orders [OF assms(1)])
  then have "\<forall>z\<in>set zs. r_Order r < r_Order z" by (simp add: split(1) sorted_wrt_append)
  moreover have "r' \<in> set (ys @ r # zs)" using assms(3,4) by (simp flip: split(1))
  ultimately show ?thesis
    using split(2,3) by (auto simp: fullKey_def routeKey_def less_prod_def less_eq_prod_def)
qed

text \<open>
  C16: route selection. Over a well-formed state \<open>selectLocked\<close> never panics; it returns no
  route exactly when no route of the alias is eligible (not yet attempted, backend checked,
  healthy and below its limit), and it returns a route exactly when that route is eligible
  and least among the eligible ones by priority, then by load of its backend, then by
  configuration order.
\<close>

theorem selectLocked_optimal:
  assumes "wf_state s" and "st_aliases s n = Some a"
  shows "(selectLocked s a att = Some None \<longleftrightarrow> (\<forall>r\<in>set (as_routes a). \<not> eligible s att r)) \<and>
    (selectLocked s a att = Some (Some r) \<longleftrightarrow>
       r \<in> set (as_routes a) \<and> eligible s att r \<and>
       (\<forall>r'\<in>set (as_routes a). eligible s att r' \<longrightarrow>
          (r_Priority r, load s (routeBackend r), r_Order r) \<le>
          (r_Priority r', load s (routeBackend r'), r_Order r')))"
proof (intro conjI iffI)
  note sel = selectLocked_first_min [OF assms, of att]
  note ok = wf_alias_ok [OF assms, THEN conjunct1]
  note key = first_min_full_key [OF ok, unfolded fullKey_def]
  {
    assume "selectLocked s a att = Some None"
    then show "\<forall>r\<in>set (as_routes a). \<not> eligible s att r"
      by (simp add: sel first_min_None_iff filter_empty_conv)
  next
    assume "\<forall>r\<in>set (as_routes a). \<not> eligible s att r"
    then show "selectLocked s a att = Some None" by (simp add: sel first_min_None_iff filter_empty_conv)
  next
    assume "selectLocked s a att = Some (Some r)"
    then have min: "first_min (routeKey s) (filter (eligible s att) (as_routes a)) None = Some r"
      by (simp add: sel)
    with first_min_in_set [OF min] key [OF min]
    show "r \<in> set (as_routes a)" "eligible s att r" "\<forall>r'\<in>set (as_routes a). eligible s att r' \<longrightarrow>
        (r_Priority r, load s (routeBackend r), r_Order r) \<le> (r_Priority r', load s (routeBackend r'), r_Order r')"
      by auto
  next
    assume opt: "r \<in> set (as_routes a) \<and> eligible s att r \<and> (\<forall>r'\<in>set (as_routes a). eligible s att r' \<longrightarrow>
        (r_Priority r, load s (routeBackend r), r_Order r) \<le> (r_Priority r', load s (routeBackend r'), r_Order r'))"
    then obtain q where min: "first_min (routeKey s) (filter (eligible s att) (as_routes a)) None = Some q"
      using first_min_None_iff [of "routeKey s" "filter (eligible s att) (as_routes a)"]
      by (auto simp: filter_empty_conv)
    then have q: "q \<in> set (as_routes a)" "eligible s att q" using first_min_in_set [OF min] by auto
    have "(r_Priority r, load s (routeBackend r), r_Order r) = (r_Priority q, load s (routeBackend q), r_Order q)"
      using opt q key [OF min, of r] by (intro antisym) auto
    with fullKey_inj [OF ok] opt q have "q = r" by auto
    with min show "selectLocked s a att = Some (Some r)" by (simp add: sel)
  }
qed

lemma aliasReadyLoop_eq:
  "\<forall>r\<in>set rs. bsOf s (routeBackend r) \<noteq> None \<Longrightarrow>
     aliasReadyLoop s rs = Some (\<exists>r\<in>set rs. usable s (routeBackend r))"
  by (induction rs) (auto simp: usable_def)

lemma aliasReadyLocked_eq:
  assumes "alias_ok s a"
  shows "aliasReadyLocked s a = Some (\<exists>r\<in>set (as_routes a). usable s (routeBackend r))"
  unfolding aliasReadyLocked_def using assms by (intro aliasReadyLoop_eq) (auto simp: alias_ok_def)

lemma readyLoop_eq:
  "\<forall>a\<in>set as. alias_ok s a \<Longrightarrow>
     readyLoop s as = Some (\<forall>a\<in>set as. \<exists>r\<in>set (as_routes a). usable s (routeBackend r))"
  by (induction as) (auto simp: aliasReadyLocked_eq)

text \<open>
  Readiness. The router is ready exactly when every configured alias has a route whose
  backend is checked and healthy; how much load the backends carry plays no role.
\<close>

theorem Ready_iff:
  assumes "wf_state s"
  shows "Ready s = Some (\<forall>a\<in>set (st_aliasOrder s). \<exists>r\<in>set (as_routes a). usable s (routeBackend r))"
  unfolding Ready_def using assms by (intro readyLoop_eq) (simp add: wf_state_def)

lemma aliasStatuses_eq:
  "\<forall>a\<in>set as. alias_ok s a \<Longrightarrow>
     aliasStatuses s as = Some (map (\<lambda>a. \<lparr>ast_Name = as_name a,
       ast_Ready = (\<exists>r\<in>set (as_routes a). usable s (routeBackend r)),
       ast_RouteCount = length (as_routes a)\<rparr>) as)"
  by (induction as) (auto simp: aliasReadyLocked_eq)

text \<open>
  C34: the status report lists every backend once, in configuration order, with its current
  flags and load, and every alias with the readiness that \<open>Ready\<close> is computed from.
\<close>

theorem Snapshot_correct:
  assumes "wf_state s"
  shows "Snapshot s = Some \<lparr>status_Backends = map backendStatus (st_cells s),
      status_Aliases = map (\<lambda>a. \<lparr>ast_Name = as_name a,
        ast_Ready = (\<exists>r\<in>set (as_routes a). usable s (routeBackend r)),
        ast_RouteCount = length (as_routes a)\<rparr>) (st_aliasOrder s)\<rparr> \<and>
    (Ready s = Some True \<longleftrightarrow> (\<forall>st. Snapshot s = Some st \<longrightarrow> list_all ast_Ready (status_Aliases st)))"
proof -
  have "aliasStatuses s (st_aliasOrder s) = Some (map (\<lambda>a. \<lparr>ast_Name = as_name a,
       ast_Ready = (\<exists>r\<in>set (as_routes a). usable s (routeBackend r)),
       ast_RouteCount = length (as_routes a)\<rparr>) (st_aliasOrder s))"
    using assms by (intro aliasStatuses_eq) (simp add: wf_state_def)
  moreover have "map (\<lambda>p. backendStatus (st_cells s ! p)) (st_order s) = map backendStatus (st_cells s)"
    using assms by (simp add: wf_state_def map_nth_upt)
  moreover have "Ready s = Some (\<forall>a\<in>set (st_aliasOrder s). \<exists>r\<in>set (as_routes a). usable s (routeBackend r))"
    unfolding Ready_def using assms by (intro readyLoop_eq) (simp add: wf_state_def)
  ultimately show ?thesis by (simp add: Snapshot_def list_all_iff)
qed


subsection \<open>Capacity\<close>

lemma publish_eq [simp]: "publish (s, cs) = emit cs s"
  by (simp add: publish_def)

lemma emit_wf [simp]: "wf_state (emit cs s) \<longleftrightarrow> wf_state s"
  by (simp add: wf_state_def alias_ok_def)

lemma load_emit [simp]: "load (emit cs s) = load s"
  by (simp add: load_def fun_eq_iff)

lemma limit_emit [simp]: "limit (emit cs s) = limit s"
  by (simp add: limit_def fun_eq_iff)

lemma usable_emit [simp]: "usable (emit cs s) = usable s"
  by (simp add: usable_def fun_eq_iff)

definition invState :: "State \<Rightarrow> bool" where
  "invState s \<longleftrightarrow> wf_state s \<and> capacity_ok s"

lemma Ready_eq: "invState s \<Longrightarrow> Ready s = Some (\<forall>a\<in>set (st_aliasOrder s). \<exists>r\<in>set (as_routes a). usable s (routeBackend r))"
  by (rule Ready_iff) (simp add: invState_def)

lemma SetHealth_locked_shape:
  "wf_state s \<Longrightarrow> SetHealth_locked s n h = (s', cs) \<Longrightarrow> same_shape s s' \<and> (capacity_ok s \<longrightarrow> capacity_ok s')"
  by (auto elim!: SetHealth_locked_cases [of s n h])

lemma Reserve_shape:
  "wf_state s \<Longrightarrow> Reserve s a att = Some (res, s') \<Longrightarrow> same_shape s s' \<and> (capacity_ok s \<longrightarrow> capacity_ok s')"
  by (auto elim!: Reserve_cases [of s a att])

lemma SwapReservation_locked_shape:
  "wf_state s \<Longrightarrow> SwapReservation_locked s a cur att = Some (res, s', cs) \<Longrightarrow>
     same_shape s s' \<and> (capacity_ok s \<longrightarrow> capacity_ok s')"
  by (auto elim!: SwapReservation_locked_cases [of s a cur att])

lemma Release_locked_shape:
  "wf_state s \<Longrightarrow> Release_locked s r = (s', cs) \<Longrightarrow> same_shape s s' \<and> (capacity_ok s \<longrightarrow> capacity_ok s')"
  by (auto elim!: Release_locked_cases [of s r])

lemmas locked_shape = SetHealth_locked_shape Reserve_shape SwapReservation_locked_shape Release_locked_shape

lemma SetHealth_locked_inv: "invState s \<Longrightarrow> SetHealth_locked s n h = (s', cs) \<Longrightarrow> invState s'"
  and Reserve_inv: "invState s \<Longrightarrow> Reserve s a att = Some (res, s') \<Longrightarrow> invState s'"
  and SwapReservation_locked_inv:
    "invState s \<Longrightarrow> SwapReservation_locked s a cur att = Some (res, s', cs) \<Longrightarrow> invState s'"
  and Release_locked_inv: "invState s \<Longrightarrow> Release_locked s r = (s', cs) \<Longrightarrow> invState s'"
  unfolding invState_def by (blast dest: locked_shape intro: same_shape_wf)+

lemma invState_emit [simp]: "invState (emit cs s) \<longleftrightarrow> invState s"
  by (simp add: invState_def)

lemmas locked_inv = SetHealth_locked_inv Reserve_inv SwapReservation_locked_inv Release_locked_inv

text \<open>
  C15: every operation of the state keeps the invariant: the state stays well formed, no
  backend's counter becomes negative or passes its \<open>max_inflight\<close>, and the operations that
  dereference backend objects never meet a nil pointer.
\<close>

theorem operations_keep_invariant:
  assumes "invState s"
  shows "invState (SetHealth s n h) \<and> invState (Release s route) \<and>
    (\<exists>res s'. Reserve s a att = Some (res, s') \<and> invState s') \<and>
    (\<exists>res s'. SwapReservation s a cur att = Some (res, s') \<and> invState s') \<and>
    Ready s \<noteq> None \<and> Snapshot s \<noteq> None"
proof -
  from assms have wf: "wf_state s" by (simp add: invState_def)
  have "invState (SetHealth s n h)" "invState (Release s route)"
    using SetHealth_locked_inv [OF assms] Release_locked_inv [OF assms]
    by (auto simp: SetHealth_def Release_def publish_def prod_eq_iff)
  moreover have "\<exists>res s'. Reserve s a att = Some (res, s') \<and> invState s'"
    using rs.reserve_total [OF wf, of a att] Reserve_inv [OF assms] by fastforce
  moreover have "\<exists>res s'. SwapReservation s a cur att = Some (res, s') \<and> invState s'"
    using rs.swap_total [OF wf, of a cur att] SwapReservation_locked_inv [OF assms]
    by (fastforce simp: SwapReservation_def)
  moreover have "\<forall>a\<in>set (st_aliasOrder s). alias_ok s a" using wf by (simp add: wf_state_def)
  then have "Ready s \<noteq> None" "Snapshot s \<noteq> None"
    by (simp_all add: Ready_def Snapshot_def readyLoop_eq aliasStatuses_eq)
  ultimately show ?thesis by blast
qed

text \<open>
  Moving a reservation conserves the load. A successful \<open>SwapReservation\<close> takes one from
  the backend of the current route and adds one to the backend of the selected route,
  which was eligible with the current slot counted as free; all other loads stay, and so
  the total over all backends. A refused one leaves the whole state as it was.
\<close>

theorem SwapReservation_conserves:
  assumes "wf_state s" and "SwapReservation s a (Some c) att = Some (res, s')"
  shows "case res of
      Inl e \<Rightarrow> s' = s
    | Inr r \<Rightarrow> r \<notin> att \<and>
        (let l = (load s)(routeBackend c := load s (routeBackend c) - 1)
         in l (routeBackend r) < limit s (routeBackend r) \<and>
            load s' = l(routeBackend r := l (routeBackend r) + 1))"
proof -
  from assms(2) obtain t cs where sw: "SwapReservation_locked s a (Some c) att = Some (res, t, cs)"
      and s': "s' = emit cs t"
    by (auto simp: SwapReservation_def)
  show ?thesis
  proof (cases res)
    case (Inl e)
    with assms(1) sw have "t = s" "cs = []"
      by (auto elim!: SwapReservation_locked_cases [of s a "Some c" att])
    with Inl s' show ?thesis by (simp add: emit_def option.map_ident)
  next
    case (Inr r)
    with rs.swap_moved [OF assms(1)] sw s' show ?thesis by (simp add: Let_def)
  qed
qed

text \<open>
  Failover inside one backend. If the request's own backend is healthy and another route
  of the alias on the same backend has not been attempted, \<open>SwapReservation\<close> succeeds even
  though the backend is at its limit: the slot the request already holds is enough.
\<close>

theorem SwapReservation_same_backend_at_capacity:
  assumes "invState s" and "st_aliases s a = Some al" and "0 < load s (routeBackend c)"
    and "r \<in> set (as_routes al)" and "r \<notin> att" and "routeBackend r = routeBackend c"
    and "usable s (routeBackend c)"
  shows "\<exists>r' s'. SwapReservation s a (Some c) att = Some (Inr r', s') \<and> r' \<in> set (as_routes al)"
proof -
  from assms(1) have wf: "wf_state s" and cap: "capacity_ok s" by (simp_all add: invState_def)
  from wf show ?thesis
  proof (cases rule: SwapReservation_locked_cases [of s a "Some c" att])
    case (refused e)
    with assms(2,3) show ?thesis by auto
  next
    case (kept cur cbs al' freed)
    have "bs_inflight cbs \<le> max 0 (b_MaxInflight (bs_backend cbs))"
      using capacity_ok_bsOf [OF wf cap kept(3)] by simp
    then have "eligible freed att r"
      using kept assms(4-7) by (auto simp: eligible_def usable_def)
    with kept assms(2,4) show ?thesis by (auto simp: filter_empty_conv)
  next
    case (moved cur cbs al' freed r' sbs s')
    with assms(2) have "r' \<in> set (as_routes al)" using first_min_in_set [OF moved(6)] by simp
    with moved show ?thesis by (simp add: SwapReservation_def)
  qed
qed

subsection \<open>A concrete router\<close>

text \<open>
  Two backends of capacity one and an alias with three routes: a preferred and a second
  model on backend \<open>a\<close>, and a fallback on backend \<open>b\<close>. It serves as the input of the
  witnesses here and in the theories that build on this one.
\<close>

definition exURL :: URL where
  "exURL = \<lparr>u_Scheme = ''http'', u_Opaque = '''', u_User = None, u_Host = ''h:1'', u_Path = '''',
     u_RawQuery = '''', u_ForceQuery = False, u_Fragment = ''''\<rparr>"

definition exClient :: HttpClient where
  "exClient = \<lparr>hc_DialTimeout = 5000000000, hc_TLSHandshakeTimeout = 5000000000,
     hc_IdleConnTimeout = 90000000000, hc_ResponseHeaderTimeout = 1000000000,
     hc_ForceAttemptHTTP2 = True, hc_Timeout = 0, hc_FollowRedirects = False\<rparr>"

definition exBackend :: "string \<Rightarrow> Backend" where
  "exBackend n = \<lparr>b_Name = n, b_Kind = ''vllm'', b_BaseURL = exURL, b_MaxInflight = 1,
     b_ResponseHeaderTimeout = 1000000000, b_ResponseIdleTimeout = 1000000000,
     b_token = '''', b_client = exClient\<rparr>"

definition exConfig :: Config where
  "exConfig = \<lparr>cfg_Version = 1, cfg_Listen = ''127.0.0.1:8080'', cfg_BearerTokenEnv = '''', cfg_Backends = [],
     cfg_Aliases = [\<lparr>ac_Name = ''chat'', ac_Routes =
       [\<lparr>rc_Backend = ''a'', rc_UpstreamModel = ''m1'', rc_Priority = 10\<rparr>,
        \<lparr>rc_Backend = ''a'', rc_UpstreamModel = ''m2'', rc_Priority = 10\<rparr>,
        \<lparr>rc_Backend = ''b'', rc_UpstreamModel = ''m1'', rc_Priority = 20\<rparr>]\<rparr>]\<rparr>"

definition exFresh :: State where
  "exFresh = projr (NewState exConfig [exBackend ''a'', exBackend ''b''] (Some []))"

definition exState :: State where
  "exState = SetHealth (SetHealth exFresh ''a'' True) ''b'' True"

definition exRoute0 :: Route where
  "exRoute0 = \<lparr>r_Alias = ''chat'', r_Backend = exBackend ''a'', r_UpstreamModel = ''m1'', r_Priority = 10, r_Order = 0\<rparr>"

definition exRoute1 :: Route where
  "exRoute1 = \<lparr>r_Alias = ''chat'', r_Backend = exBackend ''a'', r_UpstreamModel = ''m2'', r_Priority = 10, r_Order = 1\<rparr>"

definition exRoute2 :: Route where
  "exRoute2 = \<lparr>r_Alias = ''chat'', r_Backend = exBackend ''b'', r_UpstreamModel = ''m1'', r_Priority = 20, r_Order = 2\<rparr>"

definition exAlias :: aliasState where
  "exAlias = \<lparr>as_name = ''chat'', as_routes = [exRoute0, exRoute1, exRoute2]\<rparr>"

definition exCell :: "string \<Rightarrow> int \<Rightarrow> backendState" where
  "exCell n k = \<lparr>bs_backend = exBackend n, bs_checked = True, bs_healthy = True, bs_inflight = k\<rparr>"

lemma exFresh_eq: "NewState exConfig [exBackend ''a'', exBackend ''b''] (Some []) = Inr exFresh"
  by (simp add: exFresh_def NewState_def exConfig_def exBackend_def addBackend_def emptyState_def
      emit_def bsOf_def mkRoute_def addAlias_def)

lemma exFresh_simps:
  "st_aliases exFresh = [''chat'' \<mapsto> exAlias]" "st_aliasOrder exFresh = [exAlias]"
  "st_cells exFresh = [(exCell ''a'' 0)\<lparr>bs_checked := False, bs_healthy := False\<rparr>,
     (exCell ''b'' 0)\<lparr>bs_checked := False, bs_healthy := False\<rparr>]"
  "st_backends exFresh = [''a'' \<mapsto> 0, ''b'' \<mapsto> 1]"
  "st_metrics exFresh = Some (InitBackend ''a'' @ InitBackend ''b'')"
  by (simp_all add: exFresh_def NewState_def exConfig_def exBackend_def addBackend_def emptyState_def
      emit_def bsOf_def mkRoute_def addAlias_def exAlias_def exRoute0_def exRoute1_def exRoute2_def exCell_def
      Let_def numeral_2_eq_2)

lemma exFresh_inv: "invState exFresh"
  using NewState_Inr [OF exFresh_eq] by (simp add: invState_def capacity_ok_def)

lemma SetHealth_inv: "invState s \<Longrightarrow> invState (SetHealth s n h)"
  using SetHealth_locked_inv by (auto simp: SetHealth_def publish_def prod_eq_iff)

lemma exState_inv: "invState exState"
  by (simp add: exState_def SetHealth_inv exFresh_inv)

lemma exState_simps:
  "st_aliases exState = [''chat'' \<mapsto> exAlias]" "st_aliasOrder exState = [exAlias]"
  "st_backends exState = [''a'' \<mapsto> 0, ''b'' \<mapsto> 1]"
  "st_cells exState = [exCell ''a'' 0, exCell ''b'' 0]"
  by (simp_all add: exState_def SetHealth_def SetHealth_locked_def publish_def exFresh_simps exCell_def)

lemma exState_bsOf: "bsOf exState = [''a'' \<mapsto> exCell ''a'' 0, ''b'' \<mapsto> exCell ''b'' 0]"
  by (auto simp: bsOf_def exState_simps fun_eq_iff)

lemma exRoute_simps [simp]:
  "routeBackend exRoute0 = ''a''" "routeBackend exRoute1 = ''a''" "routeBackend exRoute2 = ''b''"
  "r_Priority exRoute0 = 10" "r_Priority exRoute1 = 10" "r_Priority exRoute2 = 20"
  "r_Order exRoute0 = 0" "r_Order exRoute1 = 1" "r_Order exRoute2 = 2"
  "as_routes exAlias = [exRoute0, exRoute1, exRoute2]"
  "bs_inflight (exCell n k) = k" "b_MaxInflight (bs_backend (exCell n k)) = 1"
  "bs_checked (exCell n k)" "bs_healthy (exCell n k)" "b_Name (bs_backend (exCell n k)) = n"
  by (simp_all add: exRoute0_def exRoute1_def exRoute2_def exAlias_def exCell_def exBackend_def)

lemma exRoute_distinct [simp]:
  "exRoute0 \<noteq> exRoute1" "exRoute0 \<noteq> exRoute2" "exRoute1 \<noteq> exRoute2"
  "exRoute1 \<noteq> exRoute0" "exRoute2 \<noteq> exRoute0" "exRoute2 \<noteq> exRoute1"
  by (simp_all add: exRoute0_def exRoute1_def exRoute2_def)

lemma exState_eligible: "eligible exState att r \<longleftrightarrow> r \<notin> att \<and> routeBackend r \<in> {''a'', ''b''}"
  by (auto simp: eligible_def exState_bsOf)

theorem NewState_correct_witness:
  "NewState exConfig [exBackend ''a'', exBackend ''b''] (Some []) = Inr exFresh \<and>
   wf_state exFresh \<and> capacity_ok exFresh \<and> load exFresh ''a'' = 0"
  using NewState_correct [of exConfig "[exBackend ''a'', exBackend ''b'']" "Some []"] exFresh_eq
  by simp

theorem selectLocked_optimal_witness:
  "wf_state exState \<and> st_aliases exState ''chat'' = Some exAlias \<and>
   selectLocked exState exAlias {exRoute0} = Some (Some exRoute1)"
proof -
  have wf: "wf_state exState" using exState_inv by (simp add: invState_def)
  have al: "st_aliases exState ''chat'' = Some exAlias" by (simp add: exState_simps)
  have "(r_Priority exRoute1, load exState (routeBackend exRoute1), r_Order exRoute1) \<le>
      (r_Priority r, load exState (routeBackend r), r_Order r)"
    if "r \<in> {exRoute1, exRoute2}" for r
    using that by (auto simp: load_def exState_bsOf)
  then show ?thesis
    using wf al selectLocked_optimal [OF wf al, of "{exRoute0}" exRoute1]
    by (simp add: exState_eligible)
qed

theorem Ready_iff_witness:
  "wf_state exState \<and> Ready exState = Some True"
proof -
  have wf: "wf_state exState" using exState_inv by (simp add: invState_def)
  show ?thesis using wf Ready_iff [OF wf] by (simp add: exState_simps usable_def exState_bsOf)
qed

theorem Snapshot_correct_witness:
  "wf_state exState \<and> map_option status_Backends (Snapshot exState) =
     Some [backendStatus (exCell ''a'' 0), backendStatus (exCell ''b'' 0)]"
proof -
  have wf: "wf_state exState" using exState_inv by (simp add: invState_def)
  show ?thesis using wf Snapshot_correct [OF wf] by (simp add: exState_simps)
qed

theorem operations_keep_invariant_witness:
  "invState exState \<and> invState (SetHealth exState ''a'' False) \<and> invState (Release exState (Some exRoute0))"
  using exState_inv operations_keep_invariant [OF exState_inv, of "''a''" False "Some exRoute0"] by simp

text \<open>The state in which the only slot of backend \<open>a\<close> is taken.\<close>

definition exBusy :: State where
  "exBusy = snd (the (Reserve exState ''chat'' {}))"

lemma exBusy_Reserve: "Reserve exState ''chat'' {} = Some (Inr exRoute0, exBusy)"
  by (simp add: exBusy_def Reserve_def selectLocked_def exState_simps exState_bsOf Let_def)

lemma exBusy_inv: "invState exBusy"
  by (rule Reserve_inv [OF exState_inv exBusy_Reserve])

lemma exBusy_simps:
  "st_aliases exBusy = [''chat'' \<mapsto> exAlias]" "st_backends exBusy = [''a'' \<mapsto> 0, ''b'' \<mapsto> 1]"
  "st_cells exBusy = [exCell ''a'' 1, exCell ''b'' 0]"
  by (simp_all add: exBusy_def Reserve_def selectLocked_def exState_simps exState_bsOf Let_def)
    (simp add: exCell_def)

lemma exBusy_bsOf: "bsOf exBusy = [''a'' \<mapsto> exCell ''a'' 1, ''b'' \<mapsto> exCell ''b'' 0]"
  by (auto simp: bsOf_def exBusy_simps fun_eq_iff)

theorem SwapReservation_same_backend_at_capacity_witness:
  "load exBusy ''a'' = limit exBusy ''a'' \<and>
   (\<exists>r' s'. SwapReservation exBusy ''chat'' (Some exRoute0) {exRoute0} = Some (Inr r', s') \<and>
      r' \<in> set (as_routes exAlias))"
proof -
  have al: "st_aliases exBusy ''chat'' = Some exAlias" by (simp add: exBusy_simps)
  have pos: "0 < load exBusy (routeBackend exRoute0)" by (simp add: load_def exBusy_bsOf)
  have us: "usable exBusy (routeBackend exRoute0)" by (simp add: usable_def exBusy_bsOf)
  have "\<exists>r' s'. SwapReservation exBusy ''chat'' (Some exRoute0) {exRoute0} = Some (Inr r', s') \<and>
      r' \<in> set (as_routes exAlias)"
    by (rule SwapReservation_same_backend_at_capacity [OF exBusy_inv al pos, of exRoute1])
      (simp_all add: us [simplified])
  then show ?thesis by (simp add: load_def limit_def exBusy_bsOf)
qed

theorem SwapReservation_conserves_witness:
  "\<exists>s'. SwapReservation exBusy ''chat'' (Some exRoute0) {exRoute0} = Some (Inr exRoute1, s') \<and>
     wf_state exBusy \<and> load s' ''a'' = 1"
proof -
  have wf: "wf_state exBusy" using exBusy_inv by (simp add: invState_def)
  have "\<exists>s'. SwapReservation exBusy ''chat'' (Some exRoute0) {exRoute0} = Some (Inr exRoute1, s')"
    by (simp add: SwapReservation_def SwapReservation_locked_def selectLocked_def exBusy_simps bsOf_def Let_def)
  then obtain s' where sw: "SwapReservation exBusy ''chat'' (Some exRoute0) {exRoute0} = Some (Inr exRoute1, s')"
    by blast
  from SwapReservation_conserves [OF wf sw] have "load s' ''a'' = 1"
    by (simp add: Let_def load_def [of exBusy] exBusy_bsOf)
  with sw wf show ?thesis by blast
qed

end
