(* ===== verification/Headers.thy ===== *)
theory Headers
  imports RouterState
begin

text \<open>
  \<^verbatim>\<open>internal/router/headers.go\<close>: which headers cross the router, in either direction.
\<close>

definition hopByHopAndUnsafe :: "string list" where
  "hopByHopAndUnsafe =
     [''Alt-Svc'', ''Connection'', ''Keep-Alive'', ''Proxy-Authenticate'', ''Proxy-Authorization'',
      ''Te'', ''Trailer'', ''Transfer-Encoding'', ''Upgrade'', ''Content-Length'', ''Set-Cookie'', ''Server'']"

text \<open>
  The client request's headers are read, the upstream request's headers are written. The
  first argument is the header map of the fresh upstream request.
\<close>

definition setUpstreamHeaders :: "Header \<Rightarrow> Header \<Rightarrow> Route \<Rightarrow> Header" where
  "setUpstreamHeaders upstream client route =
     (let h1 = Header_Set upstream ''Content-Type'' ''application/json'';
          accept = Header_Get client ''Accept'';
          h2 = (if accept \<noteq> '''' then Header_Set h1 ''Accept'' accept else h1)
      in Authorize (r_Backend route) h2)"

fun nominatedTokens :: "string list \<Rightarrow> string list" where
  "nominatedTokens [] = []"
| "nominatedTokens (token # rest) =
     (let name = TrimSpace token
      in if name = '''' then nominatedTokens rest
         else CanonicalHeaderKey name # nominatedTokens rest)"

definition connectionNominatedHeaders :: "Header \<Rightarrow> string list" where
  "connectionNominatedHeaders header =
     concat (map (\<lambda>v. nominatedTokens (Split (CHR '','') v)) (Header_Values header ''Connection''))"

fun addValues :: "Header \<Rightarrow> string \<Rightarrow> string list \<Rightarrow> Header" where
  "addValues dst name [] = dst"
| "addValues dst name (v # vs) = addValues (Header_Add dst name v) name vs"

fun copyLoop :: "string list \<Rightarrow> Header \<Rightarrow> Header \<Rightarrow> Header" where
  "copyLoop connectionHeaders dst [] = dst"
| "copyLoop connectionHeaders dst ((name, values) # rest) =
     (let canonicalName = CanonicalHeaderKey name
      in if canonicalName \<in> set hopByHopAndUnsafe then copyLoop connectionHeaders dst rest
         else if canonicalName \<in> set connectionHeaders then copyLoop connectionHeaders dst rest
         else copyLoop connectionHeaders (addValues dst name values) rest)"

definition copyResponseHeaders :: "Header \<Rightarrow> Header \<Rightarrow> Header" where
  "copyResponseHeaders dst src = copyLoop (connectionNominatedHeaders src) dst src"


subsection \<open>Response headers\<close>

lemma Header_Values_addValues:
  "Header_Values (addValues dst name vs) k =
     Header_Values dst k @ (if CanonicalHeaderKey k = CanonicalHeaderKey name then vs else [])"
  by (induction dst name vs rule: addValues.induct) auto

text \<open>All values a header map carries for a name, whatever the spelling of its keys.\<close>

definition valuesOf :: "Header \<Rightarrow> string \<Rightarrow> string list" where
  "valuesOf h k = concat (map snd (filter (\<lambda>(n, vs). CanonicalHeaderKey n = CanonicalHeaderKey k) h))"

lemma copyLoop_values:
  "Header_Values (copyLoop ch dst rest) k =
     Header_Values dst k @
     (if CanonicalHeaderKey k \<in> set hopByHopAndUnsafe \<or> CanonicalHeaderKey k \<in> set ch then []
      else valuesOf rest k)"
proof (induction ch dst rest rule: copyLoop.induct)
  case (1 ch dst)
  then show ?case by (simp add: valuesOf_def)
next
  case (2 ch dst name vs rest)
  then show ?case by (auto simp: Let_def Header_Values_addValues valuesOf_def)
qed

text \<open>The names a response nominates: the nonempty elements of its Connection values, trimmed and canonical.\<close>

lemma nominatedTokens_iff:
  "n \<in> set (nominatedTokens ts) \<longleftrightarrow> (\<exists>t\<in>set ts. TrimSpace t \<noteq> '''' \<and> CanonicalHeaderKey (TrimSpace t) = n)"
  by (induction ts) (auto simp: Let_def)

lemma connectionNominated_iff:
  "n \<in> set (connectionNominatedHeaders src) \<longleftrightarrow>
    (\<exists>v\<in>set (Header_Values src ''Connection''). \<exists>t\<in>set (Split (CHR '','') v).
       TrimSpace t \<noteq> '''' \<and> CanonicalHeaderKey (TrimSpace t) = n)"
  by (simp add: connectionNominatedHeaders_def nominatedTokens_iff)

text \<open>
  C29: response headers. Copying adds, for each header name and in their order, exactly the
  values the upstream response carries under any spelling of the name, unless the name is one of
  the twelve hop-by-hop or unsafe headers or is nominated by the response itself: some
  comma-separated element of one of its Connection values is, trimmed, a spelling of the name.
  Such a header adds nothing.
\<close>

theorem copyResponseHeaders_exact:
  "Header_Values (copyResponseHeaders dst src) k =
     Header_Values dst k @
     (if CanonicalHeaderKey k \<in>
           {''Alt-Svc'', ''Connection'', ''Keep-Alive'', ''Proxy-Authenticate'', ''Proxy-Authorization'', ''Te'',
            ''Trailer'', ''Transfer-Encoding'', ''Upgrade'', ''Content-Length'', ''Set-Cookie'', ''Server''} \<or>
         (\<exists>v\<in>set (Header_Values src ''Connection''). \<exists>t\<in>set (Split (CHR '','') v).
            TrimSpace t \<noteq> '''' \<and> CanonicalHeaderKey (TrimSpace t) = CanonicalHeaderKey k)
      then [] else valuesOf src k)"
  unfolding copyResponseHeaders_def copyLoop_values connectionNominated_iff [symmetric]
  by (simp add: hopByHopAndUnsafe_def)

text \<open>
  A header named by any comma-separated element of any Connection field-value of the
  response, in any letter case and with any surrounding white space, is never added
  downstream.
\<close>

theorem nominated_never_copied:
  assumes "v \<in> set (Header_Values src ''Connection'')" and "t \<in> set (Split (CHR '','') v)"
    and "list_all validHeaderFieldByte (TrimSpace t)" and "list_all validHeaderFieldByte k" and "k \<noteq> []"
    and "lowerASCII k = lowerASCII (TrimSpace t)"
  shows "Header_Values (copyResponseHeaders dst src) k = Header_Values dst k"
proof -
  have "TrimSpace t \<noteq> []" using assms(5,6) by (auto simp: lowerASCII_def)
  with assms(1,2) have "CanonicalHeaderKey k \<in> set (connectionNominatedHeaders src)"
    unfolding connectionNominated_iff using CanonicalHeaderKey_fold [OF assms(4,3)] assms(6) by auto
  then show ?thesis by (simp add: copyResponseHeaders_def copyLoop_values)
qed

lemmas header_eval = Let_def string_eval CanonicalHeaderKey_def validHeaderFieldByte_def tokenPunct_def

lemma canonical_names [simp]:
  "CanonicalHeaderKey ''Content-Type'' = ''Content-Type''" "CanonicalHeaderKey ''Accept'' = ''Accept''"
  "CanonicalHeaderKey ''Authorization'' = ''Authorization''" "CanonicalHeaderKey ''Connection'' = ''Connection''"
  "CanonicalHeaderKey ''Cookie'' = ''Cookie''" "CanonicalHeaderKey ''Set-Cookie'' = ''Set-Cookie''"
  by (simp_all add: header_eval)

theorem nominated_never_copied_witness:
  "Header_Values (copyResponseHeaders [] [(''Connection'', [''close, X-hop '']), (''X-Hop'', [''secret''])]) ''x-HOP'' = []"
proof -
  have "Header_Values (copyResponseHeaders [] [(''Connection'', [''close, X-hop '']), (''X-Hop'', [''secret''])]) ''x-HOP'' =
      Header_Values [] ''x-HOP''"
    by (rule nominated_never_copied [where v = "''close, X-hop ''" and t = "'' X-hop ''"])
      (simp_all add: header_eval Header_Values_def header_lookup_def)
  then show ?thesis by simp
qed


subsection \<open>Request headers\<close>

text \<open>
  Request headers. The headers of an upstream request are fixed by the router: the JSON
  content type, the client's Accept value when it sent one, and the backend's own bearer
  token when one is configured. No other client header, in particular neither its
  Authorization nor its Cookie, reaches the backend.
\<close>

theorem setUpstreamHeaders_exact:
  "Header_Values (setUpstreamHeaders [] client route) k =
     (if CanonicalHeaderKey k = ''Content-Type'' then [''application/json'']
      else if CanonicalHeaderKey k = ''Accept''
      then (if Header_Get client ''Accept'' = '''' then [] else [Header_Get client ''Accept''])
      else if CanonicalHeaderKey k = ''Authorization'' \<and> b_token (r_Backend route) \<noteq> ''''
      then [''Bearer '' @ b_token (r_Backend route)]
      else [])"
  by (simp add: setUpstreamHeaders_def Authorize_def Let_def)

end
