(* ===== verification/Relay.thy ===== *)
theory Relay
  imports GoIo Mime Headers
begin

text \<open>
  \<^verbatim>\<open>internal/router/stream.go\<close>: recognising event streams, the reader that gives up on a
  silent upstream, and the copy loop between upstream and client.

  The idle-timeout reader is shared by the goroutine that relays the body and the goroutines
  the timer starts. Its state machine has one step per critical section of its mutex, so the
  interleavings of \<open>Read\<close>, \<open>Close\<close> and \<open>expire\<close> are the runs of \<open>idle_step\<close>.
\<close>

definition copyBufferSize :: nat where "copyBufferSize = 32 * 1024"

definition isEventStream :: "Header \<Rightarrow> bool" where
  "isEventStream header =
     (let contentType = Header_Get header ''Content-Type''
      in if contentType = '''' then False
         else (let mediaType = (case ParseMediaType contentType of
                     Some m \<Rightarrow> m
                   | None \<Rightarrow> TrimSpace (hd (Split (CHR '';'') contentType)))
               in EqualFoldASCII mediaType ''text/event-stream''))"


subsection \<open>The idle-timeout reader\<close>

text \<open>
  The fields up to \<open>ir_closed\<close> are those of \<open>idleTimeoutReadCloser\<close>, with the timer as the time
  at which it fires when it is armed. \<open>ir_now\<close> is the clock; \<open>ir_pending\<close> counts the goroutines
  a fired timer started that have not entered \<open>expire\<close>'s critical section; \<open>ir_closing\<close> counts
  those that left a critical section and are about to call \<open>body.Close\<close>; \<open>ir_bodyCloses\<close> counts
  the calls of \<open>body.Close\<close>.
\<close>

record idleReader =
  ir_timeout :: int
  ir_timer :: "int option"
  ir_timedOut :: bool
  ir_closed :: bool
  ir_now :: int
  ir_pending :: nat
  ir_closing :: nat
  ir_bodyCloses :: nat

datatype Body = PlainBody nat | IdleBody idleReader

definition newIdleTimeoutReadCloser :: "int \<Rightarrow> int \<Rightarrow> Body" where
  "newIdleTimeoutReadCloser now timeout =
     (if timeout \<le> 0 then PlainBody 0
      else IdleBody \<lparr>ir_timeout = timeout, ir_timer = Some (now + timeout), ir_timedOut = False,
             ir_closed = False, ir_now = now, ir_pending = 0, ir_closing = 0, ir_bodyCloses = 0\<rparr>)"

text \<open>\<open>timer.Reset\<close> and \<open>timer.Stop\<close>: neither waits for a callback that has already started.\<close>

definition timerReset :: "idleReader \<Rightarrow> idleReader" where
  "timerReset r = r\<lparr>ir_timer := Some (ir_now r + ir_timeout r)\<rparr>"

definition timerStop :: "idleReader \<Rightarrow> idleReader" where
  "timerStop r = r\<lparr>ir_timer := None\<rparr>"

text \<open>\<open>expire\<close>: the critical section; \<open>body.Close\<close> follows when it marked the reader.\<close>

definition expire :: "idleReader \<Rightarrow> idleReader" where
  "expire r =
     (if ir_closed r then r
      else r\<lparr>ir_timedOut := True, ir_closed := True, ir_closing := Suc (ir_closing r)\<rparr>)"

text \<open>\<open>Read\<close>, from the return of \<open>body.Read\<close> with \<open>data\<close> and \<open>err\<close>.\<close>

definition IdleRead :: "idleReader \<Rightarrow> string \<Rightarrow> ioErr option \<Rightarrow> idleReader \<times> string \<times> ioErr option" where
  "IdleRead r data err =
     (let timedOut = ir_timedOut r;
          r1 = (if length data > 0 \<and> \<not> ir_closed r then timerReset r else r)
      in if timedOut then (r1, data, Some ErrResponseIdleTimeout) else (r1, data, err))"

definition IdleClose :: "idleReader \<Rightarrow> idleReader" where
  "IdleClose r =
     (if ir_closed r then r
      else timerStop (r\<lparr>ir_closed := True, ir_closing := Suc (ir_closing r)\<rparr>))"

datatype idleLabel = Tick int | Fire | RunExpire | RunBodyClose | ReadReturns string "ioErr option" | CallClose

inductive idle_step :: "idleLabel \<Rightarrow> idleReader \<Rightarrow> idleReader \<Rightarrow> bool" where
  tick: "0 \<le> d \<Longrightarrow> idle_step (Tick d) r (r\<lparr>ir_now := ir_now r + d\<rparr>)"
| fire: "ir_timer r = Some t \<Longrightarrow> t \<le> ir_now r \<Longrightarrow>
    idle_step Fire r (r\<lparr>ir_timer := None, ir_pending := Suc (ir_pending r)\<rparr>)"
| run_expire: "0 < ir_pending r \<Longrightarrow>
    idle_step RunExpire r (expire (r\<lparr>ir_pending := ir_pending r - 1\<rparr>))"
| run_body_close: "0 < ir_closing r \<Longrightarrow>
    idle_step RunBodyClose r (r\<lparr>ir_closing := ir_closing r - 1, ir_bodyCloses := Suc (ir_bodyCloses r)\<rparr>)"
| read_returns: "idle_step (ReadReturns data err) r (fst (IdleRead r data err))"
| call_close: "idle_step CallClose r (IdleClose r)"

inductive_cases idle_stepE: "idle_step l r r'"

text \<open>A run from the creation of the reader, with the time of each step.\<close>

inductive idle_run :: "int \<Rightarrow> int \<Rightarrow> (int \<times> idleLabel) list \<Rightarrow> idleReader \<Rightarrow> bool"
  for start timeout where
  init: "newIdleTimeoutReadCloser start timeout = IdleBody r \<Longrightarrow> idle_run start timeout [] r"
| step: "idle_run start timeout tr r \<Longrightarrow> idle_step l r r' \<Longrightarrow>
    idle_run start timeout (tr @ [(ir_now r, l)]) r'"

subsection \<open>Properties of the idle-timeout reader\<close>

text \<open>The firing of the timer at position \<open>i\<close> of a run came after a full timeout without data.\<close>

definition silence_before :: "int \<Rightarrow> int \<Rightarrow> (int \<times> idleLabel) list \<Rightarrow> nat \<Rightarrow> bool" where
  "silence_before start timeout tr i \<longleftrightarrow> i < length tr \<and> snd (tr ! i) = Fire \<and>
     start + timeout \<le> fst (tr ! i) \<and>
     (\<forall>j<i. \<forall>data err. snd (tr ! j) = ReadReturns data err \<and> data \<noteq> [] \<longrightarrow>
        fst (tr ! j) + timeout \<le> fst (tr ! i))"

definition was_silent :: "int \<Rightarrow> int \<Rightarrow> (int \<times> idleLabel) list \<Rightarrow> bool" where
  "was_silent start timeout tr \<longleftrightarrow> (\<exists>i. silence_before start timeout tr i)"

lemma silence_before_append: "silence_before start timeout tr i \<Longrightarrow> silence_before start timeout (tr @ [e]) i"
  by (auto simp: silence_before_def nth_append)

lemma was_silent_append: "was_silent start timeout tr \<Longrightarrow> was_silent start timeout (tr @ [e])"
  unfolding was_silent_def by (blast intro: silence_before_append)

text \<open>While the reader is open, an armed timer fires no earlier than a timeout after every data read.\<close>

definition data_by :: "int \<Rightarrow> int \<Rightarrow> (int \<times> idleLabel) list \<Rightarrow> int \<Rightarrow> bool" where
  "data_by start timeout tr t \<longleftrightarrow> start + timeout \<le> t \<and>
     (\<forall>(u, l)\<in>set tr. (\<exists>data err. l = ReadReturns data err \<and> data \<noteq> []) \<longrightarrow> u + timeout \<le> t)"

lemma was_silent_fire:
  assumes "data_by start timeout tr t" and "t \<le> now"
  shows "was_silent start timeout (tr @ [(now, Fire)])"
proof -
  have "fst (tr ! j) + timeout \<le> now"
    if "j < length tr" and "snd (tr ! j) = ReadReturns data err" and "data \<noteq> []" for j data err
    using assms nth_mem [OF that(1)] that(2,3) by (cases "tr ! j") (fastforce simp: data_by_def)
  then have "silence_before start timeout (tr @ [(now, Fire)]) (length tr)"
    using assms by (simp add: silence_before_def data_by_def nth_append)
  then show ?thesis by (auto simp: was_silent_def)
qed

definition idle_inv :: "int \<Rightarrow> int \<Rightarrow> (int \<times> idleLabel) list \<Rightarrow> idleReader \<Rightarrow> bool" where
  "idle_inv start timeout tr r \<longleftrightarrow>
     ir_timeout r = timeout \<and> start \<le> ir_now r \<and> (\<forall>(u, l)\<in>set tr. u \<le> ir_now r) \<and>
     (\<not> ir_closed r \<longrightarrow> (ir_timer r \<noteq> None \<or> 0 < ir_pending r) \<and>
        (\<forall>t. ir_timer r = Some t \<longrightarrow> data_by start timeout tr t) \<and>
        (0 < ir_pending r \<longrightarrow> was_silent start timeout tr)) \<and>
     (ir_timedOut r \<longrightarrow> ir_closed r \<and> was_silent start timeout tr) \<and>
     (ir_closed r \<and> \<not> ir_timedOut r \<longrightarrow> ir_timer r = None) \<and>
     ir_bodyCloses r + ir_closing r = (if ir_closed r then 1 else 0)"

lemma idle_inv_step:
  assumes "idle_inv start timeout tr r" and "idle_step l r r'"
  shows "idle_inv start timeout (tr @ [(ir_now r, l)]) r'"
  using assms(2)
proof cases
  case (tick d)
  with assms(1) show ?thesis
    by (fastforce simp: idle_inv_def data_by_def was_silent_append)
next
  case (fire t)
  with assms(1) was_silent_fire [of start timeout tr t "ir_now r"] show ?thesis
    by (auto simp: idle_inv_def data_by_def was_silent_append)
next
  case run_expire
  with assms(1) show ?thesis
    by (auto simp: idle_inv_def expire_def data_by_def was_silent_append)
next
  case run_body_close
  with assms(1) show ?thesis
    by (auto simp: idle_inv_def data_by_def was_silent_append split: if_splits)
next
  case (read_returns data err)
  with assms(1) show ?thesis
    by (auto simp: idle_inv_def IdleRead_def Let_def timerReset_def data_by_def was_silent_append)
next
  case call_close
  with assms(1) show ?thesis
    by (auto simp: idle_inv_def IdleClose_def timerStop_def data_by_def was_silent_append)
qed

lemma idle_run_inv: "idle_run start timeout tr r \<Longrightarrow> idle_inv start timeout tr r"
proof (induction rule: idle_run.induct)
  case (init r)
  then show ?case
    by (auto simp: newIdleTimeoutReadCloser_def idle_inv_def data_by_def split: if_splits)
next
  case (step tr r l r')
  then show ?case by (blast intro: idle_inv_step)
qed

text \<open>
  C25: the idle timeout is honest. In every interleaving of reads, timer callbacks and closes,
  the reader reports a timeout only if the timer fired at least the configured timeout
  after its creation and after every earlier read that returned data; it is then closed, and
  as long as it is open, the timer is armed or its callback is on the way.
\<close>

theorem idle_timeout_sound:
  assumes "idle_run start timeout tr r"
  shows "(ir_timedOut r \<longrightarrow> ir_closed r \<and> (\<exists>i. silence_before start timeout tr i)) \<and>
    (\<not> ir_closed r \<longrightarrow> ir_timer r \<noteq> None \<or> 0 < ir_pending r)"
  using idle_run_inv [OF assms] by (auto simp: idle_inv_def was_silent_def)

text \<open>
  The upstream body is closed exactly once, by whoever closes the reader first: the timer
  or the relay. Until the reader is closed the body is not closed, afterwards exactly one
  call of \<open>body.Close\<close> has been made or is about to be made.
\<close>

theorem idle_body_closed_once:
  assumes "idle_run start timeout tr r"
  shows "ir_bodyCloses r \<le> 1 \<and> (\<not> ir_closed r \<longrightarrow> ir_bodyCloses r = 0 \<and> ir_closing r = 0) \<and>
    (ir_closed r \<longrightarrow> ir_bodyCloses r + ir_closing r = 1)"
  using idle_run_inv [OF assms] by (auto simp: idle_inv_def split: if_splits)

text \<open>
  C26: silence ends a response. From every reachable open reader whose callback has not started,
  letting the time pass up to the armed deadline and the callback run closes the body, and
  from then on every read reports the idle timeout, whatever the closed body returns.
\<close>

theorem idle_timeout_live:
  assumes "idle_run start timeout tr r" and "\<not> ir_closed r" and "ir_pending r = 0"
  shows "\<exists>t tr' r'. ir_timer r = Some t \<and> idle_run start timeout (tr @ tr') r' \<and>
    map snd tr' = [Tick (max 0 (t - ir_now r)), Fire, RunExpire, RunBodyClose] \<and>
    ir_timedOut r' \<and> ir_bodyCloses r' = 1 \<and>
    (\<forall>data err. snd (IdleRead r' data err) = (data, Some ErrResponseIdleTimeout))"
proof -
  from idle_run_inv [OF assms(1)] assms(2,3) obtain t where t: "ir_timer r = Some t"
      and cnt: "ir_bodyCloses r = 0" "ir_closing r = 0"
    by (auto simp: idle_inv_def)
  define r1 where "r1 = r\<lparr>ir_now := ir_now r + max 0 (t - ir_now r)\<rparr>"
  define r2 where "r2 = r1\<lparr>ir_timer := None, ir_pending := Suc (ir_pending r1)\<rparr>"
  define r3 where "r3 = expire (r2\<lparr>ir_pending := ir_pending r2 - 1\<rparr>)"
  define r4 where "r4 = r3\<lparr>ir_closing := ir_closing r3 - 1, ir_bodyCloses := Suc (ir_bodyCloses r3)\<rparr>"
  have "idle_step (Tick (max 0 (t - ir_now r))) r r1" unfolding r1_def by (rule idle_step.tick) simp
  note 1 = idle_run.step [OF assms(1) this]
  have "idle_step Fire r1 r2" unfolding r2_def by (rule idle_step.fire [of _ t]) (simp_all add: r1_def t)
  note 2 = idle_run.step [OF 1 this]
  have "idle_step RunExpire r2 r3" unfolding r3_def by (rule idle_step.run_expire) (simp add: r2_def)
  note 3 = idle_run.step [OF 2 this]
  have "idle_step RunBodyClose r3 r4" unfolding r4_def
    by (rule idle_step.run_body_close) (simp add: r3_def r2_def r1_def expire_def assms(2))
  note 4 = idle_run.step [OF 3 this]
  have "ir_timedOut r4" "ir_bodyCloses r4 = 1"
    by (simp_all add: r4_def r3_def r2_def r1_def expire_def assms(2) cnt)
  moreover from \<open>ir_timedOut r4\<close> have "\<forall>data err. snd (IdleRead r4 data err) = (data, Some ErrResponseIdleTimeout)"
    by (simp add: IdleRead_def Let_def)
  ultimately show ?thesis using 4 t by (intro exI [of _ t] exI [of _ r4] exI conjI) (assumption | simp)+
qed

definition exReader :: idleReader where
  "exReader = \<lparr>ir_timeout = 5, ir_timer = Some 5, ir_timedOut = False, ir_closed = False, ir_now = 0,
     ir_pending = 0, ir_closing = 0, ir_bodyCloses = 0\<rparr>"

lemma exReader_run: "idle_run 0 5 [] exReader"
  by (rule idle_run.init) (simp add: newIdleTimeoutReadCloser_def exReader_def)

theorem idle_timeout_live_witness:
  "\<exists>tr' r'. idle_run 0 5 tr' r' \<and> map snd tr' = [Tick 5, Fire, RunExpire, RunBodyClose] \<and> ir_timedOut r' \<and>
     ir_bodyCloses r' = 1"
proof -
  have "\<not> ir_closed exReader" "ir_pending exReader = 0" "ir_timer exReader = Some 5" "ir_now exReader = 0"
    by (simp_all add: exReader_def)
  with idle_timeout_live [OF exReader_run] obtain tr' r' where "idle_run 0 5 ([] @ tr') r'"
      "map snd tr' = [Tick 5, Fire, RunExpire, RunBodyClose]" "ir_timedOut r'" "ir_bodyCloses r' = 1"
    by fastforce
  then show ?thesis by (intro exI [of _ tr'] exI [of _ r']) simp
qed

definition exTimedOut :: idleReader where
  "exTimedOut = exReader\<lparr>ir_now := 9, ir_timer := None, ir_timedOut := True, ir_closed := True, ir_closing := 1\<rparr>"

definition exTrace :: "(int \<times> idleLabel) list" where
  "exTrace = [(0, Tick 9), (9, Fire), (9, RunExpire)]"

lemma exTimedOut_run: "idle_run 0 5 exTrace exTimedOut"
proof -
  have "idle_run 0 5 ([] @ [(ir_now exReader, Tick 9)]) (exReader\<lparr>ir_now := ir_now exReader + 9\<rparr>)" (is "idle_run _ _ ?t1 ?r1")
    by (rule idle_run.step [OF exReader_run idle_step.tick]) simp
  then have "idle_run 0 5 (?t1 @ [(ir_now ?r1, Fire)]) (?r1\<lparr>ir_timer := None, ir_pending := Suc (ir_pending ?r1)\<rparr>)"
      (is "idle_run _ _ ?t2 ?r2")
    by (rule idle_run.step [OF _ idle_step.fire [of _ 5]]) (simp_all add: exReader_def)
  then have "idle_run 0 5 (?t2 @ [(ir_now ?r2, RunExpire)]) (expire (?r2\<lparr>ir_pending := ir_pending ?r2 - 1\<rparr>))"
    by (rule idle_run.step [OF _ idle_step.run_expire]) simp
  then show ?thesis by (simp add: exTrace_def exTimedOut_def exReader_def expire_def)
qed

theorem idle_timeout_sound_witness:
  "ir_timedOut exTimedOut \<and> (\<exists>i. silence_before 0 5 exTrace i)"
proof -
  have "ir_timedOut exTimedOut" by (simp add: exTimedOut_def)
  with idle_timeout_sound [OF exTimedOut_run] show ?thesis by blast
qed

theorem idle_body_closed_once_witness: "ir_bodyCloses exTimedOut + ir_closing exTimedOut = 1"
  using idle_body_closed_once [OF exTimedOut_run] by (simp add: exTimedOut_def)

subsection \<open>Reading a body\<close>

text \<open>
  The steps as functions; a step that is not enabled does nothing. What happens to the body
  between the returns of two reads is a list of such steps, so that a \<open>bodyEvent\<close> is one
  return of \<open>body.Read\<close> together with the timer activity before it.
\<close>

fun idle_apply :: "idleLabel \<Rightarrow> idleReader \<Rightarrow> idleReader" where
  "idle_apply (Tick d) r = (if 0 \<le> d then r\<lparr>ir_now := ir_now r + d\<rparr> else r)"
| "idle_apply Fire r =
     (case ir_timer r of
        None \<Rightarrow> r
      | Some t \<Rightarrow> if t \<le> ir_now r then r\<lparr>ir_timer := None, ir_pending := Suc (ir_pending r)\<rparr> else r)"
| "idle_apply RunExpire r =
     (if 0 < ir_pending r then expire (r\<lparr>ir_pending := ir_pending r - 1\<rparr>) else r)"
| "idle_apply RunBodyClose r =
     (if 0 < ir_closing r
      then r\<lparr>ir_closing := ir_closing r - 1, ir_bodyCloses := Suc (ir_bodyCloses r)\<rparr> else r)"
| "idle_apply (ReadReturns data err) r = fst (IdleRead r data err)"
| "idle_apply CallClose r = IdleClose r"

record bodyEvent =
  be_env :: "idleLabel list"
  be_data :: string
  be_err :: "ioErr option"

fun BodyRead :: "Body \<Rightarrow> bodyEvent \<Rightarrow> Body \<times> string \<times> ioErr option" where
  "BodyRead (PlainBody n) ev = (PlainBody n, be_data ev, be_err ev)"
| "BodyRead (IdleBody r) ev =
     (let (r1, data, err) = IdleRead (fold idle_apply (be_env ev) r) (be_data ev) (be_err ev)
      in (IdleBody r1, data, err))"

fun BodyClose :: "Body \<Rightarrow> Body" where
  "BodyClose (PlainBody n) = PlainBody (Suc n)"
| "BodyClose (IdleBody r) =
     IdleBody (if ir_closed r then r else idle_apply RunBodyClose (IdleClose r))"

text \<open>Every run of the functions is a run of the step relation.\<close>

lemma idle_apply_step: "idle_apply l r = r \<or> idle_step l r (idle_apply l r)"
  by (cases l) (auto intro: idle_step.intros simp del: One_nat_def split: option.splits)

definition reachable_reader :: "idleReader \<Rightarrow> bool" where
  "reachable_reader r \<longleftrightarrow> (\<exists>start timeout tr. idle_run start timeout tr r)"

lemma reachable_apply: "reachable_reader r \<Longrightarrow> reachable_reader (idle_apply l r)"
  using idle_apply_step [of l r] unfolding reachable_reader_def by (metis idle_run.step)

lemma reachable_fold: "reachable_reader r \<Longrightarrow> reachable_reader (fold idle_apply ls r)"
  by (induction ls arbitrary: r) (simp_all add: reachable_apply)

definition body_ok :: "Body \<Rightarrow> bool" where
  "body_ok b = (case b of PlainBody n \<Rightarrow> n = 0 | IdleBody r \<Rightarrow> reachable_reader r)"

lemma BodyRead_ok: "body_ok b \<Longrightarrow> body_ok (fst (BodyRead b ev))"
proof (cases b)
  case (IdleBody r)
  assume "body_ok b"
  then have "reachable_reader (idle_apply (ReadReturns (be_data ev) (be_err ev)) (fold idle_apply (be_env ev) r))"
    unfolding IdleBody body_ok_def by (simp only: Body.case reachable_apply reachable_fold)
  with IdleBody show ?thesis by (auto simp: body_ok_def split: prod.splits)
qed (simp add: body_ok_def)

lemma newIdle_ok: "body_ok (newIdleTimeoutReadCloser now timeout)"
proof (cases "timeout \<le> 0")
  case False
  then obtain r where r: "newIdleTimeoutReadCloser now timeout = IdleBody r"
    by (simp add: newIdleTimeoutReadCloser_def)
  from idle_run.init [OF this] r show ?thesis by (auto simp: body_ok_def reachable_reader_def)
qed (simp add: body_ok_def newIdleTimeoutReadCloser_def)

text \<open>The number of calls of the underlying body's \<open>Close\<close> made or on their way.\<close>

fun bodyCloses :: "Body \<Rightarrow> nat" where
  "bodyCloses (PlainBody n) = n"
| "bodyCloses (IdleBody r) = ir_bodyCloses r + ir_closing r"

lemma BodyClose_once: "body_ok b \<Longrightarrow> bodyCloses (BodyClose b) = 1"
proof (cases b)
  case (IdleBody r)
  assume "body_ok b"
  with IdleBody obtain start timeout tr where "idle_run start timeout tr r"
    by (auto simp: body_ok_def reachable_reader_def)
  from idle_run_inv [OF this] IdleBody show ?thesis
    by (auto simp: idle_inv_def IdleClose_def timerStop_def split: if_splits)
qed (simp add: body_ok_def)

subsection \<open>Relaying a body\<close>

type_synonym sink = "ResponseWriter \<Rightarrow> string \<Rightarrow> ResponseWriter \<times> int \<times> ioErr option"

definition flushWriter_Write :: "writeOracle \<Rightarrow> sink" where
  "flushWriter_Write wr w p = (let (w1, n, err) = ResponseWrite wr w p in (Flush w1, n, err))"

text \<open>
  The loop of \<open>io.CopyBuffer\<close> over the returns of the reader; after the listed ones the body
  is at its end. The error of the copy is \<open>None\<close> when the end was reached.
\<close>

fun CopyBuffer :: "sink \<Rightarrow> ResponseWriter \<Rightarrow> Body \<Rightarrow> bodyEvent list \<Rightarrow> ResponseWriter \<times> Body \<times> ioErr option" where
  "CopyBuffer write w b [] =
     (let (b1, data, er) = BodyRead b \<lparr>be_env = [], be_data = [], be_err = Some EOF\<rparr>
      in (w, b1, if er = Some EOF then None else er))"
| "CopyBuffer write w b (ev # evs) =
     (let (b1, data, er) = BodyRead b ev;
          rest = (\<lambda>w1. case er of
              None \<Rightarrow> CopyBuffer write w1 b1 evs
            | Some e \<Rightarrow> (w1, b1, if e = EOF then None else Some e))
      in if data \<noteq> [] then
           (let (w1, nw, ew) = write w data;
                invalid = (nw < 0 \<or> int (length data) < nw);
                ew1 = (if invalid \<and> ew = None then Some ErrInvalidWrite else ew);
                nw1 = (if invalid then 0 else nw)
            in case ew1 of
                 Some e \<Rightarrow> (w1, b1, Some e)
               | None \<Rightarrow> if nw1 \<noteq> int (length data) then (w1, b1, Some ErrShortWrite) else rest w1)
         else rest w)"

definition relay :: "sink \<Rightarrow> ResponseWriter \<Rightarrow> Body \<Rightarrow> bodyEvent list \<Rightarrow> ResponseWriter \<times> Body \<times> ioErr option" where
  "relay write dst src evs = CopyBuffer write dst src evs"

text \<open>The bytes the upstream delivered: those of all reads up to the first with an error.\<close>

fun upstreamBytes :: "bodyEvent list \<Rightarrow> string" where
  "upstreamBytes [] = []"
| "upstreamBytes (ev # evs) = be_data ev @ (if be_err ev = None then upstreamBytes evs else [])"

definition honest_sink :: "sink \<Rightarrow> bool" where
  "honest_sink write \<longleftrightarrow>
     (\<forall>w p w' n e. write w p = (w', n, e) \<longrightarrow> rw_Body w' = rw_Body w @ take (nat n) p)"

lemma honest_sinkD: "honest_sink write \<Longrightarrow> write w p = (w', n, e) \<Longrightarrow> rw_Body w' = rw_Body w @ take (nat n) p"
  by (auto simp: honest_sink_def)

lemma honest_ResponseWrite: "honest_sink (ResponseWrite wr)"
  by (simp add: honest_sink_def ResponseWrite_body)

lemma honest_flushWriter: "honest_sink (flushWriter_Write wr)"
  by (auto simp: honest_sink_def flushWriter_Write_def Let_def ResponseWrite_body split: prod.splits)

lemma BodyRead_data: "fst (snd (BodyRead b ev)) = be_data ev"
  by (cases b) (auto simp: IdleRead_def Let_def)

lemma BodyRead_err: "BodyRead b ev = (b1, data, None) \<Longrightarrow> be_err ev = None"
  by (cases b) (auto simp: IdleRead_def Let_def split: if_splits)

lemma BodyRead_err_EOF: "BodyRead b ev = (b1, data, Some EOF) \<Longrightarrow> be_err ev = Some EOF"
  by (cases b) (auto simp: IdleRead_def Let_def split: if_splits)

lemma BodyRead_elim:
  obtains b1 er where "BodyRead b ev = (b1, be_data ev, er)" and "er = None \<longrightarrow> be_err ev = None"
    and "er = Some EOF \<longrightarrow> be_err ev = Some EOF" and "body_ok b \<longrightarrow> body_ok b1"
proof -
  obtain b1 d er where r: "BodyRead b ev = (b1, d, er)" by (cases "BodyRead b ev") auto
  show ?thesis
    by (rule that [of b1 er])
      (use r BodyRead_data [of b ev] BodyRead_err [of b ev] BodyRead_err_EOF [of b ev] BodyRead_ok [of b ev] in auto)
qed

text \<open>One round of the loop: a write is refused, the body ends, or the loop goes on.\<close>

definition passed :: "sink \<Rightarrow> ResponseWriter \<Rightarrow> string \<Rightarrow> ResponseWriter \<Rightarrow> bool" where
  "passed write w data w1 \<longleftrightarrow>
     (if data = [] then w1 = w else write w data = (w1, int (length data), None))"

lemma CopyBuffer_Cons_cases:
  assumes "CopyBuffer write w b (ev # evs) = (w', b', res)"
  obtains (refused) nw ew where "be_data ev \<noteq> []" "write w (be_data ev) = (w', nw, ew)" "res \<noteq> None"
      "body_ok b \<longrightarrow> body_ok b'"
  | (ended) e where "passed write w (be_data ev) w'" "res = (if e = EOF then None else Some e)"
      "e = EOF \<longrightarrow> be_err ev = Some EOF" "body_ok b \<longrightarrow> body_ok b'"
  | (more) w1 b1 where "passed write w (be_data ev) w1" "be_err ev = None"
      "CopyBuffer write w1 b1 evs = (w', b', res)" "body_ok b \<longrightarrow> body_ok b1"
proof -
  obtain b1 er where rd: "BodyRead b ev = (b1, be_data ev, er)" "er = None \<longrightarrow> be_err ev = None"
      "er = Some EOF \<longrightarrow> be_err ev = Some EOF" "body_ok b \<longrightarrow> body_ok b1"
    by (rule BodyRead_elim [of b ev])
  let ?rest = "\<lambda>w1. case er of None \<Rightarrow> CopyBuffer write w1 b1 evs
        | Some e \<Rightarrow> (w1, b1, if e = EOF then None else Some e)"
  have rest: thesis if "passed write w (be_data ev) w1" and run: "?rest w1 = (w', b', res)" for w1
  proof (cases er)
    case None
    with that rd show thesis by (intro more [of w1 b1]) simp_all
  next
    case (Some e)
    with that rd show thesis by (intro ended [of e]) auto
  qed
  show thesis
  proof (cases "be_data ev = []")
    case True
    with assms rd(1) rest [of w] show thesis by (simp add: passed_def)
  next
    case False
    obtain w1 nw ew where wr: "write w (be_data ev) = (w1, nw, ew)" by (cases "write w (be_data ev)") auto
    show thesis
    proof (cases "nw = int (length (be_data ev)) \<and> ew = None")
      case True
      with False assms rd(1) wr rest [of w1] show thesis by (simp add: passed_def)
    next
      case failed: False
      with False assms rd(1) wr have "w' = w1" "res \<noteq> None" "b' = b1"
        by (auto simp: Let_def split: if_splits option.splits)
      with False wr rd(4) show thesis by (intro refused [of nw ew]) auto
    qed
  qed
qed

lemma CopyBuffer_prefix:
  assumes honest: "honest_sink write" and "CopyBuffer write w b evs = (w', b', res)"
  shows "\<exists>k. rw_Body w' = rw_Body w @ take k (upstreamBytes evs) \<and>
    (res = None \<longrightarrow> length (upstreamBytes evs) \<le> k)"
  using assms(2)
proof (induction evs arbitrary: w b)
  case Nil
  then show ?case by (auto split: prod.splits intro: exI [of _ 0])
next
  case (Cons ev evs)
  have pass: "rw_Body w1 = rw_Body w @ be_data ev" if "passed write w (be_data ev) w1" for w1
    using that honest_sinkD [OF honest] by (fastforce simp: passed_def split: if_splits)
  from Cons.prems show ?case
  proof (cases rule: CopyBuffer_Cons_cases)
    case (refused nw ew)
    from honest_sinkD [OF honest this(2)] have "rw_Body w' = rw_Body w @ take (nat nw) (be_data ev)" .
    with refused(3) show ?thesis by (intro exI [of _ "min (nat nw) (length (be_data ev))"]) (auto simp: min_def)
  next
    case (ended e)
    with pass [of w'] show ?thesis by (intro exI [of _ "length (be_data ev)"]) (auto split: if_splits)
  next
    case (more w1 b1)
    from Cons.IH [OF more(3)] obtain k where "rw_Body w' = rw_Body w1 @ take k (upstreamBytes evs)"
        "res = None \<longrightarrow> length (upstreamBytes evs) \<le> k" by blast
    with more(1,2) pass show ?thesis by (intro exI [of _ "length (be_data ev) + k"]) simp
  qed
qed

lemma CopyBuffer_body_ok: "CopyBuffer write w b evs = (w', b', res) \<Longrightarrow> body_ok b \<Longrightarrow> body_ok b'"
proof (induction evs arbitrary: w b)
  case Nil
  then show ?case using BodyRead_ok [of b] by (auto split: prod.splits) (metis fst_conv)
next
  case (Cons ev evs)
  from Cons.prems(1) show ?case
    by (cases rule: CopyBuffer_Cons_cases) (use Cons.prems Cons.IH in auto)
qed

text \<open>
  C24: the relay neither invents nor reorders bytes. Whatever the client's connection does and
  whenever the idle timer strikes, what reaches the client is a prefix of what the upstream
  delivered, and when the relay reports success it is all of it; both for plain and for
  flushed responses.
\<close>

theorem relay_faithful:
  assumes "write = ResponseWrite wr \<or> write = flushWriter_Write wr"
    and "relay write w b evs = (w', b', res)"
  shows "(\<exists>k. rw_Body w' = rw_Body w @ take k (upstreamBytes evs)) \<and>
    (res = None \<longrightarrow> rw_Body w' = rw_Body w @ upstreamBytes evs)"
proof -
  have "honest_sink write" using assms(1) honest_ResponseWrite honest_flushWriter by auto
  from CopyBuffer_prefix [OF this] assms(2) show ?thesis unfolding relay_def by fastforce
qed

text \<open>The events a streamed copy leaves in the writer's log: every write is followed by a flush.\<close>

fun flushed :: "rwEvent list \<Rightarrow> bool" where
  "flushed [] = True"
| "flushed (RW_Write p n # RW_Flush # es) = flushed es"
| "flushed _ = False"

lemma flushed_snoc: "flushed es \<Longrightarrow> flushed (es @ [RW_Write p n, RW_Flush])"
  by (induction es rule: flushed.induct) auto

lemma flushWriter_log:
  assumes "rw_Status w \<noteq> None" and "flushWriter_Write wr w p = (w', n, e)"
  shows "rw_Log w' = rw_Log w @ [RW_Write p n, RW_Flush] \<and> rw_Status w' = rw_Status w"
  using assms by (auto simp: flushWriter_Write_def ResponseWrite_def Flush_def Let_def split: prod.splits)

lemma CopyBuffer_flushed:
  assumes "CopyBuffer (flushWriter_Write wr) w b evs = (w', b', res)" and "rw_Status w \<noteq> None"
  shows "rw_Status w' = rw_Status w \<and> (\<exists>es. rw_Log w' = rw_Log w @ es \<and> flushed es)"
  using assms
proof (induction evs arbitrary: w b)
  case Nil
  then show ?case by (auto split: prod.splits intro: exI [of _ "[]"])
next
  case (Cons ev evs)
  note committed = Cons.prems(2)
  have pass: "rw_Status w1 = rw_Status w \<and> (\<exists>es. rw_Log w1 = rw_Log w @ es \<and> flushed es \<and>
      (\<forall>es'. flushed es' \<longrightarrow> flushed (es @ es')))" if "passed (flushWriter_Write wr) w (be_data ev) w1" for w1
  proof (cases "be_data ev = []")
    case False
    with that have "flushWriter_Write wr w (be_data ev) = (w1, int (length (be_data ev)), None)"
      by (simp add: passed_def)
    from flushWriter_log [OF committed this] show ?thesis by auto
  qed (use that in \<open>auto simp: passed_def\<close>)
  from Cons.prems(1) show ?case
  proof (cases rule: CopyBuffer_Cons_cases)
    case (refused nw ew)
    from flushWriter_log [OF committed refused(2)] show ?thesis by auto
  next
    case (ended e)
    with pass show ?thesis by blast
  next
    case (more w1 b1)
    from pass [OF more(1)] obtain es where es: "rw_Status w1 = rw_Status w" "rw_Log w1 = rw_Log w @ es"
        "\<And>es'. flushed es' \<Longrightarrow> flushed (es @ es')" by blast
    with Cons.IH [OF more(3)] committed show ?thesis by fastforce
  qed
qed

text \<open>Once the response is committed, copying only appends to the log and keeps the status.\<close>

definition appending_sink :: "sink \<Rightarrow> bool" where
  "appending_sink write \<longleftrightarrow> (\<forall>w p w' n e. rw_Status w \<noteq> None \<and> write w p = (w', n, e) \<longrightarrow>
     rw_Status w' = rw_Status w \<and> (\<exists>es. rw_Log w' = rw_Log w @ es))"

lemma appending_ResponseWrite: "appending_sink (ResponseWrite wr)"
  by (auto simp: appending_sink_def ResponseWrite_def Let_def split: prod.splits)

lemma appending_flushWriter: "appending_sink (flushWriter_Write wr)"
  using flushWriter_log by (fastforce simp: appending_sink_def)

lemma appending_sinkD:
  "appending_sink write \<Longrightarrow> rw_Status w \<noteq> None \<Longrightarrow> write w p = (w', n, e) \<Longrightarrow>
     rw_Status w' = rw_Status w \<and> (\<exists>es. rw_Log w' = rw_Log w @ es)"
  unfolding appending_sink_def by blast

lemma appending_passed:
  "appending_sink write \<Longrightarrow> rw_Status w \<noteq> None \<Longrightarrow> passed write w data w1 \<Longrightarrow>
     rw_Status w1 = rw_Status w \<and> (\<exists>es. rw_Log w1 = rw_Log w @ es)"
  unfolding passed_def by (cases "data = []") (simp, metis appending_sinkD)

lemma CopyBuffer_appends:
  assumes sink: "appending_sink write" and "CopyBuffer write w b evs = (w', b', res)" and "rw_Status w \<noteq> None"
  shows "rw_Status w' = rw_Status w \<and> (\<exists>es. rw_Log w' = rw_Log w @ es)"
  using assms(2,3)
proof (induction evs arbitrary: w b)
  case Nil
  then show ?case by (auto split: prod.splits)
next
  case (Cons ev evs)
  from Cons.prems(1) show ?case
  proof (cases rule: CopyBuffer_Cons_cases)
    case (refused nw ew)
    from appending_sinkD [OF sink Cons.prems(2) this(2)] show ?thesis .
  next
    case (ended e)
    with appending_passed [OF sink Cons.prems(2)] show ?thesis by blast
  next
    case (more w1 b1)
    from appending_passed [OF sink Cons.prems(2) more(1)] Cons.IH [OF more(3)] Cons.prems(2)
    show ?thesis by fastforce
  qed
qed

definition exEvents :: "bodyEvent list" where
  "exEvents = [\<lparr>be_env = [Tick 1], be_data = ''data: x'', be_err = None\<rparr>,
     \<lparr>be_env = [Tick 9, Fire, RunExpire, RunBodyClose], be_data = '''', be_err = Some (OtherErr ''closed'')\<rparr>]"

theorem relay_faithful_witness:
  "\<exists>w' b' k. relay (flushWriter_Write acceptAll) (newResponseWriter True) (IdleBody exReader) exEvents =
       (w', b', Some ErrResponseIdleTimeout) \<and> rw_Body w' = take k (upstreamBytes exEvents)"
proof -
  obtain w' b' where run: "relay (flushWriter_Write acceptAll) (newResponseWriter True) (IdleBody exReader) exEvents =
      (w', b', Some ErrResponseIdleTimeout)"
    by (simp add: relay_def exEvents_def exReader_def flushWriter_Write_def ResponseWrite_def acceptAll_def
        newResponseWriter_def ensureHeader_def commitHeader_def Flush_def IdleRead_def timerReset_def expire_def Let_def)
  from relay_faithful [OF _ run] have "\<exists>k. rw_Body w' = rw_Body (newResponseWriter True) @ take k (upstreamBytes exEvents)"
    by blast
  with run show ?thesis by (simp add: newResponseWriter_def)
qed

text \<open>
  A stream is recognised by its media type alone. For an ASCII content type the part before
  the first semicolon decides, without surrounding white space and in any letter case; the
  parameters, well formed or not, make no difference.
\<close>

theorem isEventStream_iff:
  assumes "isASCII (Header_Get h ''Content-Type'')"
  shows "isEventStream h \<longleftrightarrow>
    lowerASCII (TrimSpace (fst (Cut (CHR '';'') (Header_Get h ''Content-Type'')))) = ''text/event-stream''"
proof -
  let ?v = "Header_Get h ''Content-Type''" and ?base = "fst (Cut (CHR '';'') (Header_Get h ''Content-Type''))"
  have ascii: "isASCII ?base" using assms by (auto simp: Cut_def isASCII_def dest: set_takeWhileD)
  have lit: "lowerASCII ''text/event-stream'' = ''text/event-stream''" by (simp add: string_eval)
  have parsed: "m = lowerASCII (TrimSpace ?base)" if "ParseMediaType ?v = Some m" for m
    using that ascii by (simp add: ParseMediaType_def Let_def ToLower_ASCII TrimSpace_lowerASCII split: if_splits)
  have "EqualFoldASCII (case ParseMediaType ?v of Some m \<Rightarrow> m | None \<Rightarrow> TrimSpace (hd (Split (CHR '';'') ?v)))
      ''text/event-stream'' \<longleftrightarrow> lowerASCII (TrimSpace ?base) = ''text/event-stream''"
    using parsed ascii lit
    by (auto simp: hd_Split EqualFoldASCII_ASCII isASCII_TrimSpace isASCII_lowerASCII split: option.splits)
  moreover have "lowerASCII (TrimSpace ?base) \<noteq> ''text/event-stream''" if "?v = ''''"
    using that by (simp add: Cut_def string_eval)
  ultimately show ?thesis by (auto simp: isEventStream_def Let_def)
qed

theorem isEventStream_iff_witness:
  "isEventStream [(''Content-Type'', ['' TEXT/Event-Stream ; charset''])]"
proof -
  let ?h = "[(''Content-Type'', ['' TEXT/Event-Stream ; charset''])]"
  have get: "Header_Get ?h ''Content-Type'' = '' TEXT/Event-Stream ; charset''"
    by (simp add: Header_Get_def Header_Values_def header_lookup_def)
  have ascii: "isASCII (Header_Get ?h ''Content-Type'')" by (simp add: get isASCII_def)
  have cut: "fst (Cut (CHR '';'') '' TEXT/Event-Stream ; charset'') = '' TEXT/Event-Stream ''" by (simp add: Cut_def)
  have "TrimSpace '' TEXT/Event-Stream '' = ''TEXT/Event-Stream''" by (simp add: string_eval)
  moreover have "lowerASCII ''TEXT/Event-Stream'' = ''text/event-stream''" by (simp add: string_eval)
  ultimately show ?thesis using isEventStream_iff [OF ascii] get cut by simp
qed

end
