(* ===== verification/Json.thy ===== *)
theory Json
  imports GoStrings "HOL-Library.AList" "HOL-Library.Char_ord" "HOL-Library.List_Lexorder"
begin

text \<open>
  What the router uses of Go's \<open>encoding/json\<close>: the scanner that decides whether bytes are one
  JSON value, compaction of raw values, quoting of strings, and the encoding of a map of raw
  values as an object.
\<close>

subsection \<open>UTF-8\<close>

text \<open>The length of the valid encoding of a rune at the start of a string, 0 when there is none.\<close>

definition contByte :: "char \<Rightarrow> bool" where
  "contByte c \<longleftrightarrow> 128 \<le> byte c \<and> byte c < 192"

fun runeLen :: "string \<Rightarrow> nat" where
  "runeLen [] = 0"
| "runeLen (c # cs) =
     (if byte c < 128 then 1
      else if 194 \<le> byte c \<and> byte c \<le> 223
      then (case cs of c1 # _ \<Rightarrow> if contByte c1 then 2 else 0 | _ \<Rightarrow> 0)
      else if 224 \<le> byte c \<and> byte c \<le> 239
      then (case cs of
              c1 # c2 # _ \<Rightarrow>
                if contByte c1 \<and> contByte c2 \<and> (byte c = 224 \<longrightarrow> 160 \<le> byte c1) \<and> (byte c = 237 \<longrightarrow> byte c1 < 160)
                then 3 else 0
            | _ \<Rightarrow> 0)
      else if 240 \<le> byte c \<and> byte c \<le> 244
      then (case cs of
              c1 # c2 # c3 # _ \<Rightarrow>
                if contByte c1 \<and> contByte c2 \<and> contByte c3 \<and> (byte c = 240 \<longrightarrow> 144 \<le> byte c1) \<and>
                  (byte c = 244 \<longrightarrow> byte c1 < 144)
                then 4 else 0
            | _ \<Rightarrow> 0)
      else 0)"

lemma runeLen_le: "runeLen s \<le> length s"
  by (cases s) (auto split: list.splits)


subsection \<open>Strings\<close>

definition hexDigit :: "nat \<Rightarrow> char" where
  "hexDigit n = ''0123456789abcdef'' ! (n mod 16)"

definition escapeU00 :: "char \<Rightarrow> string" where
  "escapeU00 c = [CHR 0x5C] @ ''u00'' @ [hexDigit (byte c div 16), hexDigit (byte c)]"

definition htmlUnsafe :: "char \<Rightarrow> bool" where
  "htmlUnsafe c \<longleftrightarrow> c \<in> set ''<>&''"

definition quoteByte :: "char \<Rightarrow> string" where
  "quoteByte c =
     (if byte c = 92 \<or> byte c = 34 then [CHR 0x5C, c]
      else if byte c = 8 then [CHR 0x5C] @ ''b''
      else if byte c = 12 then [CHR 0x5C] @ ''f''
      else if byte c = 10 then [CHR 0x5C] @ ''n''
      else if byte c = 13 then [CHR 0x5C] @ ''r''
      else if byte c = 9 then [CHR 0x5C] @ ''t''
      else if byte c < 32 \<or> htmlUnsafe c then escapeU00 c
      else [c])"

text \<open>U+2028 and U+2029, encoded as 226 128 168 and 226 128 169.\<close>

definition lineSep :: "string \<Rightarrow> bool" where
  "lineSep s \<longleftrightarrow> map byte (take 3 s) = [226, 128, 168] \<or> map byte (take 3 s) = [226, 128, 169]"

definition escapeSep :: "string \<Rightarrow> string" where
  "escapeSep s = [CHR 0x5C] @ ''u202'' @ [hexDigit (byte (s ! 2))]"

text \<open>\<open>appendString\<close> with HTML escaping, between the quotes.\<close>

function quoteRest :: "string \<Rightarrow> string" where
  "quoteRest [] = []"
| "quoteRest (c # cs) =
     (if byte c < 128 then quoteByte c @ quoteRest cs
      else if runeLen (c # cs) = 0 then [CHR 0x5C] @ ''ufffd'' @ quoteRest cs
      else if lineSep (c # cs) then escapeSep (c # cs) @ quoteRest (drop 2 cs)
      else take (runeLen (c # cs)) (c # cs) @ quoteRest (drop (runeLen (c # cs)) (c # cs)))"
  by pat_completeness auto
termination
  by (relation "measure length") (auto simp: drop_Cons' simp del: runeLen.simps)

definition MarshalString :: "string \<Rightarrow> string" where
  "MarshalString s = [CHR 0x22] @ quoteRest s @ [CHR 0x22]"


subsection \<open>The scanner\<close>

text \<open>The bound on open brackets, a constant of the package, is a field here.\<close>

datatype parseState = parseObjectKey | parseObjectValue | parseArrayValue

datatype scanStep =
    BeginValueOrEmpty | BeginValue | BeginStringOrEmpty | BeginString | EndValue | EndTop
  | InString | InStringEsc | InStringEscU nat
  | Neg | Num1 | Num0 | Dot | Dot0 | ExpE | ExpSign | Exp0
  | Lit string

record scanner =
  sc_step :: scanStep
  sc_parseState :: "parseState list"
  sc_endTop :: bool
  sc_limit :: nat

definition maxNestingDepth :: nat where "maxNestingDepth = 10000"

definition newScanner :: scanner where
  "newScanner = \<lparr>sc_step = BeginValue, sc_parseState = [], sc_endTop = False, sc_limit = maxNestingDepth\<rparr>"

definition isSpace :: "char \<Rightarrow> bool" where
  "isSpace c \<longleftrightarrow> byte c \<in> {32, 9, 13, 10}"

definition isHex :: "char \<Rightarrow> bool" where
  "isHex c \<longleftrightarrow> isDigit c \<or> (97 \<le> byte c \<and> byte c \<le> 102) \<or> (65 \<le> byte c \<and> byte c \<le> 70)"

text \<open>
  The result of one step: \<open>None\<close> is \<open>scanError\<close>; otherwise the scanner and whether the byte is
  insignificant space (\<open>scanSkipSpace\<close> or, after the value, \<open>scanEnd\<close>).
\<close>

type_synonym scanResult = "(scanner \<times> bool) option"

definition goTo :: "scanStep \<Rightarrow> scanner \<Rightarrow> scanResult" where
  "goTo st s = Some (s\<lparr>sc_step := st\<rparr>, False)"

definition pushParseState :: "scanStep \<Rightarrow> parseState \<Rightarrow> scanner \<Rightarrow> scanResult" where
  "pushParseState st p s =
     (if length (sc_parseState s) < sc_limit s
      then Some (s\<lparr>sc_step := st, sc_parseState := p # sc_parseState s\<rparr>, False) else None)"

definition popParseState :: "scanner \<Rightarrow> scanResult" where
  "popParseState s =
     (case tl (sc_parseState s) of
        [] \<Rightarrow> Some (s\<lparr>sc_parseState := [], sc_step := EndTop, sc_endTop := True\<rparr>, False)
      | ps \<Rightarrow> Some (s\<lparr>sc_parseState := ps, sc_step := EndValue\<rparr>, False))"

definition stateEndTop :: "scanner \<Rightarrow> char \<Rightarrow> scanResult" where
  "stateEndTop s c = (if isSpace c then Some (s, True) else None)"

definition stateEndValue :: "scanner \<Rightarrow> char \<Rightarrow> scanResult" where
  "stateEndValue s c =
     (case sc_parseState s of
        [] \<Rightarrow> stateEndTop (s\<lparr>sc_step := EndTop, sc_endTop := True\<rparr>) c
      | p # ps \<Rightarrow>
         if isSpace c then Some (s\<lparr>sc_step := EndValue\<rparr>, True)
         else (case p of
             parseObjectKey \<Rightarrow>
               if c = CHR '':'' then goTo BeginValue (s\<lparr>sc_parseState := parseObjectValue # ps\<rparr>) else None
           | parseObjectValue \<Rightarrow>
               if c = CHR '','' then goTo BeginString (s\<lparr>sc_parseState := parseObjectKey # ps\<rparr>)
               else if c = CHR ''}'' then popParseState s else None
           | parseArrayValue \<Rightarrow>
               if c = CHR '','' then goTo BeginValue s
               else if c = CHR '']'' then popParseState s else None))"

definition stateBeginValue :: "scanner \<Rightarrow> char \<Rightarrow> scanResult" where
  "stateBeginValue s c =
     (if isSpace c then Some (s, True)
      else if c = CHR ''{'' then pushParseState BeginStringOrEmpty parseObjectKey s
      else if c = CHR ''['' then pushParseState BeginValueOrEmpty parseArrayValue s
      else if byte c = 34 then goTo InString s
      else if c = CHR ''-'' then goTo Neg s
      else if c = CHR ''0'' then goTo Num0 s
      else if c = CHR ''t'' then goTo (Lit ''rue'') s
      else if c = CHR ''f'' then goTo (Lit ''alse'') s
      else if c = CHR ''n'' then goTo (Lit ''ull'') s
      else if isDigit c then goTo Num1 s
      else None)"

definition stateBeginString :: "scanner \<Rightarrow> char \<Rightarrow> scanResult" where
  "stateBeginString s c =
     (if isSpace c then Some (s, True) else if byte c = 34 then goTo InString s else None)"

definition state0 :: "scanner \<Rightarrow> char \<Rightarrow> scanResult" where
  "state0 s c = (if c = CHR ''.'' then goTo Dot s
     else if c = CHR ''e'' \<or> c = CHR ''E'' then goTo ExpE s else stateEndValue s c)"

definition stateESign :: "scanner \<Rightarrow> char \<Rightarrow> scanResult" where
  "stateESign s c = (if isDigit c then goTo Exp0 s else None)"

definition scan_step :: "scanner \<Rightarrow> char \<Rightarrow> scanResult" where
  "scan_step s c =
     (case sc_step s of
        BeginValueOrEmpty \<Rightarrow>
          if isSpace c then Some (s, True) else if c = CHR '']'' then stateEndValue s c else stateBeginValue s c
      | BeginValue \<Rightarrow> stateBeginValue s c
      | BeginStringOrEmpty \<Rightarrow>
          if isSpace c then Some (s, True)
          else if c = CHR ''}'' then stateEndValue (s\<lparr>sc_parseState := parseObjectValue # tl (sc_parseState s)\<rparr>) c
          else stateBeginString s c
      | BeginString \<Rightarrow> stateBeginString s c
      | EndValue \<Rightarrow> stateEndValue s c
      | EndTop \<Rightarrow> stateEndTop s c
      | InString \<Rightarrow>
          if byte c = 34 then goTo EndValue s
          else if byte c = 92 then goTo InStringEsc s
          else if byte c < 32 then None else Some (s, False)
      | InStringEsc \<Rightarrow>
          if c \<in> set ''bfnrt/'' \<or> byte c = 92 \<or> byte c = 34 then goTo InString s
          else if c = CHR ''u'' then goTo (InStringEscU 3) s else None
      | InStringEscU n \<Rightarrow>
          if isHex c then goTo (case n of 0 \<Rightarrow> InString | Suc m \<Rightarrow> InStringEscU m) s else None
      | Neg \<Rightarrow> if c = CHR ''0'' then goTo Num0 s else if isDigit c then goTo Num1 s else None
      | Num1 \<Rightarrow> if isDigit c then goTo Num1 s else state0 s c
      | Num0 \<Rightarrow> state0 s c
      | Dot \<Rightarrow> if isDigit c then goTo Dot0 s else None
      | Dot0 \<Rightarrow> if isDigit c then Some (s, False)
          else if c = CHR ''e'' \<or> c = CHR ''E'' then goTo ExpE s else stateEndValue s c
      | ExpE \<Rightarrow> if c = CHR ''+'' \<or> c = CHR ''-'' then goTo ExpSign s else stateESign s c
      | ExpSign \<Rightarrow> stateESign s c
      | Exp0 \<Rightarrow> if isDigit c then Some (s, False) else stateEndValue s c
      | Lit l \<Rightarrow>
          (case l of
             [] \<Rightarrow> None
           | d # ds \<Rightarrow> if c = d then goTo (if ds = [] then EndValue else Lit ds) s else None))"

text \<open>\<open>eof\<close>: whether the input so far is one complete value.\<close>

definition scan_eof :: "scanner \<Rightarrow> bool" where
  "scan_eof s = (sc_endTop s \<or> (case scan_step s (CHR '' '') of None \<Rightarrow> False | Some (s', _) \<Rightarrow> sc_endTop s'))"

fun scan_all :: "scanner \<Rightarrow> string \<Rightarrow> scanner option" where
  "scan_all s [] = Some s"
| "scan_all s (c # cs) = (case scan_step s c of None \<Rightarrow> None | Some (s', _) \<Rightarrow> scan_all s' cs)"

definition checkValid :: "string \<Rightarrow> bool" where
  "checkValid data = (case scan_all newScanner data of None \<Rightarrow> False | Some s \<Rightarrow> scan_eof s)"

text \<open>
  \<open>appendCompact\<close> with HTML escaping: insignificant space is dropped, the bytes \<open>< > &\<close> and the
  two line separators are escaped. The second argument counts bytes of a separator that are
  already written.
\<close>

fun compactLoop :: "scanner \<Rightarrow> nat \<Rightarrow> string \<Rightarrow> string option" where
  "compactLoop s skip [] = (if scan_eof s then Some [] else None)"
| "compactLoop s skip (c # cs) =
     (case scan_step s c of
        None \<Rightarrow> None
      | Some (s', space) \<Rightarrow>
         (let sep = (skip = 0 \<and> lineSep (c # cs));
              out = (if space \<or> skip > 0 then []
                     else if htmlUnsafe c then escapeU00 c
                     else if sep then escapeSep (c # cs)
                     else [c])
          in map_option (\<lambda>rest. out @ rest) (compactLoop s' (if sep then 2 else skip - 1) cs)))"

definition compact :: "string \<Rightarrow> string option" where
  "compact src = compactLoop newScanner 0 src"


subsection \<open>Objects of raw values\<close>

text \<open>A map from strings to raw values: an association list with distinct keys.\<close>

type_synonym RawObject = "(string \<times> string) list"

fun marshalFields :: "RawObject \<Rightarrow> string list option" where
  "marshalFields [] = Some []"
| "marshalFields ((k, raw) # rest) =
     (case compact raw of
        None \<Rightarrow> None
      | Some v \<Rightarrow> map_option (\<lambda>fs. (MarshalString k @ '':'' @ v) # fs) (marshalFields rest))"

definition MarshalRawObject :: "RawObject \<Rightarrow> string option" where
  "MarshalRawObject m =
     map_option (\<lambda>fs. ''{'' @ joinWith (CHR '','') fs @ ''}'') (marshalFields (sort_key fst m))"

lemma compactLoop_Some_iff:
  "compactLoop s skip cs \<noteq> None \<longleftrightarrow> (case scan_all s cs of None \<Rightarrow> False | Some s' \<Rightarrow> scan_eof s')"
proof (induction cs arbitrary: s skip)
  case (Cons c cs)
  show ?case
  proof (cases "scan_step s c")
    case (Some sb)
    obtain s' sp where "sb = (s', sp)" by (cases sb)
    with Some Cons [of s' 2] Cons [of s' "skip - 1"] show ?thesis by (simp add: Let_def)
  qed simp
qed simp

lemma compact_Some_iff: "compact raw \<noteq> None \<longleftrightarrow> checkValid raw"
  by (simp only: compact_def checkValid_def compactLoop_Some_iff)

lemma marshalFields_Some_iff: "marshalFields m \<noteq> None \<longleftrightarrow> (\<forall>(k, raw)\<in>set m. checkValid raw)"
proof (induction m rule: marshalFields.induct)
  case (2 k raw rest)
  then show ?case using compact_Some_iff [of raw] by (cases "compact raw") auto
qed simp

lemma MarshalRawObject_Some_iff: "MarshalRawObject m \<noteq> None \<longleftrightarrow> (\<forall>(k, raw)\<in>set m. checkValid raw)"
  using marshalFields_Some_iff [of "sort_key fst m"] by (simp add: MarshalRawObject_def)

text \<open>A quoted string is a JSON value.\<close>

lemma scan_all_append: "scan_all s (xs @ ys) = (case scan_all s xs of None \<Rightarrow> None | Some s' \<Rightarrow> scan_all s' ys)"
  by (induction xs arbitrary: s) (auto split: option.splits)

lemma hexDigit_isHex: "isHex (hexDigit n)"
proof -
  have "n mod 16 < 16" by simp
  moreover have "\<forall>i<16. isHex (''0123456789abcdef'' ! i)"
    by (simp add: All_less_Suc isHex_def isDigit_def numeral_eq_Suc)
  ultimately show ?thesis by (simp add: hexDigit_def)
qed

text \<open>A run in which every byte is significant: no step reports insignificant space.\<close>

fun tightRun :: "scanner \<Rightarrow> string \<Rightarrow> scanner option" where
  "tightRun s [] = Some s"
| "tightRun s (c # cs) = (case scan_step s c of Some (s', False) \<Rightarrow> tightRun s' cs | _ \<Rightarrow> None)"

lemma tightRun_append: "tightRun s (xs @ ys) = (case tightRun s xs of None \<Rightarrow> None | Some s' \<Rightarrow> tightRun s' ys)"
  by (induction xs arbitrary: s) (auto split: option.splits prod.splits bool.splits)

lemma tightRun_scan_all: "tightRun s cs = Some s' \<Longrightarrow> scan_all s cs = Some s'"
  by (induction cs arbitrary: s) (auto split: option.splits prod.splits bool.splits)

abbreviation inString :: "parseState list \<Rightarrow> bool \<Rightarrow> nat \<Rightarrow> scanner" where
  "inString ps e L \<equiv> \<lparr>sc_step = InString, sc_parseState = ps, sc_endTop = e, sc_limit = L\<rparr>"

lemma tight_plain: "32 \<le> byte c \<Longrightarrow> byte c \<noteq> 34 \<Longrightarrow> byte c \<noteq> 92 \<Longrightarrow> tightRun (inString ps e L) [c] = Some (inString ps e L)"
  by (simp add: scan_step_def)

lemma tight_plains:
  "list_all (\<lambda>c. 32 \<le> byte c \<and> byte c \<noteq> 34 \<and> byte c \<noteq> 92) cs \<Longrightarrow> tightRun (inString ps e L) cs = Some (inString ps e L)"
  by (induction cs) (auto simp: scan_step_def)

lemma tight_escape_u:
  "isHex a \<Longrightarrow> isHex b \<Longrightarrow> isHex c \<Longrightarrow> isHex d \<Longrightarrow>
     tightRun (inString ps e L) (CHR 0x5C # CHR ''u'' # a # b # c # d # rest) = tightRun (inString ps e L) rest"
  by (simp add: scan_step_def goTo_def numeral_3_eq_3)

lemma tight_quoteByte: "tightRun (inString ps e L) (quoteByte c) = Some (inString ps e L)"
proof -
  have "isHex CHR ''0''" by (simp add: isHex_def isDigit_def)
  then have "tightRun (inString ps e L) (escapeU00 c) = Some (inString ps e L)"
    by (simp add: escapeU00_def tight_escape_u hexDigit_isHex del: tightRun.simps(2))
  then show ?thesis
    by (auto simp: quoteByte_def scan_step_def goTo_def)
qed

lemma runeLen_high:
  assumes "128 \<le> byte c"
  shows "\<forall>x\<in>set (take (runeLen (c # cs)) (c # cs)). 128 \<le> byte x"
  using assms by (auto simp: contByte_def take_Cons' split: list.splits if_splits)

lemma tight_quoteRest: "tightRun (inString ps e L) (quoteRest s) = Some (inString ps e L)"
proof (induction s rule: quoteRest.induct)
  case (2 c cs)
  have hex: "isHex CHR ''2''" "isHex CHR ''0''" "isHex CHR ''f''" "isHex CHR ''d''"
    by (simp_all add: isHex_def isDigit_def)
  consider "byte c < 128" | "128 \<le> byte c" "runeLen (c # cs) = 0"
    | "128 \<le> byte c" "runeLen (c # cs) \<noteq> 0" "lineSep (c # cs)"
    | "128 \<le> byte c" "runeLen (c # cs) \<noteq> 0" "\<not> lineSep (c # cs)"
    by linarith
  then show ?case
  proof cases
    case 1
    with 2 show ?thesis by (simp add: tightRun_append tight_quoteByte)
  next
    case 2
    with "2.IH"(2) hex show ?thesis
      by (simp add: tight_escape_u del: tightRun.simps(2) runeLen.simps)
  next
    case 3
    with "2.IH"(3) hex show ?thesis
      by (simp add: escapeSep_def tight_escape_u hexDigit_isHex del: tightRun.simps(2) runeLen.simps)
  next
    case 4
    have "tightRun (inString ps e L) (take (runeLen (c # cs)) (c # cs)) = Some (inString ps e L)"
      by (rule tight_plains) (use runeLen_high [OF 4(1), of cs] in \<open>force simp: list_all_iff\<close>)
    with 4 "2.IH"(4) show ?thesis by (simp add: tightRun_append del: runeLen.simps)
  qed
qed simp

text \<open>A complete value without insignificant space.\<close>

definition tight :: "nat \<Rightarrow> string \<Rightarrow> bool" where
  "tight L v \<longleftrightarrow> (case tightRun (newScanner\<lparr>sc_limit := L\<rparr>) v of None \<Rightarrow> False | Some s \<Rightarrow> scan_eof s)"

lemma MarshalString_tight: "tight L (MarshalString s)"
  by (simp add: tight_def MarshalString_def newScanner_def scan_step_def stateBeginValue_def
      isSpace_def goTo_def tightRun_append tight_quoteRest scan_eof_def stateEndValue_def stateEndTop_def)

lemma tight_checkValid: "tight maxNestingDepth v \<Longrightarrow> checkValid v"
  by (auto simp: tight_def checkValid_def newScanner_def dest: tightRun_scan_all split: option.splits)

lemma MarshalString_valid: "checkValid (MarshalString s)"
  by (rule tight_checkValid [OF MarshalString_tight])

end
