(* ===== verification/Proxy.thy ===== *)
theory Proxy
  imports Relay Json
begin

text \<open>
  \<^verbatim>\<open>internal/router/proxy.go\<close>: one client request against the configured routes.

  \<open>Serve\<close> is the whole method, from the first reservation to the last release. What it does
  to the shared state, the response writer and the upstream side is threaded through the
  record \<open>world\<close>; \<open>w_Trace\<close> records the upstream requests, the closing of response bodies and
  the log messages. The outcomes of network operations, the cancellation of the client's
  context, clock readings and the acceptance of writes are fields of \<open>env\<close>, indexed by the
  number of the attempt. The proxy and the state share one metrics object (\<open>cli.runServe\<close>
  passes the same pointer to both), so \<open>p.metrics\<close> is \<open>st_metrics\<close>.
\<close>

subsection \<open>Errors and statuses\<close>

definition StatusClientClosed :: int where "StatusClientClosed = 499"

record APIError =
  ae_Status :: int
  ae_Message :: string
  ae_Type :: string
  ae_Code :: string

definition errUnknownAlias :: APIError where
  "errUnknownAlias = \<lparr>ae_Status = StatusNotFound, ae_Message = ''model alias not found'',
     ae_Type = ''invalid_request_error'', ae_Code = ''model_not_found''\<rparr>"

definition errNoRoute :: APIError where
  "errNoRoute = \<lparr>ae_Status = StatusServiceUnavailable, ae_Message = ''no healthy backend route available'',
     ae_Type = ''router_unavailable'', ae_Code = ''no_route_available''\<rparr>"

definition errUpstreamTimeout :: APIError where
  "errUpstreamTimeout = \<lparr>ae_Status = StatusGatewayTimeout, ae_Message = ''upstream request timed out'',
     ae_Type = ''router_upstream_error'', ae_Code = ''upstream_timeout''\<rparr>"

definition errUpstreamUnavailable :: APIError where
  "errUpstreamUnavailable = \<lparr>ae_Status = StatusBadGateway, ae_Message = ''upstream backend unavailable'',
     ae_Type = ''router_upstream_error'', ae_Code = ''upstream_unavailable''\<rparr>"

definition errStreamUnsupported :: APIError where
  "errStreamUnsupported = \<lparr>ae_Status = StatusInternalServerError, ae_Message = ''router cannot stream this response'',
     ae_Type = ''router_error'', ae_Code = ''streaming_unsupported''\<rparr>"

definition retryableStatus :: "int \<Rightarrow> string option" where
  "retryableStatus status =
     (if status = StatusTooManyRequests then Some ReasonStatus429
      else if status = StatusBadGateway then Some ReasonStatus502
      else if status = StatusServiceUnavailable then Some ReasonStatus503
      else if status = StatusGatewayTimeout then Some ReasonStatus504
      else None)"

text \<open>
  An error of an attempt, by what the router asks of it: \<open>errors.Is(err, context.Canceled)\<close>,
  \<open>errors.Is(err, context.DeadlineExceeded)\<close>, \<open>os.IsTimeout(err)\<close>, and the answer of the first
  error in the chain that has a \<open>Timeout\<close> method, if any.
\<close>

record goError =
  er_Canceled :: bool
  er_DeadlineExceeded :: bool
  er_osTimeout :: bool
  er_asTimeout :: "bool option"

definition isCanceled :: "bool \<Rightarrow> goError \<Rightarrow> bool" where
  "isCanceled ctxErr err \<longleftrightarrow> er_Canceled err \<or> ctxErr"

definition isTimeout :: "goError \<Rightarrow> bool" where
  "isTimeout err =
     (if er_DeadlineExceeded err \<or> er_osTimeout err then True
      else (case er_asTimeout err of None \<Rightarrow> False | Some t \<Rightarrow> t))"

text \<open>The error of \<open>json.Marshal\<close>: neither a cancellation nor a timeout.\<close>

definition marshalError :: goError where
  "marshalError = \<lparr>er_Canceled = False, er_DeadlineExceeded = False, er_osTimeout = False, er_asTimeout = None\<rparr>"


subsection \<open>Upstream requests and the world of a request\<close>

record UpstreamRequest =
  uq_Method :: string
  uq_URL :: URL
  uq_Header :: Header
  uq_Body :: string
  uq_ContentLength :: int
  uq_Client :: HttpClient

record UpstreamResponse =
  up_StatusCode :: int
  up_Header :: Header
  up_Body :: "bodyEvent list"

record env =
  env_NewRequest :: "UpstreamRequest \<Rightarrow> goError option"
  env_Do :: "nat \<Rightarrow> UpstreamRequest \<Rightarrow> goError + UpstreamResponse"
  env_CtxErr :: "nat \<Rightarrow> bool"
  env_Elapsed :: "nat \<Rightarrow> int"
  env_Now :: "nat \<Rightarrow> int"
  env_Write :: writeOracle

datatype event =
    EvAttempt Route UpstreamRequest
  | EvBodyClosed Route nat
  | EvLog string

record world =
  w_State :: State
  w_Writer :: ResponseWriter
  w_Trace :: "event list"

definition onState :: "(State \<Rightarrow> State) \<Rightarrow> world \<Rightarrow> world" where
  "onState f w = w\<lparr>w_State := f (w_State w)\<rparr>"

definition record_event :: "event \<Rightarrow> world \<Rightarrow> world" where
  "record_event e w = w\<lparr>w_Trace := w_Trace w @ [e]\<rparr>"

definition encodeWithModel :: "RawObject \<Rightarrow> string \<Rightarrow> string option" where
  "encodeWithModel payload upstreamModel =
     (let rewritten = AList.update ''model'' (MarshalString upstreamModel) payload
      in MarshalRawObject rewritten)"

definition attempt :: "env \<Rightarrow> Header \<Rightarrow> nat \<Rightarrow> Route \<Rightarrow> RawObject \<Rightarrow> world \<Rightarrow> (goError + UpstreamResponse) \<times> world" where
  "attempt e clientHeader n route payload w =
     (case encodeWithModel payload (r_UpstreamModel route) of
        None \<Rightarrow> (Inl marshalError, w)
      | Some body \<Rightarrow>
         (let fresh = \<lparr>uq_Method = ''POST'', uq_URL = ChatURL (r_Backend route), uq_Header = [], uq_Body = body,
                uq_ContentLength = int (length body), uq_Client = b_client (r_Backend route)\<rparr>
          in case env_NewRequest e fresh of
               Some err \<Rightarrow> (Inl err, w)
             | None \<Rightarrow>
                (let upstream = fresh\<lparr>uq_Header := setUpstreamHeaders [] clientHeader route\<rparr>
                 in (env_Do e n upstream, record_event (EvAttempt route upstream) w))))"

definition observe :: "Route \<Rightarrow> string \<Rightarrow> int \<Rightarrow> world \<Rightarrow> world" where
  "observe route result elapsed =
     onState (emit (ObserveAttempt (b_Name (r_Backend route)) (r_Alias route) result elapsed))"

text \<open>\<open>p.metrics.Failover\<close>, without a check for a nil metrics object.\<close>

definition countFailover :: "string \<Rightarrow> string \<Rightarrow> world \<Rightarrow> world panics" where
  "countFailover alias reason w =
     (case st_metrics (w_State w) of
        None \<Rightarrow> None
      | Some _ \<Rightarrow> Some (onState (emit (Failover alias reason)) w))"


subsection \<open>Forwarding a response\<close>

text \<open>What \<open>Serve\<close> and \<open>forward\<close> return: a status and possibly an error, unless they panic.\<close>

datatype result = Returned int "APIError option" | Panicked

definition closeBody :: "Route \<Rightarrow> Body \<Rightarrow> world \<Rightarrow> world" where
  "closeBody route b = record_event (EvBodyClosed route (bodyCloses (BodyClose b)))"

definition forward :: "env \<Rightarrow> nat \<Rightarrow> UpstreamResponse \<Rightarrow> Route \<Rightarrow> string \<Rightarrow> world \<Rightarrow> result \<times> world" where
  "forward e n resp route alias w =
     (let body = newIdleTimeoutReadCloser (env_Now e n) (b_ResponseIdleTimeout (r_Backend route));
          streaming = isEventStream (up_Header resp);
          flushable = rw_Flusher (w_Writer w)
      in if streaming \<and> \<not> flushable
         then (Returned 0 (Some errStreamUnsupported),
               closeBody route body (record_event (EvLog ''downstream writer cannot flush a stream'') w))
         else
          (let rw1 = (w_Writer w)\<lparr>rw_Header := copyResponseHeaders (rw_Header (w_Writer w)) (up_Header resp)\<rparr>
           in case WriteHeader rw1 (up_StatusCode resp) of
                None \<Rightarrow> (Panicked, closeBody route body (w\<lparr>w_Writer := rw1\<rparr>))
              | Some rw2 \<Rightarrow>
                 (let sink = (if streaming then flushWriter_Write (env_Write e) else ResponseWrite (env_Write e));
                      (rw3, body', err) = relay sink rw2 body (up_Body resp);
                      w1 = w\<lparr>w_Writer := rw3\<rparr>;
                      w2 = (case err of
                              None \<Rightarrow> w1
                            | Some ErrResponseIdleTimeout \<Rightarrow> record_event (EvLog ''upstream response idle timeout'') w1
                            | Some _ \<Rightarrow> record_event (EvLog ''response relay failed'') w1)
                  in (Returned (up_StatusCode resp) None, closeBody route body' w2))))"


subsection \<open>The request loop\<close>

text \<open>
  One round of the loop in \<open>Serve\<close>: the request returns (\<open>Inl\<close>) or goes on with another
  route (\<open>Inr\<close>). \<open>attempted\<close> already contains the current route.
\<close>

definition serve_failed ::
  "env \<Rightarrow> string \<Rightarrow> nat \<Rightarrow> Route set \<Rightarrow> Route \<Rightarrow> goError \<Rightarrow> world \<Rightarrow> (result + Route) \<times> world" where
  "serve_failed e alias n attempted route err w =
     (if isCanceled (env_CtxErr e n) err
      then (Inl (Returned StatusClientClosed None),
            observe route ResultCanceled (env_Elapsed e n) (onState (\<lambda>s. Release s (Some route)) w))
      else
       (let w1 = onState (\<lambda>s. Release (SetHealth s (b_Name (r_Backend route)) False) (Some route)) w;
            (reason, final, result) =
              (if isTimeout err then (ReasonTimeout, errUpstreamTimeout, ResultTimeout)
               else (ReasonTransportError, errUpstreamUnavailable, ResultTransportError));
            w2 = record_event (EvLog ''upstream attempt failed'') (observe route result (env_Elapsed e n) w1)
        in case Reserve (w_State w2) alias attempted of
             None \<Rightarrow> (Inl Panicked, w2)
           | Some (Inl _, s) \<Rightarrow> (Inl (Returned 0 (Some final)), w2\<lparr>w_State := s\<rparr>)
           | Some (Inr next, s) \<Rightarrow>
              (case countFailover alias reason (w2\<lparr>w_State := s\<rparr>) of
                 None \<Rightarrow> (Inl Panicked, w2\<lparr>w_State := s\<rparr>)
               | Some w3 \<Rightarrow> (Inr next, w3))))"

definition serve_final :: "env \<Rightarrow> string \<Rightarrow> nat \<Rightarrow> Route \<Rightarrow> UpstreamResponse \<Rightarrow> world \<Rightarrow> (result + Route) \<times> world" where
  "serve_final e alias n route resp w =
     (case forward e n resp route alias w of
        (Panicked, w1) \<Rightarrow> (Inl Panicked, w1)
      | (Returned status apiErr, w1) \<Rightarrow>
          (Inl (Returned status apiErr), onState (\<lambda>s. Release s (Some route)) w1))"

definition serve_answered ::
  "env \<Rightarrow> string \<Rightarrow> nat \<Rightarrow> Route set \<Rightarrow> Route \<Rightarrow> UpstreamResponse \<Rightarrow> world \<Rightarrow> (result + Route) \<times> world" where
  "serve_answered e alias n attempted route resp w =
     (let w1 = observe route ResultResponse (env_Elapsed e n) w
      in case retryableStatus (up_StatusCode resp) of
           None \<Rightarrow> serve_final e alias n route resp w1
         | Some reason \<Rightarrow>
            (case SwapReservation (w_State w1) alias (Some route) attempted of
               None \<Rightarrow> (Inl Panicked, w1)
             | Some (Inl _, s) \<Rightarrow> serve_final e alias n route resp (w1\<lparr>w_State := s\<rparr>)
             | Some (Inr next, s) \<Rightarrow>
                (let w2 = record_event (EvBodyClosed route 1) (w1\<lparr>w_State := s\<rparr>)
                 in case countFailover alias reason w2 of
                      None \<Rightarrow> (Inl Panicked, w2)
                    | Some w3 \<Rightarrow> (Inr next, record_event (EvLog ''failing over'') w3))))"

definition serve_round ::
  "env \<Rightarrow> Header \<Rightarrow> string \<Rightarrow> RawObject \<Rightarrow> nat \<Rightarrow> Route set \<Rightarrow> Route \<Rightarrow> world \<Rightarrow> (result + Route) \<times> world" where
  "serve_round e clientHeader alias payload n attempted route w =
     (case attempt e clientHeader n route payload w of
        (Inl err, w1) \<Rightarrow> serve_failed e alias n attempted route err w1
      | (Inr resp, w1) \<Rightarrow> serve_answered e alias n attempted route resp w1)"

subsection \<open>Selection always makes progress\<close>

text \<open>These hold in every state, well formed or not, so that the loop terminates in all of them.\<close>

lemma selectLoop_fresh:
  "selectLoop s att routes best = Some (Some r) \<Longrightarrow> (r \<in> set routes \<and> r \<notin> att) \<or> (\<exists>k. best = Some (r, k))"
proof (induction routes arbitrary: best)
  case (Cons route rest)
  show ?case
  proof (cases "selectLoop s att rest best = Some (Some r)")
    case True
    with Cons.IH show ?thesis by auto
  next
    case False
    with Cons.prems obtain k where "route \<notin> att" "selectLoop s att rest (Some (route, k)) = Some (Some r)"
      by (auto split: if_splits option.splits prod.splits)
    with Cons.IH [of "Some (route, k)"] show ?thesis by auto
  qed
qed auto

lemma selectLocked_fresh:
  "selectLocked s al att = Some (Some r) \<Longrightarrow> r \<in> set (as_routes al) \<and> r \<notin> att"
  unfolding selectLocked_def by (drule selectLoop_fresh) simp

lemma Reserve_fresh:
  assumes "Reserve s a att = Some (Inr r, s')"
  shows "st_aliases s' = st_aliases s \<and> r \<notin> att \<and> (\<exists>al. st_aliases s a = Some al \<and> r \<in> set (as_routes al))"
  using assms by (auto simp: Reserve_def Let_def dest: selectLocked_fresh split: option.splits)

lemma SwapReservation_fresh:
  assumes "SwapReservation s a cur att = Some (Inr r, s')"
  shows "st_aliases s' = st_aliases s \<and> r \<notin> att \<and> (\<exists>al. st_aliases s a = Some al \<and> r \<in> set (as_routes al))"
  using assms
  by (auto simp: SwapReservation_def SwapReservation_locked_def Let_def publish_def dest: selectLocked_fresh
      split: option.splits if_splits)

lemma aliases_Release [simp]: "st_aliases (Release s r) = st_aliases s"
  by (simp add: Release_def Release_locked_def publish_def Let_def split: option.splits)

lemma aliases_SetHealth [simp]: "st_aliases (SetHealth s n h) = st_aliases s"
  by (simp add: SetHealth_def SetHealth_locked_def publish_def split: option.splits)

lemma world_simps [simp]:
  "w_State (onState f w) = f (w_State w)" "w_Writer (onState f w) = w_Writer w" "w_Trace (onState f w) = w_Trace w"
  "w_State (record_event ev w) = w_State w" "w_Writer (record_event ev w) = w_Writer w"
  "w_Trace (record_event ev w) = w_Trace w @ [ev]"
  "w_State (observe r t el w) = emit (ObserveAttempt (routeBackend r) (r_Alias r) t el) (w_State w)"
  "w_Writer (observe r t el w) = w_Writer w" "w_Trace (observe r t el w) = w_Trace w"
  by (simp_all add: onState_def record_event_def observe_def)

lemma attempt_frame:
  "attempt e h n route payload w = (res, w') \<Longrightarrow> w_State w' = w_State w \<and> w_Writer w' = w_Writer w"
  by (auto simp: attempt_def Let_def split: option.splits)

lemma countFailover_Some:
  "countFailover al reason w = Some w' \<Longrightarrow>
     w' = onState (emit (Failover al reason)) w \<and> st_metrics (w_State w) \<noteq> None"
  by (auto simp: countFailover_def split: option.splits)

lemma serve_final_returns: "fst (serve_final e alias n route resp w) \<noteq> Inr next"
  by (auto simp: serve_final_def split: prod.splits result.splits)

lemma serve_failed_next:
  assumes "serve_failed e alias n att route err w = (Inr next, w')"
  shows "st_aliases (w_State w') = st_aliases (w_State w) \<and> next \<notin> att \<and>
    (\<exists>al. st_aliases (w_State w) alias = Some al \<and> next \<in> set (as_routes al))"
  using assms
  by (auto simp: serve_failed_def Let_def split: if_splits option.splits sum.splits
      dest!: Reserve_fresh countFailover_Some)

lemma serve_answered_next:
  assumes "serve_answered e alias n att route resp w = (Inr next, w')"
  shows "st_aliases (w_State w') = st_aliases (w_State w) \<and> next \<notin> att \<and>
    (\<exists>al. st_aliases (w_State w) alias = Some al \<and> next \<in> set (as_routes al))"
  using assms serve_final_returns
  by (auto simp: serve_answered_def Let_def split: option.splits sum.splits
      dest!: SwapReservation_fresh countFailover_Some) (metis fst_conv)+

lemma serve_round_next:
  assumes "serve_round e h alias payload n att route w = (Inr next, w')"
  shows "st_aliases (w_State w') = st_aliases (w_State w) \<and> next \<notin> att \<and>
    (\<exists>al. st_aliases (w_State w) alias = Some al \<and> next \<in> set (as_routes al))"
  using assms serve_failed_next serve_answered_next
  by (fastforce simp: serve_round_def split: prod.splits sum.splits dest!: attempt_frame)

definition aliasRoutes :: "State \<Rightarrow> string \<Rightarrow> Route set" where
  "aliasRoutes s alias = (case st_aliases s alias of None \<Rightarrow> {} | Some al \<Rightarrow> set (as_routes al))"

lemma finite_aliasRoutes: "finite (aliasRoutes s alias)"
  by (simp add: aliasRoutes_def split: option.splits)

function Serve_loop ::
  "env \<Rightarrow> Header \<Rightarrow> string \<Rightarrow> RawObject \<Rightarrow> nat \<Rightarrow> Route set \<Rightarrow> Route \<Rightarrow> world \<Rightarrow> result \<times> world" where
  "Serve_loop e clientHeader alias payload n attempted route w =
     (case serve_round e clientHeader alias payload n (insert route attempted) route w of
        (Inl res, w1) \<Rightarrow> (res, w1)
      | (Inr next, w1) \<Rightarrow> Serve_loop e clientHeader alias payload (Suc n) (insert route attempted) next w1)"
  by pat_completeness auto
termination
proof (relation "measure (\<lambda>(e, h, alias, payload, n, att, route, w). card (aliasRoutes (w_State w) alias - insert route att))",
    goal_cases)
  case 1
  then show ?case by simp
next
  case (2 e h al payload n att route w x w1 nxt)
  then have "serve_round e h al payload n (insert route att) route w = (Inr nxt, w1)" by simp
  from serve_round_next [OF this] have "aliasRoutes (w_State w1) al = aliasRoutes (w_State w) al"
    "nxt \<in> aliasRoutes (w_State w) al" "nxt \<notin> insert route att"
    by (auto simp: aliasRoutes_def)
  then show ?case
    using card_Diff_insert_less [OF finite_aliasRoutes, of nxt "w_State w" al "insert route att"] by simp
qed

declare Serve_loop.simps [simp del]

definition Serve :: "env \<Rightarrow> Header \<Rightarrow> string \<Rightarrow> RawObject \<Rightarrow> world \<Rightarrow> result \<times> world" where
  "Serve e clientHeader alias payload w =
     (case Reserve (w_State w) alias {} of
        None \<Rightarrow> (Panicked, w)
      | Some (Inl ErrUnknownAlias, s) \<Rightarrow> (Returned 0 (Some errUnknownAlias), w\<lparr>w_State := s\<rparr>)
      | Some (Inl ErrNoRoute, s) \<Rightarrow> (Returned 0 (Some errNoRoute), w\<lparr>w_State := s\<rparr>)
      | Some (Inr route, s) \<Rightarrow> Serve_loop e clientHeader alias payload 0 {} route (w\<lparr>w_State := s\<rparr>))"

end
