(* ===== verification/Serving.thy ===== *)
theory Serving
  imports Proxy
begin

text \<open>
  What \<open>Serve\<close> of \<^verbatim>\<open>internal/router/proxy.go\<close> guarantees: reservations are given back
  unless it panics, for which there is one cause only, every route is tried at most once, the client gets the answer of one backend only, errors have
  the documented meaning, and only transport failures take a backend out of selection.
\<close>

subsection \<open>The published operations, by their effect on loads\<close>

text \<open>One more unit of load on a backend.\<close>

definition bump :: "string \<Rightarrow> (string \<Rightarrow> int) \<Rightarrow> string \<Rightarrow> int" where
  "bump b l = l(b := l b + 1)"

text \<open>What never changes while a request is served.\<close>

definition steady :: "State \<Rightarrow> State \<Rightarrow> bool" where
  "steady s s' \<longleftrightarrow> invState s' \<and> same_shape s s'"

lemma steady_refl: "invState s \<Longrightarrow> steady s s"
  by (simp add: steady_def)

lemma steady_trans: "steady s t \<Longrightarrow> steady t u \<Longrightarrow> steady s u"
  by (auto simp: steady_def intro: same_shape_trans)

lemma steady_inv: "steady s t \<Longrightarrow> invState t"
  by (simp add: steady_def)

lemma steady_aliases: "steady s t \<Longrightarrow> st_aliases t = st_aliases s"
  by (simp add: steady_def same_shapeD)

lemma steady_metrics: "steady s t \<Longrightarrow> st_metrics t = None \<longleftrightarrow> st_metrics s = None"
  by (simp add: steady_def same_shape_def)

lemma same_shape_emitI: "same_shape s t \<Longrightarrow> same_shape s (emit cs t)"
  by (erule same_shape_trans [OF _ same_shape_emit])

lemma steady_emit: "steady s t \<Longrightarrow> steady s (emit cs t)"
  by (simp add: steady_def same_shape_emitI)

lemma invState_wf: "invState s \<Longrightarrow> wf_state s"
  by (simp add: invState_def)

lemma Release_effect:
  assumes inv: "invState s" and held: "load s = bump (routeBackend r) l" and nonneg: "0 \<le> l (routeBackend r)"
  shows "steady s (Release s (Some r))" and "load (Release s (Some r)) = l"
    and "usable (Release s (Some r)) = usable s"
proof -
  from inv have wf: "wf_state s" by (rule invState_wf)
  have pos: "0 < load s (routeBackend r)" using held nonneg by (simp add: bump_def)
  have "steady s (Release s (Some r)) \<and> load (Release s (Some r)) = l \<and> usable (Release s (Some r)) = usable s"
    using wf
  proof (cases rule: Release_locked_cases [of s "Some r"])
    case (freed r' bs s')
    then have "usable s' = usable s" by (auto simp: usable_def fun_eq_iff)
    moreover have "load s' = l"
      using freed held by (simp add: load_upd load_eq [OF freed(2), symmetric] bump_def)
    ultimately show ?thesis
      using freed Release_locked_inv [OF inv freed(8)]
      by (simp add: Release_def steady_def same_shape_emitI)
  qed (use pos in \<open>auto simp: load_def\<close>)
  then show "steady s (Release s (Some r))" and "load (Release s (Some r)) = l"
    and "usable (Release s (Some r)) = usable s" by simp_all
qed

lemma SetHealth_effect:
  assumes inv: "invState s"
  shows "steady s (SetHealth s n h)" and "load (SetHealth s n h) = load s"
    and "usable (SetHealth s n h) b = (if b = n \<and> bsOf s n \<noteq> None then h else usable s b)"
proof -
  from inv have wf: "wf_state s" by (rule invState_wf)
  obtain t cs where t: "SetHealth_locked s n h = (t, cs)" by fastforce
  then have eq: "SetHealth s n h = emit cs t" by (simp add: SetHealth_def)
  show "steady s (SetHealth s n h)"
    using SetHealth_locked_shape [OF wf t] SetHealth_locked_inv [OF inv t] unfolding eq
    by (simp add: steady_def same_shape_emitI)
  show "load (SetHealth s n h) = load s"
    using rs.health_frame [OF wf t] unfolding eq by simp
  show "usable (SetHealth s n h) b = (if b = n \<and> bsOf s n \<noteq> None then h else usable s b)"
    using rs.health_recorded [OF wf t] unfolding eq by simp
qed

lemma Reserve_effect:
  assumes inv: "invState s" and res: "Reserve s a att = Some (Inr r, s')"
  shows "steady s s'" and "load s' = bump (routeBackend r) (load s)" and "usable s' = usable s"
    and "r \<in> aliasRoutes s a" and "r \<notin> att" and "usable s (routeBackend r)"
proof -
  from inv have wf: "wf_state s" by (rule invState_wf)
  note g = Reserve_granted [OF wf res]
  show "steady s s'" using g(1) Reserve_inv [OF inv res] by (simp add: steady_def)
  show "load s' = bump (routeBackend r) (load s)" using g(3) by (simp add: bump_def)
  show "r \<in> aliasRoutes s a" using g(4) by (auto simp: aliasRoutes_def)
  show "r \<notin> att" "usable s (routeBackend r)" using eligible_below_limit [OF g(2)] by simp_all
  show "usable s' = usable s"
    using wf by (cases rule: Reserve_cases [of s a att]) (use res in \<open>auto simp: usable_def fun_eq_iff\<close>)
qed

lemma Swap_effect:
  assumes inv: "invState s" and held: "load s = bump (routeBackend c) l"
    and sw: "SwapReservation s a (Some c) att = Some (Inr r, s')"
  shows "steady s s'" and "load s' = bump (routeBackend r) l" and "usable s' = usable s"
    and "r \<in> aliasRoutes s a" and "r \<notin> att" and "usable s (routeBackend r)"
proof -
  from inv have wf: "wf_state s" by (rule invState_wf)
  from sw obtain t cs where t: "SwapReservation_locked s a (Some c) att = Some (Inr r, t, cs)" and s': "s' = emit cs t"
    by (auto simp: SwapReservation_def)
  show "steady s s'"
    using SwapReservation_locked_shape [OF wf t] SwapReservation_locked_inv [OF inv t] unfolding s'
    by (simp add: steady_def same_shape_emitI)
  show "r \<in> aliasRoutes s a" "r \<notin> att" using SwapReservation_fresh [OF sw] by (auto simp: aliasRoutes_def)
  have "load t = bump (routeBackend r) l \<and> usable t = usable s \<and> usable s (routeBackend r)"
    using wf
  proof (cases rule: SwapReservation_locked_cases [of s a "Some c" att])
    case (moved cur cbs al freed r' sbs s'')
    then have eqs: "cur = c" "r' = r" "s'' = t" using t by auto
    have uf: "usable freed = usable s" using moved(3,5) by (auto simp: usable_def fun_eq_iff)
    have "usable t = usable freed" using moved(7,9) eqs by (auto simp: usable_def fun_eq_iff)
    moreover have lf: "load freed = l"
      using load_upd [OF moved(5)] load_eq [OF moved(3)] held eqs by (auto simp: bump_def)
    moreover have "load t = bump (routeBackend r) l"
      using load_upd [OF moved(9)] load_eq [OF moved(7)] eqs lf by (simp add: bump_def)
    moreover have "eligible freed att r" using first_min_in_set [OF moved(6)] eqs by auto
    ultimately show ?thesis using uf eligible_below_limit [of freed att r] by simp
  qed (use t in auto)
  then show "load s' = bump (routeBackend r) l" "usable s' = usable s" "usable s (routeBackend r)"
    unfolding s' by simp_all
qed

lemma Swap_total: "invState s \<Longrightarrow> SwapReservation s a cur att \<noteq> None"
  using rs.swap_total [OF invState_wf] by (simp add: SwapReservation_def)

lemma Swap_refused:
  assumes "invState s" and "SwapReservation s a cur att = Some (Inl e, s')"
  shows "s' = s"
proof -
  from assms(2) obtain t cs where t: "SwapReservation_locked s a cur att = Some (Inl e, t, cs)" and s': "s' = emit cs t"
    by (auto simp: SwapReservation_def)
  with invState_wf [OF assms(1)] have "t = s" "cs = []"
    by (auto elim!: SwapReservation_locked_cases [of s a cur att])
  with s' show ?thesis by (simp add: emit_def option.map_ident)
qed

subsection \<open>One round\<close>

text \<open>
  The route \<open>route\<close> is held: the load is one above \<open>l\<close>, which is what the load would be without
  this request.
\<close>

definition holding :: "(string \<Rightarrow> int) \<Rightarrow> Route \<Rightarrow> State \<Rightarrow> bool" where
  "holding l route s \<longleftrightarrow> invState s \<and> load s = bump (routeBackend route) l \<and> (\<forall>b. 0 \<le> l b)"

definition finalError :: "goError \<Rightarrow> APIError" where
  "finalError err = (if isTimeout err then errUpstreamTimeout else errUpstreamUnavailable)"

text \<open>Health after a failed attempt on a backend: that backend is out of selection.\<close>

definition quarantine :: "string \<Rightarrow> (string \<Rightarrow> bool) \<Rightarrow> string \<Rightarrow> bool" where
  "quarantine b u = u(b := False)"

lemma usable_quarantine:
  assumes "invState s"
  shows "usable (SetHealth s n False) = quarantine n (usable s)"
  using SetHealth_effect(3) [OF assms, of n False]
  by (auto simp: fun_eq_iff quarantine_def usable_def)

lemma failed_state:
  assumes "holding l route s"
  defines "s1 \<equiv> Release (SetHealth s (routeBackend route) False) (Some route)"
  shows "steady s s1" and "load s1 = l" and "usable s1 = quarantine (routeBackend route) (usable s)"
proof -
  from assms(1) have inv: "invState s" and ld: "load s = bump (routeBackend route) l" and nn: "\<forall>b. 0 \<le> l b"
    by (simp_all add: holding_def)
  note h = SetHealth_effect [OF inv, of "routeBackend route" False]
  from h(2) ld have ld1: "load (SetHealth s (routeBackend route) False) = bump (routeBackend route) l" by simp
  note r = Release_effect [OF steady_inv [OF h(1)] ld1]
  show "steady s s1" "load s1 = l" using r nn steady_trans [OF h(1)] unfolding s1_def by simp_all
  show "usable s1 = quarantine (routeBackend route) (usable s)"
    using r(3) nn usable_quarantine [OF inv] unfolding s1_def by simp
qed

lemma holding_emit: "holding l r s \<Longrightarrow> holding l r (emit cs s)"
  by (simp add: holding_def)

lemma holding_inv: "holding l r s \<Longrightarrow> invState s"
  by (simp add: holding_def)

lemma Reserve_total: "invState s \<Longrightarrow> Reserve s a att \<noteq> None"
  using rs.reserve_total [OF invState_wf] by simp

lemma Reserve_refused: "invState s \<Longrightarrow> Reserve s a att = Some (Inl e, s') \<Longrightarrow> s' = s"
  using rs.reserve_refused [OF invState_wf] by blast

text \<open>Everything a failed attempt can lead to.\<close>

lemma serve_failed_cases:
  assumes "holding l route (w_State w)" and "serve_failed e a n att route err w = (res, w')"
    and "st_metrics (w_State w) \<noteq> None"
  obtains (canceled) "isCanceled (env_CtxErr e n) err" "res = Inl (Returned StatusClientClosed None)"
      "steady (w_State w) (w_State w')" "load (w_State w') = l" "usable (w_State w') = usable (w_State w)"
      "w_Writer w' = w_Writer w" "w_Trace w' = w_Trace w"
  | (gave_up) "\<not> isCanceled (env_CtxErr e n) err" "res = Inl (Returned 0 (Some (finalError err)))"
      "steady (w_State w) (w_State w')" "load (w_State w') = l"
      "usable (w_State w') = quarantine (routeBackend route) (usable (w_State w))"
      "w_Writer w' = w_Writer w" "w_Trace w' = w_Trace w @ [EvLog ''upstream attempt failed'']"
  | (moved) nxt where "\<not> isCanceled (env_CtxErr e n) err" "res = Inr nxt" "nxt \<notin> att"
      "nxt \<in> aliasRoutes (w_State w) a" "routeBackend nxt \<noteq> routeBackend route"
      "steady (w_State w) (w_State w')" "holding l nxt (w_State w')"
      "usable (w_State w') = quarantine (routeBackend route) (usable (w_State w))"
      "w_Writer w' = w_Writer w" "w_Trace w' = w_Trace w @ [EvLog ''upstream attempt failed'']"
proof (cases "isCanceled (env_CtxErr e n) err")
  case True
  from assms(1) have "invState (w_State w)" "load (w_State w) = bump (routeBackend route) l" "0 \<le> l (routeBackend route)"
    by (simp_all add: holding_def)
  note r = Release_effect [OF this]
  from assms(2) True have "res = Inl (Returned StatusClientClosed None)"
      "w' = observe route ResultCanceled (env_Elapsed e n) (onState (\<lambda>s. Release s (Some route)) w)"
    by (simp_all add: serve_failed_def)
  with r True show ?thesis by (intro canceled) (simp_all add: steady_emit)
next
  case False
  define w1 where "w1 = onState (\<lambda>s. Release (SetHealth s (routeBackend route) False) (Some route)) w"
  define reason where "reason = (if isTimeout err then ReasonTimeout else ReasonTransportError)"
  define label where "label = (if isTimeout err then ResultTimeout else ResultTransportError)"
  define w2 where "w2 = record_event (EvLog ''upstream attempt failed'') (observe route label (env_Elapsed e n) w1)"
  note f = failed_state [OF assms(1)]
  from f have s2: "steady (w_State w) (w_State w2)" "load (w_State w2) = l"
      "usable (w_State w2) = quarantine (routeBackend route) (usable (w_State w))"
    by (simp_all add: w2_def w1_def steady_emit)
  have w2: "w_Writer w2 = w_Writer w" "w_Trace w2 = w_Trace w @ [EvLog ''upstream attempt failed'']"
    by (simp_all add: w2_def w1_def)
  have eq: "serve_failed e a n att route err w =
      (case Reserve (w_State w2) a att of
             None \<Rightarrow> (Inl Panicked, w2)
           | Some (Inl _, s) \<Rightarrow> (Inl (Returned 0 (Some (finalError err))), w2\<lparr>w_State := s\<rparr>)
           | Some (Inr next, s) \<Rightarrow>
              (case countFailover a reason (w2\<lparr>w_State := s\<rparr>) of
                 None \<Rightarrow> (Inl Panicked, w2\<lparr>w_State := s\<rparr>)
               | Some w3 \<Rightarrow> (Inr next, w3)))"
    using False unfolding serve_failed_def w2_def w1_def label_def reason_def finalError_def Let_def
    by (cases "isTimeout err") simp_all
  note inv2 = steady_inv [OF s2(1)]
  from Reserve_total [OF inv2] obtain r s where res: "Reserve (w_State w2) a att = Some (r, s)" by fastforce
  show ?thesis
  proof (cases r)
    case (Inl x)
    with Reserve_refused [OF inv2] res have "s = w_State w2" by blast
    with Inl eq assms(2) res False s2 w2 show ?thesis by (intro gave_up) auto
  next
    case (Inr nxt)
    with res have g: "Reserve (w_State w2) a att = Some (Inr nxt, s)" by simp
    note r = Reserve_effect [OF inv2 g]
    have "st_metrics s \<noteq> None" using steady_metrics [OF steady_trans [OF s2(1) r(1)]] assms(3) by simp
    then have out: "res = Inr nxt" "w' = onState (emit (Failover a reason)) (w2\<lparr>w_State := s\<rparr>)"
      using eq assms(2) g by (auto simp: countFailover_def)
    have "nxt \<in> aliasRoutes (w_State w) a" using r(4) steady_aliases [OF s2(1)] by (simp add: aliasRoutes_def)
    moreover have "routeBackend nxt \<noteq> routeBackend route" using r(6) s2(3) by (auto simp: quarantine_def)
    moreover have "holding l nxt s" using r(1,2) s2(2) assms(1) by (simp add: holding_def steady_def)
    ultimately show ?thesis using False out r s2 w2 steady_trans [OF s2(1) r(1)]
      by (intro moved [of nxt]) (simp_all add: steady_emit holding_emit)
  qed
qed

subsection \<open>Forwarding\<close>

text \<open>
  A status that ends a response: every one that is not informational, and 101, which switches
  protocols. The HTTP client of Go hands on no other informational response.
\<close>

definition finalStatus :: "int \<Rightarrow> bool" where
  "finalStatus code \<longleftrightarrow> 200 \<le> code \<or> code = 101"

text \<open>
  The client's writer after the response \<open>resp\<close> was sent: the body grew by a prefix of the
  upstream bytes, and if the response was not committed before and has a final status, the
  upstream status was committed with the filtered headers before any byte of the body;
  an event stream is flushed after every write.
\<close>

definition answered :: "UpstreamResponse \<Rightarrow> ResponseWriter \<Rightarrow> ResponseWriter \<Rightarrow> bool" where
  "answered resp rw rw' \<longleftrightarrow>
     (\<exists>k. rw_Body rw' = rw_Body rw @ take k (upstreamBytes (up_Body resp))) \<and>
     (rw_Status rw = None \<and> finalStatus (up_StatusCode resp) \<longrightarrow>
       rw_Status rw' = Some (up_StatusCode resp) \<and>
       (\<exists>es. rw_Log rw' = rw_Log rw @
            RW_Header (up_StatusCode resp) (copyResponseHeaders (rw_Header rw) (up_Header resp)) # es \<and>
          (isEventStream (up_Header resp) \<longrightarrow> flushed es)))"

lemma relay_answered:
  assumes "WriteHeader rw1 code = Some rw2" and "rw1 = rw\<lparr>rw_Header := copyResponseHeaders (rw_Header rw) (up_Header resp)\<rparr>"
    and "code = up_StatusCode resp"
    and "relay (if isEventStream (up_Header resp) then flushWriter_Write wr else ResponseWrite wr) rw2 b (up_Body resp)
      = (rw3, b', err)"
  shows "answered resp rw rw3"
proof -
  let ?sink = "if isEventStream (up_Header resp) then flushWriter_Write wr else ResponseWrite wr"
  from assms(1,2) have body: "rw_Body rw2 = rw_Body rw" by (auto simp: WriteHeader_def split: if_splits)
  from assms(4) have copy: "CopyBuffer ?sink rw2 b (up_Body resp) = (rw3, b', err)" by (simp add: relay_def)
  have "honest_sink ?sink" "appending_sink ?sink"
    by (simp_all add: honest_ResponseWrite honest_flushWriter appending_ResponseWrite appending_flushWriter)
  note pre = CopyBuffer_prefix [OF this(1) copy] and app = CopyBuffer_appends [OF this(2) copy]
  moreover have "rw_Status rw3 = Some code \<and> (\<exists>es. rw_Log rw3 = rw_Log rw @
      RW_Header code (copyResponseHeaders (rw_Header rw) (up_Header resp)) # es \<and>
      (isEventStream (up_Header resp) \<longrightarrow> flushed es))" if "rw_Status rw = None" "finalStatus code"
  proof -
    have st: "rw_Status rw2 = Some code"
        "rw_Log rw2 = rw_Log rw @ [RW_Header code (copyResponseHeaders (rw_Header rw) (up_Header resp))]"
      using assms(1,2) that by (auto simp: WriteHeader_def finalStatus_def split: if_splits)
    show ?thesis
    proof (cases "isEventStream (up_Header resp)")
      case True
      with copy have "CopyBuffer (flushWriter_Write wr) rw2 b (up_Body resp) = (rw3, b', err)" by simp
      from CopyBuffer_flushed [OF this] st show ?thesis by auto
    next
      case False
      with app st show ?thesis by auto
    qed
  qed
  ultimately show ?thesis using body assms(3) by (auto simp: answered_def)
qed

lemma forward_cases:
  assumes "forward e n resp route a w = (res, w')"
  obtains (unstreamable) "res = Returned 0 (Some errStreamUnsupported)" "isEventStream (up_Header resp)"
      "\<not> rw_Flusher (w_Writer w)" "w_State w' = w_State w" "w_Writer w' = w_Writer w"
      "w_Trace w' = w_Trace w @ [EvLog ''downstream writer cannot flush a stream'', EvBodyClosed route 1]"
  | (panicked) "res = Panicked" "up_StatusCode resp < 100 \<or> 999 < up_StatusCode resp"
      "w_State w' = w_State w"
  | (sent) ls where "res = Returned (up_StatusCode resp) None" "answered resp (w_Writer w) (w_Writer w')"
      "w_State w' = w_State w" "w_Trace w' = w_Trace w @ map EvLog ls @ [EvBodyClosed route 1]"
proof -
  define body where "body = newIdleTimeoutReadCloser (env_Now e n) (b_ResponseIdleTimeout (r_Backend route))"
  have ok: "body_ok body" unfolding body_def by (rule newIdle_ok)
  have closed: "closeBody route b v = record_event (EvBodyClosed route 1) v" if "body_ok b" for b v
    by (simp add: closeBody_def BodyClose_once [OF that])
  show thesis
  proof (cases "isEventStream (up_Header resp) \<and> \<not> rw_Flusher (w_Writer w)")
    case True
    with assms show thesis
      by (intro unstreamable) (auto simp: forward_def closed [OF newIdle_ok])
  next
    case False
    define rw1 where "rw1 = (w_Writer w)\<lparr>rw_Header := copyResponseHeaders (rw_Header (w_Writer w)) (up_Header resp)\<rparr>"
    show thesis
    proof (cases "WriteHeader rw1 (up_StatusCode resp)")
      case None
      from None have code: "up_StatusCode resp < 100 \<or> 999 < up_StatusCode resp"
        by (simp add: WriteHeader_None_iff)
      from assms False None have "res = Panicked" "w_State w' = w_State w"
        by (auto simp: forward_def Let_def rw1_def closeBody_def)
      with code show thesis by (intro panicked) auto
    next
      case (Some rw2)
      let ?sink = "if isEventStream (up_Header resp) then flushWriter_Write (env_Write e) else ResponseWrite (env_Write e)"
      obtain rw3 b' err where rl: "relay ?sink rw2 body (up_Body resp) = (rw3, b', err)"
        by (cases "relay ?sink rw2 body (up_Body resp)") auto
      have ok': "body_ok b'" using CopyBuffer_body_ok rl ok by (auto simp: relay_def)
      define ls where "ls = (case err of None \<Rightarrow> [] | Some ErrResponseIdleTimeout \<Rightarrow> [''upstream response idle timeout'']
          | Some _ \<Rightarrow> [''response relay failed''])"
      have res: "res = Returned (up_StatusCode resp) None" "w_Writer w' = rw3" "w_State w' = w_State w"
          "w_Trace w' = w_Trace w @ map EvLog ls @ [EvBodyClosed route 1]"
        using assms False Some rl closed [OF ok']
        by (auto simp: forward_def Let_def rw1_def [symmetric] body_def [symmetric] ls_def split: option.splits ioErr.splits)
      from relay_answered [OF Some rw1_def refl rl] res show thesis by (intro sent [of ls]) auto
    qed
  qed
qed

subsection \<open>Everything a round can lead to\<close>

text \<open>The request a route gets for a payload; \<open>None\<close> when the payload cannot be encoded.\<close>

definition upstreamRequest :: "Header \<Rightarrow> RawObject \<Rightarrow> Route \<Rightarrow> UpstreamRequest option" where
  "upstreamRequest clientHeader payload route =
     map_option (\<lambda>body. \<lparr>uq_Method = ''POST'', uq_URL = ChatURL (r_Backend route),
         uq_Header = setUpstreamHeaders [] clientHeader route, uq_Body = body,
         uq_ContentLength = int (length body), uq_Client = b_client (r_Backend route)\<rparr>)
       (encodeWithModel payload (r_UpstreamModel route))"

lemma attempt_cases:
  assumes "attempt e h n route payload w = (res, w1)"
  obtains (unsent) err where "res = Inl err" "w1 = w"
  | (sent) req where "upstreamRequest h payload route = Some req" "res = env_Do e n req"
      "w1 = record_event (EvAttempt route req) w"
  using assms by (auto simp: attempt_def upstreamRequest_def Let_def split: option.splits)

lemma attempt_answer:
  assumes "attempt e h n route payload w = (Inr resp, w1)"
  obtains req where "upstreamRequest h payload route = Some req" "env_Do e n req = Inr resp"
    "w1 = record_event (EvAttempt route req) w"
  using assms by (cases rule: attempt_cases) auto

lemma holding_release:
  assumes "holding l route s"
  shows "steady s (Release s (Some route))" and "load (Release s (Some route)) = l"
    and "usable (Release s (Some route)) = usable s"
  using Release_effect [of s route l] assms by (simp_all add: holding_def)

lemma serve_final_cases:
  assumes "holding l route (w_State w)" and "serve_final e a n route resp w = (res, w')"
  obtains (unstreamable) "res = Inl (Returned 0 (Some errStreamUnsupported))"
      "steady (w_State w) (w_State w')" "load (w_State w') = l" "usable (w_State w') = usable (w_State w)"
      "w_Writer w' = w_Writer w"
      "w_Trace w' = w_Trace w @ [EvLog ''downstream writer cannot flush a stream'', EvBodyClosed route 1]"
  | (panicked) "res = Inl Panicked" "up_StatusCode resp < 100 \<or> 999 < up_StatusCode resp" "w_State w' = w_State w"
  | (sent) ls where "res = Inl (Returned (up_StatusCode resp) None)" "answered resp (w_Writer w) (w_Writer w')"
      "steady (w_State w) (w_State w')" "load (w_State w') = l" "usable (w_State w') = usable (w_State w)"
      "w_Trace w' = w_Trace w @ map EvLog ls @ [EvBodyClosed route 1]"
proof -
  obtain r w1 where fw: "forward e n resp route a w = (r, w1)" by fastforce
  note rel = holding_release [OF assms(1)]
  from fw show thesis
  proof (cases rule: forward_cases)
    case unstreamable
    with assms(2) fw rel show thesis by (intro that(1)) (auto simp: serve_final_def)
  next
    case panicked
    with assms(2) fw show thesis by (intro that(2)) (auto simp: serve_final_def)
  next
    case (sent ls)
    with assms(2) fw rel show thesis by (intro that(3) [of ls]) (auto simp: serve_final_def)
  qed
qed

lemma holding_steady_emit: "holding l r s \<Longrightarrow> steady s (emit cs s)"
  by (auto simp: holding_def intro: steady_emit steady_refl)

lemma serve_answered_cases:
  assumes hold: "holding l route (w_State w)" and run: "serve_answered e a n att route resp w = (res, w')"
    and met: "st_metrics (w_State w) \<noteq> None"
  obtains (final) w1 where "serve_final e a n route resp w1 = (res, w')" "holding l route (w_State w1)"
      "steady (w_State w) (w_State w1)" "usable (w_State w1) = usable (w_State w)"
      "w_Writer w1 = w_Writer w" "w_Trace w1 = w_Trace w"
      "retryableStatus (up_StatusCode resp) = None \<or>
        (\<exists>er. SwapReservation (w_State w1) a (Some route) att = Some (Inl er, w_State w1))"
  | (moved) nxt where "res = Inr nxt" "retryableStatus (up_StatusCode resp) \<noteq> None" "nxt \<notin> att"
      "nxt \<in> aliasRoutes (w_State w) a" "steady (w_State w) (w_State w')" "holding l nxt (w_State w')"
      "usable (w_State w') = usable (w_State w)" "w_Writer w' = w_Writer w"
      "w_Trace w' = w_Trace w @ [EvBodyClosed route 1, EvLog ''failing over'']"
proof -
  define w1 where "w1 = observe route ResultResponse (env_Elapsed e n) w"
  have w1: "holding l route (w_State w1)" "steady (w_State w) (w_State w1)" "usable (w_State w1) = usable (w_State w)"
      "w_Writer w1 = w_Writer w" "w_Trace w1 = w_Trace w"
    using hold by (simp_all add: w1_def holding_emit holding_steady_emit)
  show thesis
  proof (cases "retryableStatus (up_StatusCode resp)")
    case None
    with run w1 show thesis by (intro final [of w1]) (simp_all add: serve_answered_def w1_def [symmetric])
  next
    case (Some reason)
    note inv1 = holding_inv [OF w1(1)]
    from Swap_total [OF inv1] obtain r s where sw: "SwapReservation (w_State w1) a (Some route) att = Some (r, s)"
      by fastforce
    show thesis
    proof (cases r)
      case (Inl er)
      with Swap_refused [OF inv1] sw have "s = w_State w1" by blast
      with Some Inl sw run w1 show thesis
        by (intro final [of w1]) (auto simp: serve_answered_def w1_def [symmetric])
    next
      case (Inr nxt)
      with sw have sw': "SwapReservation (w_State w1) a (Some route) att = Some (Inr nxt, s)" by simp
      have "load (w_State w1) = bump (routeBackend route) l" using w1(1) by (simp add: holding_def)
      note m = Swap_effect [OF inv1 this sw']
      have "st_metrics s \<noteq> None" using steady_metrics [OF steady_trans [OF w1(2) m(1)]] met by simp
      then have out: "res = Inr nxt"
          "w' = record_event (EvLog ''failing over'') (onState (emit (Failover a reason))
              (record_event (EvBodyClosed route 1) (w1\<lparr>w_State := s\<rparr>)))"
        using run Some sw' by (auto simp: serve_answered_def w1_def [symmetric] countFailover_def Let_def)
      have "nxt \<in> aliasRoutes (w_State w) a" using m(4) steady_aliases [OF w1(2)] by (simp add: aliasRoutes_def)
      moreover have "holding l nxt s" using m(1,2) w1(1) by (simp add: holding_def steady_def)
      ultimately show thesis using Some out m w1 steady_trans [OF w1(2) m(1)]
        by (intro moved [of nxt]) (simp_all add: steady_emit holding_emit)
    qed
  qed
qed

fun attempts :: "event list \<Rightarrow> Route list" where
  "attempts [] = []"
| "attempts (EvAttempt r req # es) = r # attempts es"
| "attempts (_ # es) = attempts es"

lemma attempts_append [simp]: "attempts (xs @ ys) = attempts xs @ attempts ys"
  by (induction xs rule: attempts.induct) auto

lemma attempts_logs [simp]: "attempts (map EvLog ls) = []"
  by (induction ls) auto

text \<open>How round \<open>n\<close> on route \<open>route\<close>, started with the world \<open>w\<close>, ended the request.\<close>

definition outcome :: "env \<Rightarrow> Header \<Rightarrow> RawObject \<Rightarrow> nat \<Rightarrow> Route \<Rightarrow> world \<Rightarrow> result \<Rightarrow> world \<Rightarrow> bool" where
  "outcome e h payload n route w r w' \<longleftrightarrow>
     (case fst (attempt e h n route payload w) of
        Inl err \<Rightarrow> w_Writer w' = w_Writer w \<and>
          (if isCanceled (env_CtxErr e n) err
           then r = Returned StatusClientClosed None \<and> usable (w_State w') = usable (w_State w)
           else r = Returned 0 (Some (finalError err)) \<and>
                usable (w_State w') = quarantine (routeBackend route) (usable (w_State w)))
      | Inr resp \<Rightarrow> usable (w_State w') = usable (w_State w) \<and>
          (if isEventStream (up_Header resp) \<and> \<not> rw_Flusher (w_Writer w)
           then r = Returned 0 (Some errStreamUnsupported) \<and> w_Writer w' = w_Writer w
           else r = Returned (up_StatusCode resp) None \<and> answered resp (w_Writer w) (w_Writer w')))"

text \<open>How a round passed the request on: the next route, and which backend it took out.\<close>

definition passed_on :: "env \<Rightarrow> Header \<Rightarrow> RawObject \<Rightarrow> nat \<Rightarrow> Route \<Rightarrow> world \<Rightarrow> world \<Rightarrow> bool" where
  "passed_on e h payload n route w w' \<longleftrightarrow> w_Writer w' = w_Writer w \<and>
     (case fst (attempt e h n route payload w) of
        Inl err \<Rightarrow> \<not> isCanceled (env_CtxErr e n) err \<and>
          usable (w_State w') = quarantine (routeBackend route) (usable (w_State w))
      | Inr resp \<Rightarrow> retryableStatus (up_StatusCode resp) \<noteq> None \<and> usable (w_State w') = usable (w_State w))"

lemma serve_final_stream_guard:
  assumes "serve_final e a n route resp w = (Inl (Returned st ae), w')"
  shows "isEventStream (up_Header resp) \<and> \<not> rw_Flusher (w_Writer w) \<longleftrightarrow> ae \<noteq> None"
  using assms
  by (auto simp: serve_final_def forward_def Let_def split: if_splits option.splits prod.splits result.splits)

lemma serve_round_cases:
  assumes hold: "holding l route (w_State w)" and run: "serve_round e h a payload n att route w = (res, w')"
    and met: "st_metrics (w_State w) \<noteq> None"
  obtains (panicked) req resp where "res = Inl Panicked" "upstreamRequest h payload route = Some req" "env_Do e n req = Inr resp"
      "up_StatusCode resp < 100 \<or> 999 < up_StatusCode resp" "holding l route (w_State w')"
  | (returned) r es where "res = Inl r" "r \<noteq> Panicked" "steady (w_State w) (w_State w')" "load (w_State w') = l"
      "outcome e h payload n route w r w'" "w_Trace w' = w_Trace w @ es" "set (attempts es) \<subseteq> {route}" "distinct (attempts es)"
  | (onward) nxt es where "res = Inr nxt" "nxt \<notin> att" "nxt \<in> aliasRoutes (w_State w) a"
      "steady (w_State w) (w_State w')" "holding l nxt (w_State w')" "passed_on e h payload n route w w'"
      "w_Trace w' = w_Trace w @ es" "set (attempts es) \<subseteq> {route}" "distinct (attempts es)"
proof -
  obtain x w1 where at: "attempt e h n route payload w = (x, w1)" by fastforce
  note frame = attempt_frame [OF at]
  from at have tr: "\<exists>es. w_Trace w1 = w_Trace w @ es \<and> set (attempts es) \<subseteq> {route} \<and> distinct (attempts es)"
    by (cases rule: attempt_cases) auto
  then obtain es0 where es0: "w_Trace w1 = w_Trace w @ es0" "set (attempts es0) \<subseteq> {route}" "distinct (attempts es0)"
    by blast
  have hold1: "holding l route (w_State w1)" and met1: "st_metrics (w_State w1) \<noteq> None"
    using hold met frame by simp_all
  show thesis
  proof (cases x)
    case (Inl err)
    with run at have f: "serve_failed e a n att route err w1 = (res, w')" by (simp add: serve_round_def)
    from hold1 f met1 show thesis
    proof (cases rule: serve_failed_cases)
      case canceled
      with Inl at frame es0 show thesis by (intro returned [of "Returned StatusClientClosed None" es0]) (auto simp: outcome_def)
    next
      case gave_up
      with Inl at frame es0 show thesis
        by (intro returned [of "Returned 0 (Some (finalError err))" "es0 @ [EvLog ''upstream attempt failed'']"])
          (auto simp: outcome_def)
    next
      case (moved nxt)
      with Inl at frame es0 show thesis
        by (intro onward [of nxt "es0 @ [EvLog ''upstream attempt failed'']"]) (auto simp: passed_on_def)
    qed
  next
    case (Inr resp)
    with run at have f: "serve_answered e a n att route resp w1 = (res, w')" by (simp add: serve_round_def)
    from at Inr obtain req where req: "upstreamRequest h payload route = Some req" "env_Do e n req = Inr resp"
      by (auto elim: attempt_answer)
    from hold1 f met1 show thesis
    proof (cases rule: serve_answered_cases)
      case (moved nxt)
      with Inr at frame es0 show thesis
        by (intro onward [of nxt "es0 @ [EvBodyClosed route 1, EvLog ''failing over'']"]) (auto simp: passed_on_def)
    next
      case (final w2)
      note base = steady_trans [OF final(3)]
      from final(2,1) show thesis
      proof (cases rule: serve_final_cases)
        case unstreamable
        with serve_final_stream_guard [of e a n route resp w2] final Inr at frame es0 base show thesis
          by (intro returned [of "Returned 0 (Some errStreamUnsupported)"
              "es0 @ [EvLog ''downstream writer cannot flush a stream'', EvBodyClosed route 1]"]) (auto simp: outcome_def)
      next
        case panicked
        with req final(2) show thesis by (intro that(1) [of req resp]) auto
      next
        case (sent ls)
        with serve_final_stream_guard [of e a n route resp w2] final Inr at frame es0 base show thesis
          by (intro returned [of "Returned (up_StatusCode resp) None"
              "es0 @ map EvLog ls @ [EvBodyClosed route 1]"]) (auto simp: outcome_def)
      qed
    qed
  qed
qed

subsection \<open>The whole request\<close>

lemma aliasRoutes_steady: "steady s t \<Longrightarrow> aliasRoutes t a = aliasRoutes s a"
  by (simp add: aliasRoutes_def steady_aliases)

text \<open>
  What holds after a request that held a route: it returned with the reservation given back
  and the outcome of its last round, or it panicked on a status that is not three digits.
\<close>

definition served :: "env \<Rightarrow> Header \<Rightarrow> RawObject \<Rightarrow> (string \<Rightarrow> int) \<Rightarrow> world \<Rightarrow> result \<Rightarrow> world \<Rightarrow> bool" where
  "served e h payload l w r w' \<longleftrightarrow>
     (if r = Panicked
      then \<exists>n req resp route. upstreamRequest h payload route = Some req \<and> env_Do e n req = Inr resp \<and>
             (up_StatusCode resp < 100 \<or> 999 < up_StatusCode resp) \<and> holding l route (w_State w')
      else steady (w_State w) (w_State w') \<and> load (w_State w') = l \<and>
        (\<exists>n route w0. w_Writer w0 = w_Writer w \<and> outcome e h payload n route w0 r w'))"

lemma Serve_loop_served:
  assumes "Serve_loop e h a payload n att route w = (r, w')"
    and "holding l route (w_State w)" and "st_metrics (w_State w) \<noteq> None"
  shows "served e h payload l w r w'"
  using assms
proof (induction e h a payload n att route w rule: Serve_loop.induct)
  case (1 e h a payload n att route w)
  obtain res w1 where rd: "serve_round e h a payload n (insert route att) route w = (res, w1)" by fastforce
  from "1.prems"(2) rd "1.prems"(3) show ?case
  proof (cases rule: serve_round_cases)
    case (panicked req resp)
    with "1.prems"(1) rd show ?thesis by (auto simp: Serve_loop.simps served_def)
  next
    case (returned r' es)
    with "1.prems"(1) rd show ?thesis by (auto simp: Serve_loop.simps served_def)
  next
    case (onward nxt es)
    with "1.prems"(1) rd have run: "Serve_loop e h a payload (Suc n) (insert route att) nxt w1 = (r, w')"
      by (simp add: Serve_loop.simps [of e h a payload n])
    have met: "st_metrics (w_State w1) \<noteq> None" using steady_metrics [OF onward(4)] "1.prems"(3) by simp
    from "1.IH" [OF rd [symmetric] onward(1) run onward(5) met] onward(4,6)
    show ?thesis by (auto simp: served_def passed_on_def intro: steady_trans)
  qed
qed

lemma Serve_loop_trace:
  assumes "Serve_loop e h a payload n att route w = (r, w')" and "r \<noteq> Panicked"
    and "holding l route (w_State w)" and "st_metrics (w_State w) \<noteq> None"
    and "route \<in> aliasRoutes (w_State w) a" and "route \<notin> att"
  shows "\<exists>es. w_Trace w' = w_Trace w @ es \<and> distinct (attempts es) \<and>
    set (attempts es) \<subseteq> aliasRoutes (w_State w) a - att"
  using assms
proof (induction e h a payload n att route w rule: Serve_loop.induct)
  case (1 e h a payload n att route w)
  obtain res w1 where rd: "serve_round e h a payload n (insert route att) route w = (res, w1)" by fastforce
  from "1.prems"(3) rd "1.prems"(4) show ?case
  proof (cases rule: serve_round_cases)
    case (panicked req resp)
    with "1.prems"(1,2) rd show ?thesis by (auto simp: Serve_loop.simps)
  next
    case (returned r' es)
    with "1.prems"(1,5,6) rd show ?thesis by (auto simp: Serve_loop.simps intro!: exI [of _ es])
  next
    case (onward nxt es)
    with "1.prems"(1) rd have run: "Serve_loop e h a payload (Suc n) (insert route att) nxt w1 = (r, w')"
      by (simp add: Serve_loop.simps [of e h a payload n])
    have met: "st_metrics (w_State w1) \<noteq> None" using steady_metrics [OF onward(4)] "1.prems"(4) by simp
    note ar = aliasRoutes_steady [OF onward(4), of a]
    from "1.IH" [OF rd [symmetric] onward(1) run "1.prems"(2) onward(5) met] onward(2,3) ar
    obtain es' where "w_Trace w' = w_Trace w1 @ es'" "distinct (attempts es')"
        "set (attempts es') \<subseteq> aliasRoutes (w_State w) a - insert route att"
      by auto
    with onward(7-9) "1.prems"(5,6) show ?thesis by (auto intro!: exI [of _ "es @ es'"])
  qed
qed

lemma load_nonneg: "invState s \<Longrightarrow> 0 \<le> load s b"
  using capacity_ok_bsOf [of s b] by (auto simp: load_def invState_def split: option.splits)

text \<open>Every way \<open>Serve\<close> can go.\<close>

lemma Serve_cases:
  assumes inv: "invState (w_State w)" and met: "st_metrics (w_State w) \<noteq> None"
    and run: "Serve e h a payload w = (r, w')"
  obtains (unknown) "st_aliases (w_State w) a = None" "r = Returned 0 (Some errUnknownAlias)" "w' = w"
  | (none) al where "st_aliases (w_State w) a = Some al" "filter (eligible (w_State w) {}) (as_routes al) = []"
      "r = Returned 0 (Some errNoRoute)" "w' = w"
  | (routed) route s where "Reserve (w_State w) a {} = Some (Inr route, s)" "steady (w_State w) s"
      "holding (load (w_State w)) route s" "usable s = usable (w_State w)" "route \<in> aliasRoutes s a"
      "Serve_loop e h a payload 0 {} route (w\<lparr>w_State := s\<rparr>) = (r, w')" "st_metrics s \<noteq> None"
      "served e h payload (load (w_State w)) (w\<lparr>w_State := s\<rparr>) r w'"
  using invState_wf [OF inv]
proof (cases rule: Reserve_cases [of "w_State w" a "{}"])
  case unknown
  with run show thesis by (intro that(1)) (auto simp: Serve_def)
next
  case (none al)
  with run show thesis by (intro that(2) [of al]) (auto simp: Serve_def)
next
  case (granted al route bs s)
  note g = Reserve_effect [OF inv granted(8)]
  from g(1) met have "st_metrics s \<noteq> None" by (simp add: steady_metrics)
  moreover have "holding (load (w_State w)) route s"
    using g(1,2) load_nonneg [OF inv] by (simp add: holding_def steady_def)
  moreover have "route \<in> aliasRoutes s a" using g(4) aliasRoutes_steady [OF g(1)] by simp
  moreover have loop: "Serve_loop e h a payload 0 {} route (w\<lparr>w_State := s\<rparr>) = (r, w')"
    using granted run by (simp add: Serve_def)
  moreover from Serve_loop_served [OF loop, of "load (w_State w)"] calculation
  have "served e h payload (load (w_State w)) (w\<lparr>w_State := s\<rparr>) r w'" by simp
  ultimately show thesis using granted(8) g by (intro that(3) [of route s]) auto
qed

lemma Serve_loop_health:
  assumes "Serve_loop e h a payload n att route w = (r, w')" and "r \<noteq> Panicked"
    and "holding l route (w_State w)" and "st_metrics (w_State w) \<noteq> None"
  shows "usable (w_State w') b \<Longrightarrow> usable (w_State w) b" and
    "usable (w_State w) b \<Longrightarrow> \<not> usable (w_State w') b \<Longrightarrow>
      \<exists>n route err w0. routeBackend route = b \<and> fst (attempt e h n route payload w0) = Inl err \<and>
        \<not> isCanceled (env_CtxErr e n) err"
proof -
  have "(usable (w_State w') b \<longrightarrow> usable (w_State w) b) \<and>
    (usable (w_State w) b \<and> \<not> usable (w_State w') b \<longrightarrow>
      (\<exists>n route err w0. routeBackend route = b \<and> fst (attempt e h n route payload w0) = Inl err \<and>
        \<not> isCanceled (env_CtxErr e n) err))"
    using assms
  proof (induction e h a payload n att route w rule: Serve_loop.induct)
    case (1 e h a payload n att route w)
    obtain res w1 where rd: "serve_round e h a payload n (insert route att) route w = (res, w1)" by fastforce
    from "1.prems"(3) rd "1.prems"(4) show ?case
    proof (cases rule: serve_round_cases)
      case (panicked req resp)
      with "1.prems"(1,2) rd show ?thesis by (auto simp: Serve_loop.simps)
    next
      case (returned r' es)
      with "1.prems"(1) rd have "w' = w1" by (simp add: Serve_loop.simps)
      with returned(5) show ?thesis
        by (fastforce simp: outcome_def quarantine_def split: sum.splits if_splits)
    next
      case (onward nxt es)
      with "1.prems"(1) rd have run: "Serve_loop e h a payload (Suc n) (insert route att) nxt w1 = (r, w')"
        by (simp add: Serve_loop.simps [of e h a payload n])
      have met: "st_metrics (w_State w1) \<noteq> None" using steady_metrics [OF onward(4)] "1.prems"(4) by simp
      have "usable (w_State w1) b = usable (w_State w) b \<or> (\<exists>err. routeBackend route = b \<and>
          fst (attempt e h n route payload w) = Inl err \<and> \<not> isCanceled (env_CtxErr e n) err \<and> \<not> usable (w_State w1) b)"
        using onward(6) by (auto simp: passed_on_def quarantine_def split: sum.splits)
      with "1.IH" [OF rd [symmetric] onward(1) run "1.prems"(2) onward(5) met] show ?thesis by blast
    qed
  qed
  then show "usable (w_State w') b \<Longrightarrow> usable (w_State w) b" and
    "usable (w_State w) b \<Longrightarrow> \<not> usable (w_State w') b \<Longrightarrow>
      \<exists>n route err w0. routeBackend route = b \<and> fst (attempt e h n route payload w0) = Inl err \<and>
        \<not> isCanceled (env_CtxErr e n) err" by blast+
qed

lemma Serve_total:
  assumes "invState (w_State w)" and "st_metrics (w_State w) \<noteq> None"
    and "\<forall>n req resp. env_Do e n req = Inr resp \<longrightarrow> 100 \<le> up_StatusCode resp \<and> up_StatusCode resp \<le> 999"
  shows "\<exists>status apiErr w'. Serve e h a payload w = (Returned status apiErr, w') \<and>
    invState (w_State w') \<and> load (w_State w') = load (w_State w)"
proof -
  obtain r w' where run: "Serve e h a payload w = (r, w')" by fastforce
  have "r \<noteq> Panicked \<and> invState (w_State w') \<and> load (w_State w') = load (w_State w)"
    using assms(1,2) run
  proof (cases rule: Serve_cases)
    case (routed route s)
    from routed(8) assms(3) show ?thesis
      by (force simp: served_def steady_def split: if_splits)
  qed (use assms(1) in auto)
  with run show ?thesis by (cases r) auto
qed


text \<open>
  C9: what the router's own errors mean. \<open>model_not_found\<close> is returned exactly for an alias that
  is not configured, \<open>no_route_available\<close> exactly when the alias has no route on a checked,
  healthy backend with a free slot; in both cases nothing else happens. Every other error
  follows an attempt: \<open>upstream_timeout\<close> a failed attempt that was a timeout,
  \<open>upstream_unavailable\<close> one that was not, and \<open>streaming_unsupported\<close> an event stream for a
  client connection that cannot flush. With every error the client's writer is untouched.
\<close>

theorem Serve_errors:
  assumes "invState (w_State w)" and "st_metrics (w_State w) \<noteq> None"
    and "Serve e h a payload w = (Returned status (Some err), w')"
  shows "status = 0 \<and> w_Writer w' = w_Writer w \<and>
    (if st_aliases (w_State w) a = None then err = errUnknownAlias \<and> w' = w
     else if \<forall>r\<in>aliasRoutes (w_State w) a. \<not> eligible (w_State w) {} r then err = errNoRoute \<and> w' = w
     else \<exists>n route w0. case fst (attempt e h n route payload w0) of
         Inl er \<Rightarrow> \<not> isCanceled (env_CtxErr e n) er \<and> err = (if isTimeout er then errUpstreamTimeout else errUpstreamUnavailable)
       | Inr resp \<Rightarrow> isEventStream (up_Header resp) \<and> \<not> rw_Flusher (w_Writer w) \<and> err = errStreamUnsupported)"
  using assms
proof (cases rule: Serve_cases)
  case (none al)
  then show ?thesis by (auto simp: aliasRoutes_def filter_empty_conv)
next
  case (routed route s)
  from routed(8) obtain n rt w0 where "w_Writer w0 = w_Writer w" "outcome e h payload n rt w0 (Returned status (Some err)) w'"
    by (auto simp: served_def)
  moreover have "eligible (w_State w) {} route" "route \<in> aliasRoutes (w_State w) a"
    using Reserve_granted(2) [OF invState_wf [OF assms(1)] routed(1)] routed(5) aliasRoutes_steady [OF routed(2)] by simp_all
  moreover have "st_aliases (w_State w) a \<noteq> None" using calculation(4) by (auto simp: aliasRoutes_def split: option.splits)
  ultimately show ?thesis
    by (auto simp: outcome_def finalError_def split: sum.splits if_splits intro!: exI [of _ n] exI [of _ rt] exI [of _ w0])
qed (use assms in auto)

text \<open>
  C2: one client, one answer. When \<open>Serve\<close> returns without an error, either the client had left
  and nothing was sent to it, or it was sent exactly one upstream response: that response's
  status, its filtered headers and a prefix of its body, and nothing of any other attempt.
\<close>

theorem Serve_single_answer:
  assumes "invState (w_State w)" and "st_metrics (w_State w) \<noteq> None"
    and "Serve e h a payload w = (Returned status None, w')"
  shows "(status = StatusClientClosed \<and> w_Writer w' = w_Writer w \<and>
      (\<exists>n route w0 err. fst (attempt e h n route payload w0) = Inl err \<and> isCanceled (env_CtxErr e n) err)) \<or>
    (\<exists>n route req resp. upstreamRequest h payload route = Some req \<and> env_Do e n req = Inr resp \<and>
      status = up_StatusCode resp \<and> answered resp (w_Writer w) (w_Writer w'))"
  using assms
proof (cases rule: Serve_cases)
  case (routed route s)
  then obtain n rt w0 where w0: "w_Writer w0 = w_Writer w" and out: "outcome e h payload n rt w0 (Returned status None) w'"
    by (auto simp: served_def)
  show ?thesis
  proof (cases "attempt e h n rt payload w0")
    case (Pair x w1)
    show ?thesis
    proof (cases x)
      case (Inl err)
      with Pair out have "isCanceled (env_CtxErr e n) err" "status = StatusClientClosed" "w_Writer w' = w_Writer w0"
        by (auto simp: outcome_def split: if_splits)
      moreover have "fst (attempt e h n rt payload w0) = Inl err" using Pair Inl by simp
      ultimately show ?thesis using w0 by metis
    next
      case (Inr resp)
      with Pair obtain req where "upstreamRequest h payload rt = Some req" "env_Do e n req = Inr resp"
        by (auto elim: attempt_answer)
      with Pair Inr out w0 show ?thesis by (auto simp: outcome_def split: if_splits)
    qed
  qed
qed auto

text \<open>
  C17: failover is bounded. A request sends at most one upstream request per route of its alias,
  each to a different route of that alias, so at most \<open>RouteCount\<close> of them.
\<close>

theorem Serve_attempts_bounded:
  assumes "invState (w_State w)" and "st_metrics (w_State w) \<noteq> None"
    and "Serve e h a payload w = (Returned status apiErr, w')"
  shows "\<exists>es. w_Trace w' = w_Trace w @ es \<and> distinct (attempts es) \<and>
    set (attempts es) \<subseteq> aliasRoutes (w_State w) a \<and> length (attempts es) \<le> RouteCount (w_State w) a"
  using assms
proof (cases rule: Serve_cases)
  case (routed route s)
  from Serve_loop_trace [OF routed(6), of "load (w_State w)"] routed(3,5,7) obtain es where
    es: "w_Trace w' = w_Trace w @ es" "distinct (attempts es)" "set (attempts es) \<subseteq> aliasRoutes s a" by auto
  have sub: "set (attempts es) \<subseteq> aliasRoutes (w_State w) a" using es(3) aliasRoutes_steady [OF routed(2)] by simp
  have "length (attempts es) = card (set (attempts es))" using es(2) by (simp add: distinct_card)
  also have "\<dots> \<le> card (aliasRoutes (w_State w) a)" by (rule card_mono [OF finite_aliasRoutes sub])
  also have "\<dots> \<le> RouteCount (w_State w) a"
    by (auto simp: aliasRoutes_def RouteCount_def card_length split: option.splits)
  finally show ?thesis using es sub by blast
qed auto

text \<open>
  C18: only transport failures take a backend out of selection. A request never makes a backend
  usable, and it makes one unusable only if an attempt on that backend failed without an
  HTTP response and not because the client had left; an upstream status, retryable or not,
  never does.
\<close>

theorem Serve_quarantine_cause:
  assumes "invState (w_State w)" and "st_metrics (w_State w) \<noteq> None"
    and "Serve e h a payload w = (Returned status apiErr, w')"
  shows "(usable (w_State w') b \<longrightarrow> usable (w_State w) b) \<and>
    (usable (w_State w) b \<and> \<not> usable (w_State w') b \<longrightarrow>
      (\<exists>n route err w0. routeBackend route = b \<and> fst (attempt e h n route payload w0) = Inl err \<and>
        \<not> isCanceled (env_CtxErr e n) err))"
  using assms
proof (cases rule: Serve_cases)
  case (routed route s)
  from Serve_loop_health [OF routed(6), of "load (w_State w)" b] routed(3,4,7) show ?thesis by auto
qed auto

text \<open>
  C35: a status that is not three digits makes the router panic while it holds a reservation.
  \<open>WriteHeader\<close> panics for an upstream status below 100, which a malformed status line such as
  099 produces; the release after \<open>forward\<close> is not deferred, so the slot of the backend stays
  taken for ever. No other behaviour of the network makes \<open>Serve\<close> panic.
\<close>

theorem Serve_panic_leaks_reservation:
  assumes "invState (w_State w)" and "st_metrics (w_State w) \<noteq> None"
    and "Serve e h a payload w = (Panicked, w')"
  shows "\<exists>n req resp route. env_Do e n req = Inr resp \<and> (up_StatusCode resp < 100 \<or> 999 < up_StatusCode resp) \<and>
    load (w_State w') = bump (routeBackend route) (load (w_State w))"
  using assms
proof (cases rule: Serve_cases)
  case (routed route s)
  then show ?thesis by (auto simp: served_def holding_def)
qed auto

subsection \<open>A concrete request\<close>

definition exResponse :: "int \<Rightarrow> UpstreamResponse" where
  "exResponse code = \<lparr>up_StatusCode = code, up_Header = [], up_Body = []\<rparr>"

text \<open>Every backend answers with the same status.\<close>

definition exEnv :: "int \<Rightarrow> env" where
  "exEnv code = \<lparr>env_NewRequest = \<lambda>_. None, env_Do = \<lambda>_ _. Inr (exResponse code), env_CtxErr = \<lambda>_. False,
     env_Elapsed = \<lambda>_. 0, env_Now = \<lambda>_. 0, env_Write = acceptAll\<rparr>"

definition exWorld :: world where
  "exWorld = \<lparr>w_State = exState, w_Writer = newResponseWriter True, w_Trace = []\<rparr>"

lemma exWorld_simps [simp]:
  "w_State exWorld = exState" "w_Writer exWorld = newResponseWriter True" "w_Trace exWorld = []"
  by (simp_all add: exWorld_def)

lemma exState_metrics: "st_metrics exState \<noteq> None"
  by (simp add: exState_def SetHealth_def SetHealth_locked_def publish_def exFresh_simps)

lemma encode_empty: "encodeWithModel [] m \<noteq> None"
  using MarshalRawObject_Some_iff [of "[(''model'', MarshalString m)]"] MarshalString_valid [of m]
  by (simp add: encodeWithModel_def)

lemma not_eventStream_empty: "\<not> isEventStream []"
  by (simp add: isEventStream_def Header_Get_def)

lemma exServe_loop:
  assumes "retryableStatus code = None"
  shows "fst (Serve_loop (exEnv code) [] ''chat'' [] 0 {} exRoute0 w) =
    (if rw_Status (w_Writer w) = None \<and> (code < 100 \<or> 999 < code) then Panicked else Returned code None)"
proof -
  obtain body where "encodeWithModel [] (r_UpstreamModel exRoute0) = Some body" using encode_empty by fastforce
  then obtain w1 where at: "attempt (exEnv code) [] 0 exRoute0 [] w = (Inr (exResponse code), w1)" "w_Writer w1 = w_Writer w"
    by (simp add: attempt_def exEnv_def)
  obtain r w2 where fw: "forward (exEnv code) 0 (exResponse code) exRoute0 ''chat''
      (observe exRoute0 ResultResponse (env_Elapsed (exEnv code) 0) w1) = (r, w2)" by fastforce
  have "r = (if rw_Status (w_Writer w) = None \<and> (code < 100 \<or> 999 < code) then Panicked else Returned code None)"
    using fw at(2) not_eventStream_empty
    by (auto simp: forward_def Let_def exResponse_def WriteHeader_def split: if_splits prod.splits option.splits)
  then show ?thesis
    using fw at assms
    by (auto simp: Serve_loop.simps [of _ _ _ _ 0] serve_round_def serve_answered_def serve_final_def exResponse_def
        split: result.splits)
qed

lemma exServe:
  assumes "retryableStatus code = None"
  shows "fst (Serve (exEnv code) [] ''chat'' [] exWorld) = (if code < 100 \<or> 999 < code then Panicked else Returned code None)"
  using exServe_loop [OF assms, of "exWorld\<lparr>w_State := exBusy\<rparr>"]
  by (auto simp: Serve_def exBusy_Reserve newResponseWriter_def)

lemma exServe_run:
  assumes "retryableStatus code = None" and "100 \<le> code" and "code \<le> 999"
  obtains w' where "Serve (exEnv code) [] ''chat'' [] exWorld = (Returned code None, w')"
  using exServe [OF assms(1)] assms(2,3) by (cases "Serve (exEnv code) [] ''chat'' [] exWorld") auto


theorem Serve_errors_witness:
  "\<exists>w'. Serve (exEnv 200) [] ''nope'' [] exWorld = (Returned 0 (Some errUnknownAlias), w') \<and> w' = exWorld"
proof -
  have run: "Serve (exEnv 200) [] ''nope'' [] exWorld = (Returned 0 (Some errUnknownAlias), exWorld)"
    by (simp add: Serve_def Reserve_def exState_simps exWorld_def)
  from Serve_errors [OF _ _ run] exState_inv exState_metrics run show ?thesis by simp
qed

theorem Serve_single_answer_witness:
  "\<exists>w' resp. Serve (exEnv 200) [] ''chat'' [] exWorld = (Returned 200 None, w') \<and> up_StatusCode resp = 200 \<and>
     answered resp (newResponseWriter True) (w_Writer w')"
proof -
  obtain w' where run: "Serve (exEnv 200) [] ''chat'' [] exWorld = (Returned 200 None, w')"
    by (rule exServe_run [of 200]) (simp_all add: retryableStatus_def)
  from Serve_single_answer [OF _ _ run] exState_inv exState_metrics have
    "\<exists>resp. 200 = up_StatusCode resp \<and> answered resp (newResponseWriter True) (w_Writer w')"
    by (auto simp: StatusClientClosed_def)
  with run show ?thesis by metis
qed

theorem Serve_attempts_bounded_witness:
  "\<exists>status apiErr w'. Serve (exEnv 429) [] ''chat'' [] exWorld = (Returned status apiErr, w') \<and>
     distinct (attempts (w_Trace w')) \<and> length (attempts (w_Trace w')) \<le> 3"
proof -
  from Serve_total [of exWorld "exEnv 429" "[]" "''chat''" "[]"] exState_inv exState_metrics obtain status apiErr w' where
    run: "Serve (exEnv 429) [] ''chat'' [] exWorld = (Returned status apiErr, w')"
    by (auto simp: exEnv_def exResponse_def)
  from Serve_attempts_bounded [OF _ _ run] exState_inv exState_metrics run show ?thesis
    by (auto simp: RouteCount_def exState_simps)
qed

theorem Serve_quarantine_cause_witness:
  "\<exists>status apiErr w'. Serve (exEnv 503) [] ''chat'' [] exWorld = (Returned status apiErr, w') \<and>
     usable (w_State w') ''b''"
proof -
  have answer: "fst (attempt (exEnv 503) [] n route [] w0) = Inr (exResponse 503)" for n route w0
    using encode_empty [of "r_UpstreamModel route"] by (auto simp: attempt_def exEnv_def)
  have "usable exState ''b''" by (simp add: usable_def exState_bsOf)
  from Serve_total [of exWorld "exEnv 503" "[]" "''chat''" "[]"] exState_inv exState_metrics obtain status apiErr w' where
    run: "Serve (exEnv 503) [] ''chat'' [] exWorld = (Returned status apiErr, w')"
    by (auto simp: exEnv_def exResponse_def)
  from Serve_quarantine_cause [OF _ _ run, of "''b''"] exState_inv exState_metrics answer \<open>usable exState ''b''\<close> run
  show ?thesis by auto
qed

theorem Serve_panic_leaks_reservation_witness:
  "\<exists>w' route. Serve (exEnv 99) [] ''chat'' [] exWorld = (Panicked, w') \<and>
     load (w_State w') = bump (routeBackend route) (load exState)"
proof -
  obtain w' where run: "Serve (exEnv 99) [] ''chat'' [] exWorld = (Panicked, w')"
    using exServe [of 99] by (cases "Serve (exEnv 99) [] ''chat'' [] exWorld") (auto simp: retryableStatus_def)
  from Serve_panic_leaks_reservation [OF _ _ run] exState_inv exState_metrics run show ?thesis by auto
qed

end
