(* ===== verification/Concurrency.thy ===== *)
theory Concurrency
  imports Serving
begin

text \<open>
  Requests and health probes that run at the same time.

  Every request runs \<open>Serve\<close> in its own goroutine, and every backend has a goroutine that
  probes its health; all share one \<open>State\<close>. The step relation interleaves them at the grain of
  the mutex: one step is one critical section of \<open>State\<close>, one network event, or one call on
  a metric. What a goroutine still has to publish after leaving a critical section is its
  \<open>pending\<close> list; the goroutine goes on only when that is empty. The control points follow
  the program text of \<open>Serve\<close>; the lemmas on runs of a single request show that alone it does
  what \<open>Serve\<close> does.
\<close>

subsection \<open>Control points\<close>

datatype ctl =
    Start
  | Attempting Route "Route set"
  | Canceling Route
  | Failing Route "Route set" goError
  | Releasing Route "Route set" goError
  | Retrying "Route set" goError
  | Swapping Route "Route set" string UpstreamResponse
  | Forwarding Route UpstreamResponse
  | Finishing Route result
  | Finished result
  | Crashed "Route option"

record thread =
  th_alias :: string
  th_ctl :: ctl
  th_pending :: "prom_call list"

record pool =
  po_State :: State
  po_Requests :: "thread list"
  po_Probes :: "prom_call list list"

text \<open>The first control point after a successful or refused reservation.\<close>

definition afterStart :: "routeError + Route \<Rightarrow> ctl" where
  "afterStart res = (case res of
      Inl ErrUnknownAlias \<Rightarrow> Finished (Returned 0 (Some errUnknownAlias))
    | Inl ErrNoRoute \<Rightarrow> Finished (Returned 0 (Some errNoRoute))
    | Inr route \<Rightarrow> Attempting route {route})"

definition attemptCalls :: "Route \<Rightarrow> string \<Rightarrow> int \<Rightarrow> prom_call list" where
  "attemptCalls route label elapsed = ObserveAttempt (b_Name (r_Backend route)) (r_Alias route) label elapsed"

text \<open>
  One step of one request: its thread and the state before and after. A step that needs the
  thread's control also needs its pending calls to be done.
\<close>

inductive req_step :: "thread \<Rightarrow> State \<Rightarrow> thread \<Rightarrow> State \<Rightarrow> bool" where
  publishes: "req_step \<lparr>th_alias = a, th_ctl = c, th_pending = call # calls\<rparr> s
      \<lparr>th_alias = a, th_ctl = c, th_pending = calls\<rparr> (emit [call] s)"
| starts: "Reserve s a {} = Some (res, s') \<Longrightarrow>
    req_step \<lparr>th_alias = a, th_ctl = Start, th_pending = []\<rparr> s
      \<lparr>th_alias = a, th_ctl = afterStart res, th_pending = []\<rparr> s'"
| start_panics: "Reserve s a {} = None \<Longrightarrow>
    req_step \<lparr>th_alias = a, th_ctl = Start, th_pending = []\<rparr> s \<lparr>th_alias = a, th_ctl = Crashed None, th_pending = []\<rparr> s"
| attempt_canceled: "isCanceled ctxErr err \<Longrightarrow>
    req_step \<lparr>th_alias = a, th_ctl = Attempting r att, th_pending = []\<rparr> s
      \<lparr>th_alias = a, th_ctl = Canceling r, th_pending = []\<rparr> s"
| attempt_fails: "\<not> isCanceled ctxErr err \<Longrightarrow>
    req_step \<lparr>th_alias = a, th_ctl = Attempting r att, th_pending = []\<rparr> s
      \<lparr>th_alias = a, th_ctl = Failing r att err, th_pending = []\<rparr> s"
| attempt_answers: "req_step \<lparr>th_alias = a, th_ctl = Attempting r att, th_pending = []\<rparr> s
      \<lparr>th_alias = a, th_ctl = (case retryableStatus (up_StatusCode resp) of
           None \<Rightarrow> Forwarding r resp | Some reason \<Rightarrow> Swapping r att reason resp),
        th_pending = attemptCalls r ResultResponse elapsed\<rparr> s"
| cancel_releases: "Release_locked s (Some r) = (s', calls) \<Longrightarrow>
    req_step \<lparr>th_alias = a, th_ctl = Canceling r, th_pending = []\<rparr> s
      \<lparr>th_alias = a, th_ctl = Finished (Returned StatusClientClosed None),
        th_pending = calls @ attemptCalls r ResultCanceled elapsed\<rparr> s'"
| fail_quarantines: "SetHealth_locked s (b_Name (r_Backend r)) False = (s', calls) \<Longrightarrow>
    req_step \<lparr>th_alias = a, th_ctl = Failing r att err, th_pending = []\<rparr> s
      \<lparr>th_alias = a, th_ctl = Releasing r att err, th_pending = calls\<rparr> s'"
| fail_releases: "Release_locked s (Some r) = (s', calls) \<Longrightarrow>
    req_step \<lparr>th_alias = a, th_ctl = Releasing r att err, th_pending = []\<rparr> s
      \<lparr>th_alias = a, th_ctl = Retrying att err,
        th_pending = calls @ attemptCalls r (if isTimeout err then ResultTimeout else ResultTransportError) elapsed\<rparr> s'"
| gives_up: "Reserve s a att = Some (Inl e, s') \<Longrightarrow>
    req_step \<lparr>th_alias = a, th_ctl = Retrying att err, th_pending = []\<rparr> s
      \<lparr>th_alias = a, th_ctl = Finished (Returned 0 (Some (finalError err))), th_pending = []\<rparr> s'"
| fails_over: "Reserve s a att = Some (Inr nxt, s') \<Longrightarrow>
    req_step \<lparr>th_alias = a, th_ctl = Retrying att err, th_pending = []\<rparr> s
      (if st_metrics s' = None then \<lparr>th_alias = a, th_ctl = Crashed (Some nxt), th_pending = []\<rparr>
       else \<lparr>th_alias = a, th_ctl = Attempting nxt (insert nxt att),
              th_pending = Failover a (if isTimeout err then ReasonTimeout else ReasonTransportError)\<rparr>) s'"
| retry_panics: "Reserve s a att = None \<Longrightarrow>
    req_step \<lparr>th_alias = a, th_ctl = Retrying att err, th_pending = []\<rparr> s
      \<lparr>th_alias = a, th_ctl = Crashed None, th_pending = []\<rparr> s"
| swaps: "SwapReservation_locked s a (Some r) att = Some (Inr nxt, s', calls) \<Longrightarrow>
    req_step \<lparr>th_alias = a, th_ctl = Swapping r att reason resp, th_pending = []\<rparr> s
      (if st_metrics s' = None then \<lparr>th_alias = a, th_ctl = Crashed (Some nxt), th_pending = []\<rparr>
       else \<lparr>th_alias = a, th_ctl = Attempting nxt (insert nxt att), th_pending = calls @ Failover a reason\<rparr>) s'"
| swap_refused: "SwapReservation_locked s a (Some r) att = Some (Inl e, s', calls) \<Longrightarrow>
    req_step \<lparr>th_alias = a, th_ctl = Swapping r att reason resp, th_pending = []\<rparr> s
      \<lparr>th_alias = a, th_ctl = Forwarding r resp, th_pending = calls\<rparr> s'"
| swap_panics: "SwapReservation_locked s a (Some r) att = None \<Longrightarrow>
    req_step \<lparr>th_alias = a, th_ctl = Swapping r att reason resp, th_pending = []\<rparr> s
      \<lparr>th_alias = a, th_ctl = Crashed (Some r), th_pending = []\<rparr> s"
| forwards: "forward e n resp r a w = (Returned status apiErr, w') \<Longrightarrow>
    req_step \<lparr>th_alias = a, th_ctl = Forwarding r resp, th_pending = []\<rparr> s
      \<lparr>th_alias = a, th_ctl = Finishing r (Returned status apiErr), th_pending = []\<rparr> s"
| forward_panics: "forward e n resp r a w = (Panicked, w') \<Longrightarrow>
    req_step \<lparr>th_alias = a, th_ctl = Forwarding r resp, th_pending = []\<rparr> s
      \<lparr>th_alias = a, th_ctl = Crashed (Some r), th_pending = []\<rparr> s"
| finishes: "Release_locked s (Some r) = (s', calls) \<Longrightarrow>
    req_step \<lparr>th_alias = a, th_ctl = Finishing r res, th_pending = []\<rparr> s
      \<lparr>th_alias = a, th_ctl = Finished res, th_pending = calls\<rparr> s'"

inductive_cases req_stepE: "req_step t s t' s'"

text \<open>The pool: any request or probe may take the next step.\<close>

inductive pool_step :: "pool \<Rightarrow> pool \<Rightarrow> bool" where
  request: "i < length (po_Requests p) \<Longrightarrow> req_step (po_Requests p ! i) (po_State p) t' s' \<Longrightarrow>
    pool_step p (p\<lparr>po_State := s', po_Requests := (po_Requests p)[i := t']\<rparr>)"
| arrival: "pool_step p (p\<lparr>po_Requests := po_Requests p @ [\<lparr>th_alias = a, th_ctl = Start, th_pending = []\<rparr>]\<rparr>)"
| probe: "i < length (po_Probes p) \<Longrightarrow> po_Probes p ! i = [] \<Longrightarrow>
    SetHealth_locked (po_State p) b healthy = (s', calls) \<Longrightarrow>
    pool_step p (p\<lparr>po_State := s', po_Probes := (po_Probes p)[i := calls]\<rparr>)"
| probe_publishes: "i < length (po_Probes p) \<Longrightarrow> po_Probes p ! i = call # calls \<Longrightarrow>
    pool_step p (p\<lparr>po_State := emit [call] (po_State p), po_Probes := (po_Probes p)[i := calls]\<rparr>)"

definition initialPool :: "State \<Rightarrow> nat \<Rightarrow> pool" where
  "initialPool s probes = \<lparr>po_State = s, po_Requests = [], po_Probes = replicate probes []\<rparr>"

inductive reachable :: "State \<Rightarrow> nat \<Rightarrow> pool \<Rightarrow> bool" for s0 probes where
  initial: "reachable s0 probes (initialPool s0 probes)"
| step: "reachable s0 probes p \<Longrightarrow> pool_step p p' \<Longrightarrow> reachable s0 probes p'"


subsection \<open>Reservations\<close>

text \<open>
  The backends on which a request, and a pool, hold a reservation. A request that panicked while it
  held one counts: nothing gives that slot back.
\<close>

fun held :: "ctl \<Rightarrow> string multiset" where
  "held (Attempting r att) = {#routeBackend r#}"
| "held (Canceling r) = {#routeBackend r#}"
| "held (Failing r att err) = {#routeBackend r#}"
| "held (Releasing r att err) = {#routeBackend r#}"
| "held (Swapping r att reason resp) = {#routeBackend r#}"
| "held (Forwarding r resp) = {#routeBackend r#}"
| "held (Finishing r res) = {#routeBackend r#}"
| "held (Crashed (Some r)) = {#routeBackend r#}"
| "held _ = {#}"

definition heldBy :: "thread list \<Rightarrow> string multiset" where
  "heldBy ts = sum_list (map (held \<circ> th_ctl) ts)"

lemma heldBy_append [simp]: "heldBy (ts @ [t]) = heldBy ts + held (th_ctl t)"
  by (simp add: heldBy_def)

lemma heldBy_split:
  assumes "i < length ts"
  shows "\<exists>R. heldBy ts = held (th_ctl (ts ! i)) + R \<and> (\<forall>t. heldBy (ts[i := t]) = held (th_ctl t) + R)"
proof -
  from assms have "ts = take i ts @ ts ! i # drop (Suc i) ts" by (rule id_take_nth_drop)
  moreover have "ts[i := t] = take i ts @ t # drop (Suc i) ts" for t using assms by (simp add: upd_conv_take_nth_drop)
  ultimately show ?thesis
    by (intro exI [of _ "sum_list (map (held \<circ> th_ctl) (take i ts)) + sum_list (map (held \<circ> th_ctl) (drop (Suc i) ts))"])
      (metis (no_types, lifting) ab_semigroup_add_class.add_ac(1) add.left_commute comp_apply heldBy_def list.simps(9) map_append sum_list.Cons sum_list.append)
qed

text \<open>The invariant of a pool: well formed, and the loads are the reservations held.\<close>

definition ledger :: "State \<Rightarrow> string multiset \<Rightarrow> bool" where
  "ledger s H \<longleftrightarrow> invState s \<and> balanced (load s) H"

lemma invState_within: "invState s \<Longrightarrow> within (load s) (limit s)"
proof -
  assume "invState s"
  then have "wf_state s" "capacity_ok s" by (simp_all add: invState_def)
  from capacity_ok_bsOf [OF this] show ?thesis
    by (auto simp: within_def load_def limit_def split: option.splits)
qed

lemma ledger_emit [simp]: "ledger (emit cs s) H \<longleftrightarrow> ledger s H"
  by (simp add: ledger_def)

lemma ledger_Reserve:
  assumes "ledger s H" and "Reserve s a att = Some (res, s')"
  shows "ledger s' (case res of Inl e \<Rightarrow> H | Inr r \<Rightarrow> add_mset (routeBackend r) H)"
proof (cases res)
  case (Inl e)
  with assms have "s' = s" using Reserve_refused [of s a att e s'] by (simp add: ledger_def)
  with Inl assms(1) show ?thesis by simp
next
  case (Inr r)
  with assms have "Reserve s a att = Some (Inr r, s')" "wf_state s" "balanced (load s) H" "within (load s) (limit s)"
    by (simp_all add: ledger_def invState_wf invState_within)
  from rs.reserve_keeps(3) [OF this(2-4,1)] Inr assms show ?thesis
    by (auto simp: ledger_def intro: Reserve_inv)
qed

lemma ledger_Release:
  assumes "ledger s (add_mset (routeBackend r) H)" and "Release_locked s (Some r) = (s', calls)"
  shows "ledger s' H"
proof -
  from assms(1) have "wf_state s" "balanced (load s) (add_mset (routeBackend r) H)" "within (load s) (limit s)"
    by (simp_all add: ledger_def invState_wf invState_within)
  from rs.release_keeps(4) [OF this _ assms(2)] Release_locked_inv assms show ?thesis
    by (auto simp: ledger_def)
qed

lemma ledger_Swap:
  assumes "ledger s (add_mset (routeBackend r) H)" and "SwapReservation_locked s a (Some r) att = Some (res, s', calls)"
  shows "ledger s' (case res of Inl e \<Rightarrow> add_mset (routeBackend r) H | Inr nxt \<Rightarrow> add_mset (routeBackend nxt) H)"
proof (cases res)
  case (Inl e)
  with assms have "s' = s" using rs.swap_refused [of s a "Some r" att e s' calls] by (simp add: ledger_def invState_wf)
  with Inl assms(1) show ?thesis by simp
next
  case (Inr nxt)
  from assms(1) have "wf_state s" "balanced (load s) (add_mset (routeBackend r) H)" "within (load s) (limit s)"
    by (simp_all add: ledger_def invState_wf invState_within)
  from rs.swap_keeps(4) [OF this, of r a att nxt s' calls] assms Inr
    SwapReservation_locked_inv [of s a "Some r" att res s' calls]
  show ?thesis by (simp add: ledger_def)
qed

lemma ledger_SetHealth:
  assumes "ledger s H" and "SetHealth_locked s b h = (s', calls)"
  shows "ledger s' H"
  using assms rs.health_frame [of s b h s' calls] SetHealth_locked_inv [of s b h s' calls]
  by (auto simp: ledger_def dest: invState_wf)

lemmas ledger_ops = ledger_Reserve ledger_Release ledger_Swap ledger_SetHealth

lemma req_step_ledger:
  assumes "req_step t s t' s'" and "ledger s (held (th_ctl t) + R)"
  shows "ledger s' (held (th_ctl t') + R)"
  using assms
proof (induction rule: req_step.induct)
  case (starts s a res s')
  then show ?case using ledger_Reserve [of s R a "{}" res s']
    by (auto simp: afterStart_def split: sum.splits routeError.splits)
next
  case (attempt_answers a r att s resp elapsed)
  then show ?case by (auto split: option.splits)
next
  case (cancel_releases s r s' calls a elapsed)
  then show ?case using ledger_Release [of s r R] by simp
next
  case (fail_quarantines s r s' calls a att err)
  then show ?case using ledger_SetHealth by auto
next
  case (fail_releases s r s' calls a att err elapsed)
  then show ?case using ledger_Release [of s r R] by simp
next
  case (gives_up s a att e s' err)
  then show ?case using ledger_Reserve [of s R a att "Inl e"] by simp
next
  case (fails_over s a att nxt s' err)
  then show ?case using ledger_Reserve [of s R a att "Inr nxt"] by simp
next
  case (swaps s a r att nxt s' calls reason resp)
  then show ?case using ledger_Swap [of s r R a att "Inr nxt"] by simp
next
  case (swap_refused s a r att e s' calls reason resp)
  then show ?case using ledger_Swap [of s r R a att "Inl e"] by simp
next
  case (finishes s r s' calls a res)
  then show ?case using ledger_Release [of s r R] by simp
next
  case (retry_panics s a att err)
  then show ?case by (auto simp: ledger_def dest: Reserve_total)
qed auto

lemma pool_step_ledger:
  assumes "pool_step p p'" and "ledger (po_State p) (heldBy (po_Requests p))"
  shows "ledger (po_State p') (heldBy (po_Requests p'))"
  using assms
proof (induction rule: pool_step.induct)
  case (request i p t' s')
  from heldBy_split [OF request(1)] obtain R where R: "heldBy (po_Requests p) = held (th_ctl (po_Requests p ! i)) + R"
      "heldBy ((po_Requests p)[i := t']) = held (th_ctl t') + R" by blast
  with req_step_ledger [OF request(2)] request(3) show ?case by simp
next
  case (probe i p b healthy s' calls)
  then show ?case using ledger_SetHealth by simp
qed simp_all

lemma reachable_ledger:
  assumes "reachable s0 probes p" and "invState s0" and "\<forall>b. load s0 b = 0"
  shows "ledger (po_State p) (heldBy (po_Requests p))"
  using assms
proof (induction rule: reachable.induct)
  case initial
  then show ?case by (simp add: initialPool_def ledger_def heldBy_def balanced_def)
next
  case (step p p')
  then show ?case by (simp add: pool_step_ledger)
qed

text \<open>
  C8: capacity under concurrency. From an idle router, whatever requests arrive and however
  their steps, the steps of failovers and cancellations and those of health probes are
  interleaved: the in-flight counter of every backend is at all times exactly the number of
  requests that hold a reservation on it (one that panicked while it held it still does), it never
  passes the backend's \<open>max_inflight\<close>, and the state stays well formed.
\<close>

theorem capacity_under_interleaving:
  assumes "reachable s0 probes p" and "invState s0" and "\<forall>b. load s0 b = 0"
  shows "invState (po_State p) \<and> load (po_State p) b = int (count (heldBy (po_Requests p)) b) \<and>
    int (count (heldBy (po_Requests p)) b) \<le> max 0 (limit (po_State p) b)"
proof -
  from reachable_ledger [OF assms] have inv: "invState (po_State p)"
    and bal: "load (po_State p) b = int (count (heldBy (po_Requests p)) b)"
    by (simp_all add: ledger_def balanced_def)
  from invState_within [OF inv] have "load (po_State p) b \<le> max 0 (limit (po_State p) b)" by (simp only: within_def)
  with inv bal show ?thesis by simp
qed

lemma req_step_enabled:
  assumes inv: "invState s" and "\<not> (\<exists>res. th_ctl t = Finished res)" and "\<not> (\<exists>r. th_ctl t = Crashed r)"
  shows "\<exists>t' s'. req_step t s t' s'"
proof -
  obtain a c pend where t: "t = \<lparr>th_alias = a, th_ctl = c, th_pending = pend\<rparr>" by (cases t) auto
  have rel: "\<exists>s' cs. Release_locked s (Some r) = (s', cs)" for r by (metis surj_pair)
  show ?thesis
  proof (cases pend)
    case (Cons call calls)
    with t show ?thesis by (blast intro: req_step.publishes)
  next
    case Nil
    note t = t [unfolded this]
    show ?thesis
    proof (cases c)
      case Start
      from Reserve_total [OF inv] obtain res s' where "Reserve s a {} = Some (res, s')" by fastforce
      then show ?thesis unfolding t Start by (blast intro: req_step.starts)
    next
      case (Attempting r att)
      show ?thesis unfolding t Attempting by (blast intro: req_step.attempt_answers)
    next
      case (Canceling r)
      with rel [of r] show ?thesis unfolding t Canceling by (blast intro: req_step.cancel_releases)
    next
      case (Failing r att err)
      obtain s' cs where "SetHealth_locked s (routeBackend r) False = (s', cs)" by fastforce
      then show ?thesis unfolding t Failing by (blast intro: req_step.fail_quarantines)
    next
      case (Releasing r att err)
      with rel [of r] show ?thesis unfolding t Releasing by (blast intro: req_step.fail_releases)
    next
      case (Retrying att err)
      from Reserve_total [OF inv] obtain res s' where "Reserve s a att = Some (res, s')" by fastforce
      then show ?thesis unfolding t Retrying
        by (cases res) (blast intro: req_step.gives_up req_step.fails_over)+
    next
      case (Swapping r att reason resp)
      from rs.swap_total [OF invState_wf [OF inv]] obtain res s' cs where
        "SwapReservation_locked s a (Some r) att = Some (res, s', cs)" by fastforce
      then show ?thesis unfolding t Swapping
        by (cases res) (blast intro: req_step.swaps req_step.swap_refused)+
    next
      case (Forwarding r resp)
      obtain res w' where "forward undefined 0 resp r a undefined = (res, w')" by fastforce
      then show ?thesis unfolding t Forwarding
        by (cases res) (blast intro: req_step.forwards req_step.forward_panics)+
    next
      case (Finishing r res)
      with rel [of r] show ?thesis unfolding t Finishing by (blast intro: req_step.finishes)
    qed (use assms t in simp_all)
  qed
qed

lemma heldBy_finished: "\<forall>t\<in>set ts. \<exists>res. th_ctl t = Finished res \<Longrightarrow> heldBy ts = {#}"
  by (induction ts) (auto simp: heldBy_def)

text \<open>
  C19: no request gets stuck and none is lost. In every reachable pool each request that has
  neither returned nor panicked can take a step, and when all requests have returned, every
  in-flight counter is back to zero.
\<close>

theorem requests_progress_and_drain:
  assumes "reachable s0 probes p" and "invState s0" and "\<forall>b. load s0 b = 0"
  shows "(\<forall>t\<in>set (po_Requests p). (\<exists>res. th_ctl t = Finished res) \<or> (\<exists>r. th_ctl t = Crashed r) \<or>
      (\<exists>t' s'. req_step t (po_State p) t' s')) \<and>
    ((\<forall>t\<in>set (po_Requests p). \<exists>res. th_ctl t = Finished res) \<longrightarrow> (\<forall>b. load (po_State p) b = 0))"
proof -
  from reachable_ledger [OF assms] have inv: "invState (po_State p)"
      and bal: "balanced (load (po_State p)) (heldBy (po_Requests p))"
    by (simp_all add: ledger_def)
  from bal have "\<forall>b. load (po_State p) b = 0" if "\<forall>t\<in>set (po_Requests p). \<exists>res. th_ctl t = Finished res"
    using heldBy_finished [OF that] by (simp add: balanced_def)
  with req_step_enabled [OF inv] show ?thesis by blast
qed

subsection \<open>A request alone does what Serve does\<close>

definition alone :: "thread \<times> State \<Rightarrow> thread \<times> State \<Rightarrow> bool" where
  "alone = (\<lambda>x y. req_step (fst x) (snd x) (fst y) (snd y))\<^sup>*\<^sup>*"

lemma alone_refl [simp]: "alone x x"
  by (simp add: alone_def)

lemma alone_trans [trans]: "alone x y \<Longrightarrow> alone y z \<Longrightarrow> alone x z"
  unfolding alone_def by (rule rtranclp_trans)

lemma alone_step: "req_step t s t' s' \<Longrightarrow> alone (t', s') z \<Longrightarrow> alone (t, s) z"
  unfolding alone_def by (rule converse_rtranclp_into_rtranclp) simp_all

abbreviation at :: "string \<Rightarrow> ctl \<Rightarrow> prom_call list \<Rightarrow> thread" where
  "at a c pend \<equiv> \<lparr>th_alias = a, th_ctl = c, th_pending = pend\<rparr>"

lemma emit_emit: "emit ys (emit xs s) = emit (xs @ ys) s"
  by (simp add: emit_def option.map_comp comp_def)

lemma alone_publish: "alone (at a c [], emit calls s) z \<Longrightarrow> alone (at a c calls, s) z"
proof (induction calls arbitrary: s)
  case (Cons call calls)
  then have "alone (at a c calls, emit [call] s) z" by (simp add: emit_emit)
  then show ?case by (rule alone_step [OF req_step.publishes])
qed (simp add: emit_def option.map_ident)

lemma fails_over_counted:
  "Reserve s a att = Some (Inr nxt, s') \<Longrightarrow> st_metrics s' \<noteq> None \<Longrightarrow>
     req_step (at a (Retrying att err) []) s
       (at a (Attempting nxt (insert nxt att)) (Failover a (if isTimeout err then ReasonTimeout else ReasonTransportError))) s'"
  using req_step.fails_over [of s a att nxt s' err] by (simp del: not_None_eq split del: if_split)

lemma swaps_counted:
  "SwapReservation_locked s a (Some r) att = Some (Inr nxt, s', calls) \<Longrightarrow> st_metrics s' \<noteq> None \<Longrightarrow>
     req_step (at a (Swapping r att reason resp) []) s
       (at a (Attempting nxt (insert nxt att)) (calls @ Failover a reason)) s'"
  using req_step.swaps [of s a r att nxt s' calls reason resp] by (simp del: not_None_eq)

lemma Release_unfold: "\<exists>s' calls. Release_locked s r = (s', calls) \<and> Release s r = emit calls s'"
  by (metis Release_def publish_eq surj_pair)

lemma SetHealth_unfold: "\<exists>s' calls. SetHealth_locked s n h = (s', calls) \<and> SetHealth s n h = emit calls s'"
  by (metis SetHealth_def publish_eq surj_pair)

text \<open>What the end of a round means for the control of the thread.\<close>

definition afterRound :: "Route set \<Rightarrow> result + Route \<Rightarrow> ctl" where
  "afterRound att res = (case res of Inl r \<Rightarrow> Finished r | Inr nxt \<Rightarrow> Attempting nxt (insert nxt att))"

lemma alone_failed:
  assumes "serve_failed e a n att r err w = (res, w')" and "res \<noteq> Inl Panicked"
  shows "alone (at a (Attempting r att) [], w_State w) (at a (afterRound att res) [], w_State w')"
proof (cases "isCanceled (env_CtxErr e n) err")
  case True
  obtain s' calls where rel: "Release_locked (w_State w) (Some r) = (s', calls)" "Release (w_State w) (Some r) = emit calls s'"
    using Release_unfold by blast
  from True assms(1) have res: "res = Inl (Returned StatusClientClosed None)"
    and st: "w_State w' = emit (attemptCalls r ResultCanceled (env_Elapsed e n)) (Release (w_State w) (Some r))"
    by (auto simp: serve_failed_def attemptCalls_def)
  show ?thesis
    by (rule alone_step [OF req_step.attempt_canceled [OF True]], rule alone_step [OF req_step.cancel_releases [OF rel(1), of a "env_Elapsed e n"]],
        rule alone_publish) (simp add: res st rel(2) emit_emit afterRound_def)
next
  case False
  obtain s1 c1 where h: "SetHealth_locked (w_State w) (routeBackend r) False = (s1, c1)"
      "SetHealth (w_State w) (routeBackend r) False = emit c1 s1" using SetHealth_unfold by blast
  obtain s2 c2 where rel: "Release_locked (emit c1 s1) (Some r) = (s2, c2)" "Release (emit c1 s1) (Some r) = emit c2 s2"
    using Release_unfold by blast
  let ?label = "if isTimeout err then ResultTimeout else ResultTransportError"
  let ?reason = "if isTimeout err then ReasonTimeout else ReasonTransportError"
  define s3 where "s3 = emit (c2 @ attemptCalls r ?label (env_Elapsed e n)) s2"
  have pre: "alone (at a (Attempting r att) [], w_State w) z" if "alone (at a (Retrying att err) [], s3) z" for z
    by (rule alone_step [OF req_step.attempt_fails [OF False]], rule alone_step [OF req_step.fail_quarantines [OF h(1)]],
        rule alone_publish, rule alone_step [OF req_step.fail_releases [OF rel(1), of a att err "env_Elapsed e n"]], rule alone_publish)
      (use that in \<open>simp add: s3_def\<close>)
  define w2 where "w2 = record_event (EvLog ''upstream attempt failed'') (observe r ?label (env_Elapsed e n)
      (onState (\<lambda>s. Release (SetHealth s (routeBackend r) False) (Some r)) w))"
  have s3: "w_State w2 = s3" by (simp add: w2_def s3_def h(2) rel(2) emit_emit attemptCalls_def)
  have eq: "serve_failed e a n att r err w =
      (case Reserve s3 a att of
             None \<Rightarrow> (Inl Panicked, w2)
           | Some (Inl _, s) \<Rightarrow> (Inl (Returned 0 (Some (finalError err))), w2\<lparr>w_State := s\<rparr>)
           | Some (Inr next, s) \<Rightarrow>
              (case countFailover a ?reason (w2\<lparr>w_State := s\<rparr>) of
                 None \<Rightarrow> (Inl Panicked, w2\<lparr>w_State := s\<rparr>)
               | Some w3 \<Rightarrow> (Inr next, w3)))"
    unfolding s3 [symmetric] using False unfolding serve_failed_def w2_def finalError_def Let_def
    by (cases "isTimeout err") simp_all
  show ?thesis
  proof (cases "Reserve s3 a att")
    case None
    with eq assms show ?thesis by simp
  next
    case (Some rs)
    obtain x s where x: "rs = (x, s)" by (cases rs)
    show ?thesis
    proof (cases x)
      case (Inl er)
      with Some x have "Reserve s3 a att = Some (Inl er, s)" by simp
      from pre [OF alone_step [OF req_step.gives_up [OF this, of err] alone_refl]] eq assms(1) this
      show ?thesis by (auto simp: afterRound_def)
    next
      case (Inr nxt)
      with Some x have g: "Reserve s3 a att = Some (Inr nxt, s)" by simp
      with eq assms have met: "st_metrics s \<noteq> None" and res: "res = Inr nxt"
          and st: "w_State w' = emit (Failover a ?reason) s"
        by (auto simp: countFailover_def split: option.splits)
      have "alone (at a (Retrying att err) [], s3) (at a (Attempting nxt (insert nxt att)) [], emit (Failover a ?reason) s)"
        by (rule alone_step [OF fails_over_counted [OF g met]], rule alone_publish, rule alone_refl)
      from pre [OF this] show ?thesis by (simp add: afterRound_def res st)
    qed
  qed
qed

lemma alone_final:
  assumes "serve_final e a n r resp w = (res, w')" and "res \<noteq> Inl Panicked"
  shows "alone (at a (Forwarding r resp) [], w_State w) (at a (afterRound att res) [], w_State w')"
proof -
  obtain x w1 where fw: "forward e n resp r a w = (x, w1)" by fastforce
  then have st: "w_State w1 = w_State w" by (cases rule: forward_cases) simp_all
  from assms fw obtain status apiErr where x: "x = Returned status apiErr" by (cases x) (auto simp: serve_final_def)
  obtain s' calls where rel: "Release_locked (w_State w) (Some r) = (s', calls)" "Release (w_State w) (Some r) = emit calls s'"
    using Release_unfold by blast
  from fw x assms(1) st rel(2) have out: "res = Inl (Returned status apiErr)" "w_State w' = emit calls s'"
    by (auto simp: serve_final_def)
  show ?thesis
    by (rule alone_step [OF req_step.forwards [OF fw [unfolded x]]], rule alone_step [OF req_step.finishes [OF rel(1)]],
        rule alone_publish) (simp add: out afterRound_def)
qed

lemma alone_answered:
  assumes "serve_answered e a n att r resp w = (res, w')" and "res \<noteq> Inl Panicked"
  shows "alone (at a (Attempting r att) [], w_State w) (at a (afterRound att res) [], w_State w')"
proof -
  define w1 where "w1 = observe r ResultResponse (env_Elapsed e n) w"
  define c where "c = (case retryableStatus (up_StatusCode resp) of
      None \<Rightarrow> Forwarding r resp | Some reason \<Rightarrow> Swapping r att reason resp)"
  have pre: "alone (at a (Attempting r att) [], w_State w) z" if "alone (at a c [], w_State w1) z" for z
    by (rule alone_step [OF req_step.attempt_answers [of a r att "w_State w" resp "env_Elapsed e n"]], rule alone_publish)
      (use that in \<open>simp add: c_def w1_def attemptCalls_def\<close>)
  show ?thesis
  proof (cases "retryableStatus (up_StatusCode resp)")
    case None
    with assms have "serve_final e a n r resp w1 = (res, w')" by (simp add: serve_answered_def w1_def [symmetric])
    from pre [OF _] alone_final [OF this assms(2)] None show ?thesis by (simp add: c_def)
  next
    case (Some reason)
    then have c: "c = Swapping r att reason resp" by (simp add: c_def)
    from Some assms obtain x s where sw: "SwapReservation (w_State w1) a (Some r) att = Some (x, s)"
      by (auto simp: serve_answered_def w1_def [symmetric] split: option.splits)
    then obtain t calls where l: "SwapReservation_locked (w_State w1) a (Some r) att = Some (x, t, calls)" and s: "s = emit calls t"
      by (auto simp: SwapReservation_def)
    show ?thesis
    proof (cases x)
      case (Inl er)
      with Some sw assms have "serve_final e a n r resp (w1\<lparr>w_State := s\<rparr>) = (res, w')"
        by (simp add: serve_answered_def w1_def [symmetric])
      from alone_final [OF this assms(2), of att] have "alone (at a (Forwarding r resp) [], emit calls t) (at a (afterRound att res) [], w_State w')"
        by (simp add: s)
      then have "alone (at a c [], w_State w1) (at a (afterRound att res) [], w_State w')"
        unfolding c by (rule alone_step [OF req_step.swap_refused [OF l [unfolded Inl]] alone_publish])
      then show ?thesis by (rule pre)
    next
      case (Inr nxt)
      with Some sw assms have met: "st_metrics t \<noteq> None" and res: "res = Inr nxt"
          and st: "w_State w' = emit (calls @ Failover a reason) t"
        by (auto simp: serve_answered_def w1_def [symmetric] countFailover_def s emit_emit Let_def split: option.splits)
      have "alone (at a c [], w_State w1) (at a (Attempting nxt (insert nxt att)) [], emit (calls @ Failover a reason) t)"
        unfolding c by (rule alone_step [OF swaps_counted [OF l [unfolded Inr] met]], rule alone_publish, rule alone_refl)
      from pre [OF this] show ?thesis by (simp add: afterRound_def res st)
    qed
  qed
qed

lemma alone_round:
  assumes "serve_round e h a payload n att r w = (res, w')" and "res \<noteq> Inl Panicked"
  shows "alone (at a (Attempting r att) [], w_State w) (at a (afterRound att res) [], w_State w')"
proof -
  obtain x w1 where x: "attempt e h n r payload w = (x, w1)" by fastforce
  note st = attempt_frame [OF this]
  show ?thesis
  proof (cases x)
    case (Inl err)
    with x assms(1) have "serve_failed e a n att r err w1 = (res, w')" by (simp add: serve_round_def)
    from alone_failed [OF this assms(2)] st show ?thesis by simp
  next
    case (Inr resp)
    with x assms(1) have "serve_answered e a n att r resp w1 = (res, w')" by (simp add: serve_round_def)
    from alone_answered [OF this assms(2)] st show ?thesis by simp
  qed
qed

lemma alone_loop:
  assumes "Serve_loop e h a payload n att r w = (res, w')" and "res \<noteq> Panicked"
  shows "alone (at a (Attempting r (insert r att)) [], w_State w) (at a (Finished res) [], w_State w')"
  using assms
proof (induction e h a payload n att r w rule: Serve_loop.induct)
  case (1 e h a payload n att r w)
  obtain x w1 where rd: "serve_round e h a payload n (insert r att) r w = (x, w1)" by fastforce
  show ?case
  proof (cases x)
    case (Inl y)
    with "1.prems" rd have "y = res" "w1 = w'" by (simp_all add: Serve_loop.simps)
    with Inl rd "1.prems" alone_round [OF rd] show ?thesis by (simp add: afterRound_def)
  next
    case (Inr nxt)
    with "1.prems"(1) rd have run: "Serve_loop e h a payload (Suc n) (insert r att) nxt w1 = (res, w')"
      by (simp add: Serve_loop.simps [of e h a payload n])
    from alone_round [OF rd] Inr have "alone (at a (Attempting r (insert r att)) [], w_State w)
        (at a (Attempting nxt (insert nxt (insert r att))) [], w_State w1)" by (simp add: afterRound_def)
    also have "alone \<dots> (at a (Finished res) [], w_State w')"
      by (rule "1.IH" [OF rd [symmetric] Inr run "1.prems"(2)])
    finally show ?thesis .
  qed
qed

lemma alone_Serve:
  assumes "Serve e h a payload w = (Returned status apiErr, w')"
  shows "alone (at a Start [], w_State w) (at a (Finished (Returned status apiErr)) [], w_State w')"
proof -
  from assms obtain x s where res: "Reserve (w_State w) a {} = Some (x, s)"
    by (auto simp: Serve_def split: option.splits)
  have start: "alone (at a Start [], w_State w) z" if "alone (at a (afterStart x) [], s) z" for z
    by (rule alone_step [OF req_step.starts [OF res] that])
  show ?thesis
  proof (cases x)
    case (Inl er)
    with assms res start [OF alone_refl] show ?thesis by (cases er) (auto simp: Serve_def afterStart_def)
  next
    case (Inr r)
    with assms res have "Serve_loop e h a payload 0 {} r (w\<lparr>w_State := s\<rparr>) = (Returned status apiErr, w')"
      by (simp add: Serve_def)
    from alone_loop [OF this] Inr show ?thesis by (intro start) (simp add: afterStart_def)
  qed
qed

lemma alone_answers:
  assumes "alone (at a (case retryableStatus (up_StatusCode resp) of
      None \<Rightarrow> Forwarding r resp | Some reason \<Rightarrow> Swapping r att reason resp) [], w_State (observe r ResultResponse t w)) z"
  shows "alone (at a (Attempting r att) [], w_State w) z"
  by (rule alone_step [OF req_step.attempt_answers [of a r att "w_State w" resp t]], rule alone_publish)
    (use assms in \<open>simp add: attemptCalls_def\<close>)

text \<open>A request that panics does so alone as well, while it forwards the response of the route it holds.\<close>

lemma alone_final_panics:
  assumes "serve_final e a n r resp w = (Inl Panicked, w')"
  shows "alone (at a (Forwarding r resp) [], w_State w) (at a (Crashed (Some r)) [], w_State w')"
proof -
  obtain x w1 where fw: "forward e n resp r a w = (x, w1)" by fastforce
  then have st: "w_State w1 = w_State w" by (cases rule: forward_cases) simp_all
  from assms fw have x: "x = Panicked" "w' = w1" by (cases x; simp add: serve_final_def)+
  show ?thesis by (rule alone_step [OF req_step.forward_panics [OF fw [unfolded x]]]) (simp add: x st)
qed

lemma alone_answered_panics:
  assumes "serve_answered e a n att r resp w = (Inl Panicked, w')" and "invState (w_State w)"
    and "st_metrics (w_State w) \<noteq> None"
  shows "alone (at a (Attempting r att) [], w_State w) (at a (Crashed (Some r)) [], w_State w')"
proof -
  define w1 where "w1 = observe r ResultResponse (env_Elapsed e n) w"
  show ?thesis
  proof (cases "retryableStatus (up_StatusCode resp)")
    case None
    with assms have "serve_final e a n r resp w1 = (Inl Panicked, w')" by (simp add: serve_answered_def w1_def [symmetric])
    from alone_final_panics [OF this] None show ?thesis by (intro alone_answers [where resp = resp and t = "env_Elapsed e n"]) (simp add: w1_def)
  next
    case (Some reason)
    have inv: "invState (w_State w1)" using assms(2) by (simp add: w1_def)
    from Swap_total [OF inv] obtain x s where sw: "SwapReservation (w_State w1) a (Some r) att = Some (x, s)" by fastforce
    then obtain t calls where l: "SwapReservation_locked (w_State w1) a (Some r) att = Some (x, t, calls)" and s: "s = emit calls t"
      by (auto simp: SwapReservation_def)
    show ?thesis
    proof (cases x)
      case (Inl er)
      with Some sw assms have "serve_final e a n r resp (w1\<lparr>w_State := s\<rparr>) = (Inl Panicked, w')"
        by (simp add: serve_answered_def w1_def [symmetric])
      from alone_final_panics [OF this]
      have "alone (at a (Forwarding r resp) [], emit calls t) (at a (Crashed (Some r)) [], w_State w')" by (simp add: s)
      then have "alone (at a (Swapping r att reason resp) [], w_State w1) (at a (Crashed (Some r)) [], w_State w')"
        by (rule alone_step [OF req_step.swap_refused [OF l [unfolded Inl]] alone_publish])
      with Some show ?thesis by (intro alone_answers [where resp = resp and t = "env_Elapsed e n"]) (simp add: w1_def)
    next
      case (Inr nxt)
      have "same_shape (w_State w1) t" using SwapReservation_locked_shape [OF invState_wf [OF inv] l] by simp
      then have "st_metrics s \<noteq> None" using assms(3) by (simp add: s w1_def same_shape_def)
      with Some sw assms Inr show ?thesis
        by (auto simp: serve_answered_def w1_def [symmetric] countFailover_def Let_def split: option.splits)
    qed
  qed
qed

lemma alone_round_panics:
  assumes "serve_round e h a payload n att r w = (Inl Panicked, w')" and "holding l r (w_State w)"
    and "st_metrics (w_State w) \<noteq> None"
  shows "alone (at a (Attempting r att) [], w_State w) (at a (Crashed (Some r)) [], w_State w')"
proof -
  obtain x w1 where x: "attempt e h n r payload w = (x, w1)" by fastforce
  note st = attempt_frame [OF this]
  show ?thesis
  proof (cases x)
    case (Inl err)
    with x assms(1) have f: "serve_failed e a n att r err w1 = (Inl Panicked, w')" by (simp add: serve_round_def)
    from assms(2,3) st have "holding l r (w_State w1)" "st_metrics (w_State w1) \<noteq> None" by simp_all
    from this(1) f this(2) show ?thesis by (cases rule: serve_failed_cases) simp_all
  next
    case (Inr resp)
    with x assms(1) have f: "serve_answered e a n att r resp w1 = (Inl Panicked, w')" by (simp add: serve_round_def)
    from alone_answered_panics [OF f] assms(2,3) st show ?thesis by (simp add: holding_inv)
  qed
qed

lemma alone_loop_panics:
  assumes "Serve_loop e h a payload n att r w = (Panicked, w')" and "holding l r (w_State w)"
    and "st_metrics (w_State w) \<noteq> None"
  shows "\<exists>r'. alone (at a (Attempting r (insert r att)) [], w_State w) (at a (Crashed (Some r')) [], w_State w')"
  using assms
proof (induction e h a payload n att r w rule: Serve_loop.induct)
  case (1 e h a payload n att r w)
  obtain x w1 where rd: "serve_round e h a payload n (insert r att) r w = (x, w1)" by fastforce
  show ?case
  proof (cases x)
    case (Inl y)
    with "1.prems" rd have "y = Panicked" "w1 = w'" by (simp_all add: Serve_loop.simps)
    with Inl rd "1.prems" alone_round_panics show ?thesis by blast
  next
    case (Inr nxt)
    with "1.prems"(1) rd have run: "Serve_loop e h a payload (Suc n) (insert r att) nxt w1 = (Panicked, w')"
      by (simp add: Serve_loop.simps [of e h a payload n])
    from "1.prems"(2) rd "1.prems"(3) have on: "holding l nxt (w_State w1)" "st_metrics (w_State w1) \<noteq> None"
      using Inr by (cases rule: serve_round_cases; simp add: steady_metrics)+
    from alone_round [OF rd] Inr have "alone (at a (Attempting r (insert r att)) [], w_State w)
        (at a (Attempting nxt (insert nxt (insert r att))) [], w_State w1)" by (simp add: afterRound_def)
    with "1.IH" [OF rd [symmetric] Inr run on] show ?thesis by (blast intro: alone_trans)
  qed
qed

lemma alone_Serve_panics:
  assumes "Serve e h a payload w = (Panicked, w')" and "invState (w_State w)" and "st_metrics (w_State w) \<noteq> None"
  shows "\<exists>r. alone (at a Start [], w_State w) (at a (Crashed (Some r)) [], w_State w')"
  using assms(2,3,1)
proof (cases rule: Serve_cases)
  case (routed r s)
  from alone_loop_panics [OF routed(6)] routed(3,7) obtain r' where
    "alone (at a (Attempting r {r}) [], s) (at a (Crashed (Some r')) [], w_State w')" by fastforce
  with alone_step [OF req_step.starts [OF routed(1)]] show ?thesis by (auto simp: afterStart_def)
qed simp_all

text \<open>
  C20: the interleaved model refines to \<open>Serve\<close>. Run without interference, a request thread goes
  from its start to the result \<open>Serve\<close> returns, with all its metrics published, and leaves
  exactly the state \<open>Serve\<close> leaves.
\<close>

theorem solo_run_is_Serve:
  assumes "Serve e h a payload w = (Returned status apiErr, w')"
  shows "alone (at a Start [], w_State w) (at a (Finished (Returned status apiErr)) [], w_State w')"
  by (rule alone_Serve [OF assms])

subsection \<open>A concrete interleaving\<close>

text \<open>
  Two requests on the example router. The first takes the only slot of backend \<open>a\<close> and is
  canceled; it has left the critical section of \<open>Release\<close> but not yet published the new
  in-flight value when the second request takes the slot.
\<close>

definition exFreed :: State where
  "exFreed = fst (Release_locked exBusy (Some exRoute0))"

definition exAgain :: State where
  "exAgain = snd (the (Reserve exFreed ''chat'' {}))"

lemma exFreed_Release: "Release_locked exBusy (Some exRoute0) = (exFreed, SetInflight ''a'' 0)"
  by (simp add: exFreed_def Release_locked_def exBusy_simps Let_def)

lemma exFreed_simps:
  "st_aliases exFreed = [''chat'' \<mapsto> exAlias]" "st_backends exFreed = [''a'' \<mapsto> 0, ''b'' \<mapsto> 1]"
  "st_cells exFreed = [exCell ''a'' 0, exCell ''b'' 0]"
  by (simp_all add: exFreed_def Release_locked_def exBusy_simps Let_def) (simp add: exCell_def)

lemma exAgain_Reserve: "Reserve exFreed ''chat'' {} = Some (Inr exRoute0, exAgain)"
  by (simp add: exAgain_def Reserve_def selectLocked_def exFreed_simps bsOf_def Let_def)

lemma exAgain_simps:
  "st_backends exAgain = [''a'' \<mapsto> 0, ''b'' \<mapsto> 1]" "st_cells exAgain = [exCell ''a'' 1, exCell ''b'' 0]"
  by (simp_all add: exAgain_def Reserve_def selectLocked_def exFreed_simps bsOf_def Let_def) (simp add: exCell_def)

abbreviation exPool :: "State \<Rightarrow> thread list \<Rightarrow> pool" where
  "exPool s ts \<equiv> \<lparr>po_State = s, po_Requests = ts, po_Probes = []\<rparr>"

lemma exPool_request0:
  "reachable s0 n (exPool s (t # ts)) \<Longrightarrow> req_step t s t' s' \<Longrightarrow> reachable s0 n (exPool s' (t' # ts))"
  by (rule reachable.step, assumption) (use pool_step.request [of 0 "exPool s (t # ts)" t' s'] in simp)

lemma exPool_request1:
  "reachable s0 n (exPool s [t, u]) \<Longrightarrow> req_step u s u' s' \<Longrightarrow> reachable s0 n (exPool s' [t, u'])"
  by (rule reachable.step, assumption) (use pool_step.request [of 1 "exPool s [t, u]" u' s'] in simp)

lemma exPool_arrival:
  "reachable s0 n (exPool s ts) \<Longrightarrow> reachable s0 n (exPool s (ts @ [at a Start []]))"
  by (rule reachable.step, assumption) (use pool_step.arrival [of "exPool s ts" a] in simp)

lemma exPool_busy: "reachable exState 0 (exPool exBusy [at ''chat'' (Attempting exRoute0 {exRoute0}) []])"
proof -
  have "reachable exState 0 (exPool exState [])" using reachable.initial [of exState 0] by (simp add: initialPool_def)
  from exPool_arrival [OF this, of "''chat''"] have "reachable exState 0 (exPool exState [at ''chat'' Start []])" by simp
  from exPool_request0 [OF this req_step.starts [OF exBusy_Reserve]] show ?thesis by (simp add: afterStart_def)
qed

lemma exState_idle: "\<forall>b. load exState b = 0"
  by (simp add: load_def exState_bsOf)

theorem capacity_under_interleaving_witness:
  "load exBusy ''a'' = 1 \<and> int (count (heldBy [at ''chat'' (Attempting exRoute0 {exRoute0}) []]) ''a'') = 1"
  using capacity_under_interleaving [OF exPool_busy exState_inv exState_idle, of "''a''"]
  by (simp add: load_def exBusy_bsOf)

theorem requests_progress_and_drain_witness:
  "\<exists>t' s'. req_step (at ''chat'' (Attempting exRoute0 {exRoute0}) []) exBusy t' s'"
  using requests_progress_and_drain [OF exPool_busy exState_inv exState_idle] by simp

theorem solo_run_is_Serve_witness:
  "\<exists>s'. alone (at ''chat'' Start [], exState) (at ''chat'' (Finished (Returned 200 None)) [], s')"
proof -
  obtain w' where run: "Serve (exEnv 200) [] ''chat'' [] exWorld = (Returned 200 None, w')"
    by (rule exServe_run [of 200]) (simp_all add: retryableStatus_def)
  from solo_run_is_Serve [OF run] show ?thesis by auto
qed

lemma exAgain_metrics: "\<exists>m. st_metrics exAgain = Some m"
  by (simp add: exAgain_def Reserve_def selectLocked_def exFreed_simps bsOf_def Let_def exFreed_def Release_locked_def
      exBusy_simps exBusy_def exState_simps exState_bsOf exState_def SetHealth_def SetHealth_locked_def publish_def exFresh_simps)

text \<open>
  A value that \<open>Release\<close> has still to publish can be overtaken by a reservation: the pool below is
  reachable, a request is in flight on backend \<open>a\<close>, no publication of the in-flight gauge is
  outstanding, and the gauge reads 0.
\<close>

lemma gauge_can_be_overtaken:
  "\<exists>p m. reachable exState 0 p \<and> load (po_State p) ''a'' = 1 \<and>
     st_metrics (po_State p) = Some m \<and> gauge_value m Inflight [''a''] = Some 0 \<and>
     filter (\<lambda>call. call_instrument call = Inflight) (concat (map th_pending (po_Requests p))) = []"
proof -
  define rest where "rest = attemptCalls exRoute0 ResultCanceled 0"
  have canceled: "isCanceled True marshalError" by (simp add: isCanceled_def)
  note p1 = exPool_request0 [OF exPool_busy req_step.attempt_canceled [OF canceled]]
  note p2 = exPool_request0 [OF p1 req_step.cancel_releases [OF exFreed_Release, of "''chat''" 0]]
  let ?done = "Finished (Returned StatusClientClosed None)"
  from exPool_arrival [OF p2, of "''chat''"]
  have p3: "reachable exState 0 (exPool exFreed [at ''chat'' ?done (SetInflight ''a'' 0 @ rest), at ''chat'' Start []])"
    by (simp add: rest_def)
  note p4 = exPool_request1 [OF p3 req_step.starts [OF exAgain_Reserve]]
  have "reachable exState 0 (exPool (emit [GaugeSet Inflight [''a''] 0] exAgain)
      [at ''chat'' ?done rest, at ''chat'' (Attempting exRoute0 {exRoute0}) []])" (is "reachable _ _ ?p")
    using exPool_request0 [OF p4 [unfolded SetInflight_def append_Cons append_Nil] req_step.publishes] by (simp add: afterStart_def)
  moreover from exAgain_metrics obtain m where "st_metrics exAgain = Some m" by blast
  then have "st_metrics (po_State ?p) = Some (m @ [GaugeSet Inflight [''a''] 0])" by simp
  moreover have "load (po_State ?p) ''a'' = 1" by (simp add: load_def bsOf_def exAgain_simps)
  moreover have "gauge_value (m @ [GaugeSet Inflight [''a''] 0]) Inflight [''a''] = Some 0" for m
    by (simp add: gauge_value_append)
  moreover have "filter (\<lambda>call. call_instrument call = Inflight) (concat (map th_pending (po_Requests ?p))) = []"
    by (simp add: rest_def attemptCalls_def ObserveAttempt_def)
  ultimately show ?thesis by blast
qed

subsection \<open>Two releases that overtake each other\<close>

lemma Release_locked_held:
  assumes inv: "invState s" and pos: "0 < load s (routeBackend r)"
  obtains s' where "Release_locked s (Some r) = (s', SetInflight (routeBackend r) (load s (routeBackend r) - 1))"
    "invState s'" "load s' = (load s)(routeBackend r := load s (routeBackend r) - 1)" "st_metrics s' = st_metrics s"
  using invState_wf [OF inv]
proof (cases rule: Release_locked_cases [of s "Some r"])
  case (freed r' bs s')
  then show thesis
    using Release_locked_inv [OF inv freed(8)] load_eq [OF freed(2)] load_upd [OF freed(5)]
    by (intro that [of s']) simp_all
qed (use pos in \<open>auto simp: load_def\<close>)

lemma publish_request0:
  "reachable s0 n (exPool s (at a c calls # ts)) \<Longrightarrow> reachable s0 n (exPool (emit calls s) (at a c [] # ts))"
proof (induction calls arbitrary: s)
  case (Cons call calls)
  from Cons.IH [OF exPool_request0 [OF Cons.prems req_step.publishes]] show ?case by (simp add: emit_emit)
qed (simp add: emit_def option.map_ident)

lemma publish_request1:
  "reachable s0 n (exPool s [t, at a c calls]) \<Longrightarrow> reachable s0 n (exPool (emit calls s) [t, at a c []])"
proof (induction calls arbitrary: s)
  case (Cons call calls)
  from Cons.IH [OF exPool_request1 [OF Cons.prems req_step.publishes]] show ?case by (simp add: emit_emit)
qed (simp add: emit_def option.map_ident)

lemma attemptCalls_gauge: "gauge_value (attemptCalls r label t) Inflight ls = None"
  by (simp add: attemptCalls_def ObserveAttempt_def)

text \<open>
  C36: the in-flight gauge can be left with a wrong value. \<open>Release\<close> publishes the counter after it
  has left the critical section, so of two releases on one backend the older value can be published
  last. Whenever two requests for an alias can be given slots of the same idle backend, the
  process can reach a state in which both have returned, every slot is free, nothing is left to
  publish, and the gauge of that backend reads 1.
\<close>

theorem inflight_gauge_can_be_stale:
  assumes "invState s0" and "st_metrics s0 \<noteq> None" and "\<forall>b. load s0 b = 0"
    and "Reserve s0 a {} = Some (Inr r, s1)" and "Reserve s1 a {} = Some (Inr r', s2)"
    and "routeBackend r' = routeBackend r"
  shows "\<exists>p m. reachable s0 0 p \<and> length (po_Requests p) = 2 \<and>
    (\<forall>t\<in>set (po_Requests p). (\<exists>res. th_ctl t = Finished res) \<and> th_pending t = []) \<and>
    (\<forall>b. load (po_State p) b = 0) \<and>
    st_metrics (po_State p) = Some m \<and> gauge_value m Inflight [routeBackend r] = Some 1"
proof -
  let ?b = "routeBackend r"
  note r1 = Reserve_effect [OF assms(1,4)]
  note r2 = Reserve_effect [OF steady_inv [OF r1(1)] assms(5)]
  from assms(3) have l0: "load s0 = (\<lambda>_. 0)" by auto
  have inv2: "invState s2" and l2: "load s2 = (\<lambda>b. if b = ?b then 2 else 0)" and m2: "st_metrics s2 \<noteq> None"
    using r1(2) r2(2) assms(2,6) steady_inv [OF r2(1)] steady_metrics [OF steady_trans [OF r1(1) r2(1)]]
    by (auto simp: bump_def l0)
  obtain s3 where s3: "Release_locked s2 (Some r) = (s3, SetInflight ?b 1)" "invState s3"
      "load s3 = (\<lambda>b. if b = ?b then 1 else 0)" "st_metrics s3 = st_metrics s2"
    by (rule Release_locked_held [OF inv2, of r]) (auto simp: l2 fun_eq_iff)
  obtain s4 where s4: "Release_locked s3 (Some r') = (s4, SetInflight ?b 0)" "load s4 = (\<lambda>b. 0)" "st_metrics s4 = st_metrics s3"
    by (rule Release_locked_held [OF s3(2), of r']) (auto simp: s3(3) assms(6) fun_eq_iff)
  have canceled: "isCanceled True marshalError" by (simp add: isCanceled_def)
  let ?done = "Finished (Returned StatusClientClosed None)" and ?calls = "\<lambda>r v. SetInflight ?b v @ attemptCalls r ResultCanceled 0"
  have "reachable s0 0 (exPool s0 [])" using reachable.initial [of s0 0] by (simp add: initialPool_def)
  from exPool_arrival [OF exPool_arrival [OF this]] have "reachable s0 0 (exPool s0 [at a Start [], at a Start []])" by simp
  from exPool_request0 [OF this req_step.starts [OF assms(4)]]
  have "reachable s0 0 (exPool s1 [at a (Attempting r {r}) [], at a Start []])" by (simp add: afterStart_def)
  from exPool_request1 [OF this req_step.starts [OF assms(5)]]
  have "reachable s0 0 (exPool s2 [at a (Attempting r {r}) [], at a (Attempting r' {r'}) []])" by (simp add: afterStart_def)
  note c0 = exPool_request0 [OF this req_step.attempt_canceled [OF canceled]]
  note c1 = exPool_request1 [OF c0 req_step.attempt_canceled [OF canceled]]
  note f0 = exPool_request0 [OF c1 req_step.cancel_releases [OF s3(1), of a 0]]
  note f1 = exPool_request1 [OF f0 req_step.cancel_releases [OF s4(1), of a 0]]
  note all = publish_request0 [OF publish_request1 [OF f1]]
  from m2 s3(4) s4(3) obtain m where m: "st_metrics s4 = Some m" by auto
  show ?thesis
    by (rule exI, rule exI [of _ "m @ ?calls r' 0 @ ?calls r 1"], rule conjI, rule all)
      (simp add: m s4(2) load_emit gauge_value_append attemptCalls_gauge SetInflight_def)
qed

text \<open>A router with one backend that takes two requests at a time.\<close>

definition exWideBackend :: Backend where
  "exWideBackend = (exBackend ''a'')\<lparr>b_MaxInflight := 2\<rparr>"

definition exWideConfig :: Config where
  "exWideConfig = exConfig\<lparr>cfg_Aliases := [\<lparr>ac_Name = ''chat'', ac_Routes =
     [\<lparr>rc_Backend = ''a'', rc_UpstreamModel = ''m1'', rc_Priority = 10\<rparr>]\<rparr>]\<rparr>"

definition exWideRoute :: Route where
  "exWideRoute = \<lparr>r_Alias = ''chat'', r_Backend = exWideBackend, r_UpstreamModel = ''m1'', r_Priority = 10, r_Order = 0\<rparr>"

definition exWideStart :: State where
  "exWideStart = projr (NewState exWideConfig [exWideBackend] (Some []))"

definition exWide :: State where
  "exWide = SetHealth exWideStart ''a'' True"

lemma exWide_eq: "NewState exWideConfig [exWideBackend] (Some []) = Inr exWideStart"
  by (simp add: exWideStart_def exWideConfig_def NewState_def exConfig_def exWideBackend_def exBackend_def addBackend_def
      emptyState_def emit_def bsOf_def mkRoute_def addAlias_def)

lemma exWideStart_simps:
  "st_aliases exWideStart = [''chat'' \<mapsto> \<lparr>as_name = ''chat'', as_routes = [exWideRoute]\<rparr>]"
  "st_backends exWideStart = [''a'' \<mapsto> 0]"
  "st_cells exWideStart = [\<lparr>bs_backend = exWideBackend, bs_checked = False, bs_healthy = False, bs_inflight = 0\<rparr>]"
  "st_metrics exWideStart = Some (InitBackend ''a'')"
  by (simp_all add: exWideStart_def exWideConfig_def NewState_def exConfig_def exWideBackend_def exBackend_def addBackend_def
      emptyState_def emit_def bsOf_def mkRoute_def addAlias_def exWideRoute_def Let_def)

lemma exWide_simps:
  "st_aliases exWide = [''chat'' \<mapsto> \<lparr>as_name = ''chat'', as_routes = [exWideRoute]\<rparr>]"
  "bsOf exWide = [''a'' \<mapsto> \<lparr>bs_backend = exWideBackend, bs_checked = True, bs_healthy = True, bs_inflight = 0\<rparr>]"
  "st_backends exWide = [''a'' \<mapsto> 0]"
  "st_cells exWide = [\<lparr>bs_backend = exWideBackend, bs_checked = True, bs_healthy = True, bs_inflight = 0\<rparr>]"
  "st_metrics exWide \<noteq> None"
  by (auto simp: exWide_def SetHealth_def SetHealth_locked_def publish_def exWideStart_simps bsOf_def fun_eq_iff)

lemma exWideRoute_simps: "routeBackend exWideRoute = ''a''" "b_MaxInflight exWideBackend = 2"
  by (simp_all add: exWideRoute_def exWideBackend_def exBackend_def)

theorem inflight_gauge_can_be_stale_witness:
  "\<exists>p m. reachable exWide 0 p \<and> (\<forall>b. load (po_State p) b = 0) \<and>
     st_metrics (po_State p) = Some m \<and> gauge_value m Inflight [''a''] = Some 1"
proof -
  obtain s1 where r1: "Reserve exWide ''chat'' {} = Some (Inr exWideRoute, s1)"
      and "st_aliases s1 = st_aliases exWide" "st_backends s1 = [''a'' \<mapsto> 0]"
      "st_cells s1 = [\<lparr>bs_backend = exWideBackend, bs_checked = True, bs_healthy = True, bs_inflight = 1\<rparr>]"
    by (auto simp: Reserve_def selectLocked_def exWide_simps exWideRoute_simps Let_def)
  then obtain s2 where "Reserve s1 ''chat'' {} = Some (Inr exWideRoute, s2)"
    by (auto simp: Reserve_def selectLocked_def exWide_simps exWideRoute_simps Let_def bsOf_def)
  moreover have "invState exWide"
    unfolding exWide_def
    by (rule SetHealth_inv) (use NewState_Inr [OF exWide_eq] in \<open>simp add: invState_def capacity_ok_def\<close>)
  moreover have "\<forall>b. load exWide b = 0" by (simp add: load_def exWide_simps)
  ultimately show ?thesis
    using inflight_gauge_can_be_stale [OF _ exWide_simps(5) _ r1] exWideRoute_simps(1) by fastforce
qed

end
