(* ===== verification/Validate.thy ===== *)
theory Validate
  imports Url
begin

text \<open>
  \<^verbatim>\<open>internal/config/validate.go\<close> and \<^verbatim>\<open>internal/config/load.go\<close>: the checks a configuration
  has to pass, and the way from a file to a checked configuration. The error texts of the
  source are represented by constructors that carry what the texts mention.
\<close>

subsection \<open>Bounds and errors\<close>

definition MinMaxInflight :: int where "MinMaxInflight = 1"
definition MaxMaxInflight :: int where "MaxMaxInflight = 100000"
definition MinResponseHeaderTimeoutMS :: int where "MinResponseHeaderTimeoutMS = 1000"
definition MaxResponseHeaderTimeoutMS :: int where "MaxResponseHeaderTimeoutMS = 900000"
definition MinResponseIdleTimeoutMS :: int where "MinResponseIdleTimeoutMS = 1000"
definition MaxResponseIdleTimeoutMS :: int where "MaxResponseIdleTimeoutMS = 900000"
definition MaxPriority :: int where "MaxPriority = 1000000"
definition maxBackendNameLen :: nat where "maxBackendNameLen = 64"
definition maxAliasNameLen :: nat where "maxAliasNameLen = 128"
definition maxUpstreamModelLen :: nat where "maxUpstreamModelLen = 256"

lemmas bound_defs = MinMaxInflight_def MaxMaxInflight_def MinResponseHeaderTimeoutMS_def MaxResponseHeaderTimeoutMS_def
  MinResponseIdleTimeoutMS_def MaxResponseIdleTimeoutMS_def MaxPriority_def

datatype nameError = NameEmpty | NameTooLong nat | NameBadCharacter

datatype backendError =
    BackendName nameError | BackendDuplicate string | BackendKind | BackendURL urlError
  | BackendMaxInflight | BackendHeaderTimeout | BackendIdleTimeout | BackendEnv string
  | BackendOrigin string string

datatype routeCfgError =
    RouteUnknownBackend string | RouteModelEmpty | RouteModelTooLong | RouteModelControl
  | RoutePriority | RouteDuplicate string string

datatype aliasError =
    AliasName nameError | AliasDuplicate string | AliasNoRoutes | AliasRoute nat routeCfgError

datatype configError =
    ConfigEmpty | ConfigVersion | ConfigListen | ConfigEnv string
  | ConfigNoBackends | ConfigBackend nat backendError
  | ConfigNoAliases | ConfigAlias nat aliasError


subsection \<open>Names\<close>

definition isAlphanumeric :: "char \<Rightarrow> bool" where
  "isAlphanumeric c \<longleftrightarrow> isUpper c \<or> isLower c \<or> isDigit c"

definition isBackendNameByte :: "char \<Rightarrow> bool" where
  "isBackendNameByte c \<longleftrightarrow> isAlphanumeric c \<or> c = CHR ''_'' \<or> c = CHR ''.'' \<or> c = CHR ''-''"

definition isAliasNameByte :: "char \<Rightarrow> bool" where
  "isAliasNameByte c \<longleftrightarrow> isAlphanumeric c \<or> c = CHR ''_'' \<or> c = CHR ''.'' \<or> c = CHR '':'' \<or> c = CHR ''/'' \<or> c = CHR ''-''"

definition validateName :: "string \<Rightarrow> nat \<Rightarrow> (char \<Rightarrow> bool) \<Rightarrow> nameError option" where
  "validateName name maxLen allowed =
     (if name = '''' then Some NameEmpty
      else if length name > maxLen then Some (NameTooLong maxLen)
      else if \<not> list_all allowed name then Some NameBadCharacter
      else None)"

text \<open>The byte loop of \<open>validateEnvName\<close>; the first argument is the index.\<close>

fun envNameLoop :: "nat \<Rightarrow> string \<Rightarrow> bool" where
  "envNameLoop i [] = True"
| "envNameLoop i (c # cs) =
     (if c = CHR ''_'' then envNameLoop (Suc i) cs
      else if isUpper c \<or> isLower c then envNameLoop (Suc i) cs
      else if isDigit c \<and> i > 0 then envNameLoop (Suc i) cs
      else False)"

definition validateEnvName :: "string \<Rightarrow> string option" where
  "validateEnvName name = (if name = '''' then None else if envNameLoop 0 name then None else Some name)"

fun hasControlBytes :: "string \<Rightarrow> bool" where
  "hasControlBytes [] = False"
| "hasControlBytes (c # cs) = (if byte c < 32 \<or> byte c = 127 then True else hasControlBytes cs)"


subsection \<open>Validation\<close>

definition validateListen :: "string \<Rightarrow> configError option" where
  "validateListen listen =
     (case SplitHostPort listen of
        None \<Rightarrow> Some ConfigListen
      | Some (host, port) \<Rightarrow>
         if TrimSpace host = '''' then Some ConfigListen
         else (case Atoi port of
             None \<Rightarrow> Some ConfigListen
           | Some number \<Rightarrow> if number < 1 \<or> number > 65535 then Some ConfigListen else None))"

text \<open>
  One round of the loop over the backends: \<open>known\<close> are the names so far, \<open>origins\<close> maps the
  origin keys so far to the backend that has them.
\<close>

definition validateBackend ::
  "string list \<Rightarrow> (string \<times> string) list \<Rightarrow> BackendConfig \<Rightarrow> backendError + string" where
  "validateBackend known origins b =
     (case validateName (bc_Name b) maxBackendNameLen isBackendNameByte of
        Some e \<Rightarrow> Inl (BackendName e)
      | None \<Rightarrow>
         if bc_Name b \<in> set known then Inl (BackendDuplicate (bc_Name b))
         else if bc_Kind b \<noteq> KindOllama \<and> bc_Kind b \<noteq> KindLlamaCPP \<and> bc_Kind b \<noteq> KindVLLM then Inl BackendKind
         else (case ParseBaseURL (bc_BaseURL b) of
             Inl e \<Rightarrow> Inl (BackendURL e)
           | Inr baseURL \<Rightarrow>
               if bc_MaxInflight b < MinMaxInflight \<or> bc_MaxInflight b > MaxMaxInflight then Inl BackendMaxInflight
               else if bc_ResponseHeaderTimeoutMS b < MinResponseHeaderTimeoutMS \<or>
                 bc_ResponseHeaderTimeoutMS b > MaxResponseHeaderTimeoutMS then Inl BackendHeaderTimeout
               else if bc_ResponseIdleTimeoutMS b < MinResponseIdleTimeoutMS \<or>
                 bc_ResponseIdleTimeoutMS b > MaxResponseIdleTimeoutMS then Inl BackendIdleTimeout
               else (case validateEnvName (bc_BearerTokenEnv b) of
                   Some e \<Rightarrow> Inl (BackendEnv e)
                 | None \<Rightarrow>
                    (let origin = canonicalOriginKey baseURL
                     in case map_of origins origin of
                          Some previous \<Rightarrow> Inl (BackendOrigin origin previous)
                        | None \<Rightarrow> Inr origin))))"

fun validateBackendsFrom ::
  "nat \<Rightarrow> string list \<Rightarrow> (string \<times> string) list \<Rightarrow> BackendConfig list \<Rightarrow> configError + string list" where
  "validateBackendsFrom i known origins [] = Inr known"
| "validateBackendsFrom i known origins (b # bs) =
     (case validateBackend known origins b of
        Inl e \<Rightarrow> Inl (ConfigBackend i e)
      | Inr origin \<Rightarrow> validateBackendsFrom (Suc i) (bc_Name b # known) ((origin, bc_Name b) # origins) bs)"

definition validateBackends :: "BackendConfig list \<Rightarrow> configError + string list" where
  "validateBackends bs = (if bs = [] then Inl ConfigNoBackends else validateBackendsFrom 0 [] [] bs)"

definition validateRoute :: "string list \<Rightarrow> string list \<Rightarrow> RouteConfig \<Rightarrow> routeCfgError + string" where
  "validateRoute known seenRoute r =
     (let model = TrimSpace (rc_UpstreamModel r); key = rc_Backend r @ [CHR 0x00] @ model
      in if rc_Backend r \<notin> set known then Inl (RouteUnknownBackend (rc_Backend r))
         else if model = '''' then Inl RouteModelEmpty
         else if length model > maxUpstreamModelLen then Inl RouteModelTooLong
         else if hasControlBytes model then Inl RouteModelControl
         else if rc_Priority r < 0 \<or> rc_Priority r > MaxPriority then Inl RoutePriority
         else if key \<in> set seenRoute then Inl (RouteDuplicate (rc_Backend r) model)
         else Inr key)"

fun validateRoutesFrom :: "string list \<Rightarrow> nat \<Rightarrow> string list \<Rightarrow> RouteConfig list \<Rightarrow> aliasError option" where
  "validateRoutesFrom known j seenRoute [] = None"
| "validateRoutesFrom known j seenRoute (r # rs) =
     (case validateRoute known seenRoute r of
        Inl e \<Rightarrow> Some (AliasRoute j e)
      | Inr key \<Rightarrow> validateRoutesFrom known (Suc j) (key # seenRoute) rs)"

definition validateAlias :: "string list \<Rightarrow> string list \<Rightarrow> AliasConfig \<Rightarrow> aliasError option" where
  "validateAlias known seenAlias a =
     (case validateName (ac_Name a) maxAliasNameLen isAliasNameByte of
        Some e \<Rightarrow> Some (AliasName e)
      | None \<Rightarrow>
         if ac_Name a \<in> set seenAlias then Some (AliasDuplicate (ac_Name a))
         else if ac_Routes a = [] then Some AliasNoRoutes
         else validateRoutesFrom known 0 [] (ac_Routes a))"

fun validateAliasesFrom :: "string list \<Rightarrow> nat \<Rightarrow> string list \<Rightarrow> AliasConfig list \<Rightarrow> configError option" where
  "validateAliasesFrom known i seenAlias [] = None"
| "validateAliasesFrom known i seenAlias (a # as) =
     (case validateAlias known seenAlias a of
        Some e \<Rightarrow> Some (ConfigAlias i e)
      | None \<Rightarrow> validateAliasesFrom known (Suc i) (ac_Name a # seenAlias) as)"

definition validateAliases :: "AliasConfig list \<Rightarrow> string list \<Rightarrow> configError option" where
  "validateAliases as known = (if as = [] then Some ConfigNoAliases else validateAliasesFrom known 0 [] as)"

text \<open>\<open>Validate\<close>; the argument is a pointer in the source, \<open>None\<close> here when it is nil.\<close>

definition Validate :: "Config option \<Rightarrow> configError option" where
  "Validate cfg =
     (case cfg of
        None \<Rightarrow> Some ConfigEmpty
      | Some c \<Rightarrow>
         if cfg_Version c \<noteq> 1 then Some ConfigVersion
         else (case validateListen (cfg_Listen c) of
             Some e \<Rightarrow> Some e
           | None \<Rightarrow>
              (case validateEnvName (cfg_BearerTokenEnv c) of
                 Some e \<Rightarrow> Some (ConfigEnv e)
               | None \<Rightarrow>
                  (case validateBackends (cfg_Backends c) of
                     Inl e \<Rightarrow> Some e
                   | Inr known \<Rightarrow> validateAliases (cfg_Aliases c) known))))"

subsection \<open>Loading a file\<close>

definition applyDefaultsBackend :: "BackendConfig \<Rightarrow> BackendConfig" where
  "applyDefaultsBackend b =
     (let b1 = (if bc_ResponseHeaderTimeoutMS b = 0
                then b\<lparr>bc_ResponseHeaderTimeoutMS := DefaultResponseHeaderTimeoutMS\<rparr> else b)
      in if bc_ResponseIdleTimeoutMS b1 = 0
         then b1\<lparr>bc_ResponseIdleTimeoutMS := DefaultResponseIdleTimeoutMS\<rparr> else b1)"

definition applyDefaults :: "Config \<Rightarrow> Config" where
  "applyDefaults cfg =
     (let c1 = (if TrimSpace (cfg_Listen cfg) = '''' then cfg\<lparr>cfg_Listen := DefaultListen\<rparr> else cfg)
      in c1\<lparr>cfg_Backends := map applyDefaultsBackend (cfg_Backends c1)\<rparr>)"

text \<open>
  The YAML library is outside the repository: \<open>yaml data n\<close> is the result of the \<open>n\<close>-th call of
  \<open>Decode\<close> on a decoder for \<open>data\<close> that rejects unknown fields.
\<close>

datatype yamlResult = YamlDocument Config | YamlEOF | YamlError string

datatype loadError =
    LoadOS string | LoadTooLarge | LoadEmpty | LoadYaml string | LoadMultiple | LoadInvalid configError

definition Decode :: "(string \<Rightarrow> nat \<Rightarrow> yamlResult) \<Rightarrow> string \<Rightarrow> loadError + Config" where
  "Decode yaml data =
     (if TrimSpace data = '''' then Inl LoadEmpty
      else (case yaml data 0 of
          YamlEOF \<Rightarrow> Inl LoadEmpty
        | YamlError e \<Rightarrow> Inl (LoadYaml e)
        | YamlDocument cfg \<Rightarrow>
           (case yaml data 1 of
              YamlDocument _ \<Rightarrow> Inl LoadMultiple
            | YamlError e \<Rightarrow> Inl (LoadYaml e)
            | YamlEOF \<Rightarrow> Inr (applyDefaults cfg))))"

text \<open>
  The file system: the result of \<open>Stat\<close> (an error or the size), whether \<open>Open\<close> fails, and the
  bytes that can be read with the error that ends them, if any. The file may have changed
  since \<open>Stat\<close>.
\<close>

record fileSystem =
  fs_Stat :: "string \<Rightarrow> string + int"
  fs_Open :: "string \<Rightarrow> string option"
  fs_Read :: "string \<Rightarrow> string \<times> string option"

definition readLimited :: "nat \<Rightarrow> string \<times> string option \<Rightarrow> string + string" where
  "readLimited limit content =
     (if length (fst content) \<ge> limit then Inr (take limit (fst content))
      else (case snd content of Some e \<Rightarrow> Inl e | None \<Rightarrow> Inr (fst content)))"

definition readFile :: "fileSystem \<Rightarrow> string \<Rightarrow> loadError + string" where
  "readFile fs path =
     (case fs_Stat fs path of
        Inl e \<Rightarrow> Inl (LoadOS e)
      | Inr fileSize \<Rightarrow>
         if fileSize > MaxConfigBytes then Inl LoadTooLarge
         else (case fs_Open fs path of
             Some e \<Rightarrow> Inl (LoadOS e)
           | None \<Rightarrow>
              (case readLimited (nat (MaxConfigBytes + 1)) (fs_Read fs path) of
                 Inl e \<Rightarrow> Inl (LoadOS e)
               | Inr data \<Rightarrow> if int (length data) > MaxConfigBytes then Inl LoadTooLarge else Inr data)))"

definition Load :: "fileSystem \<Rightarrow> (string \<Rightarrow> nat \<Rightarrow> yamlResult) \<Rightarrow> string \<Rightarrow> loadError + Config" where
  "Load fs yaml path =
     (case readFile fs path of
        Inl e \<Rightarrow> Inl e
      | Inr data \<Rightarrow>
         (case Decode yaml data of
            Inl e \<Rightarrow> Inl e
          | Inr cfg \<Rightarrow> (case Validate (Some cfg) of Some e \<Rightarrow> Inl (LoadInvalid e) | None \<Rightarrow> Inr cfg)))"


subsection \<open>What a valid configuration is\<close>

definition valid_name :: "nat \<Rightarrow> (char \<Rightarrow> bool) \<Rightarrow> string \<Rightarrow> bool" where
  "valid_name maxLen allowed n \<longleftrightarrow> n \<noteq> [] \<and> length n \<le> maxLen \<and> (\<forall>c\<in>set n. allowed c)"

text \<open>Empty, or a letter or underscore followed by letters, digits and underscores.\<close>

definition valid_env :: "string \<Rightarrow> bool" where
  "valid_env n \<longleftrightarrow> n = [] \<or> (\<not> isDigit (hd n) \<and> (\<forall>c\<in>set n. isAlphanumeric c \<or> c = CHR ''_''))"

definition valid_backend :: "BackendConfig \<Rightarrow> bool" where
  "valid_backend b \<longleftrightarrow> valid_name 64 isBackendNameByte (bc_Name b) \<and>
     bc_Kind b \<in> {KindOllama, KindLlamaCPP, KindVLLM} \<and> (\<exists>u. ParseBaseURL (bc_BaseURL b) = Inr u) \<and>
     1 \<le> bc_MaxInflight b \<and> bc_MaxInflight b \<le> 100000 \<and>
     1000 \<le> bc_ResponseHeaderTimeoutMS b \<and> bc_ResponseHeaderTimeoutMS b \<le> 900000 \<and>
     1000 \<le> bc_ResponseIdleTimeoutMS b \<and> bc_ResponseIdleTimeoutMS b \<le> 900000 \<and> valid_env (bc_BearerTokenEnv b)"

definition originOf :: "BackendConfig \<Rightarrow> string" where
  "originOf b = canonicalOriginKey (projr (ParseBaseURL (bc_BaseURL b)))"

definition routeId :: "RouteConfig \<Rightarrow> string \<times> string" where
  "routeId r = (rc_Backend r, TrimSpace (rc_UpstreamModel r))"

definition valid_route :: "string set \<Rightarrow> RouteConfig \<Rightarrow> bool" where
  "valid_route names r \<longleftrightarrow> rc_Backend r \<in> names \<and> snd (routeId r) \<noteq> [] \<and> length (snd (routeId r)) \<le> 256 \<and>
     (\<forall>c\<in>set (snd (routeId r)). 32 \<le> byte c \<and> byte c \<noteq> 127) \<and> 0 \<le> rc_Priority r \<and> rc_Priority r \<le> 1000000"

definition valid_alias :: "string set \<Rightarrow> AliasConfig \<Rightarrow> bool" where
  "valid_alias names a \<longleftrightarrow> valid_name 128 isAliasNameByte (ac_Name a) \<and> ac_Routes a \<noteq> [] \<and>
     (\<forall>r\<in>set (ac_Routes a). valid_route names r) \<and> distinct (map routeId (ac_Routes a))"

definition valid_listen :: "string \<Rightarrow> bool" where
  "valid_listen l \<longleftrightarrow> (\<exists>host port n. SplitHostPort l = Some (host, port) \<and> TrimSpace host \<noteq> [] \<and>
     Atoi port = Some n \<and> 1 \<le> n \<and> n \<le> 65535)"

definition valid_config :: "Config \<Rightarrow> bool" where
  "valid_config c \<longleftrightarrow> cfg_Version c = 1 \<and> valid_listen (cfg_Listen c) \<and> valid_env (cfg_BearerTokenEnv c) \<and>
     cfg_Backends c \<noteq> [] \<and> (\<forall>b\<in>set (cfg_Backends c). valid_backend b) \<and>
     distinct (map bc_Name (cfg_Backends c)) \<and> distinct (map originOf (cfg_Backends c)) \<and>
     cfg_Aliases c \<noteq> [] \<and> (\<forall>a\<in>set (cfg_Aliases c). valid_alias (bc_Name ` set (cfg_Backends c)) a) \<and>
     distinct (map ac_Name (cfg_Aliases c))"

lemma validateName_None: "validateName n m f = None \<longleftrightarrow> valid_name m f n"
  by (auto simp: validateName_def valid_name_def list_all_iff)

lemma envNameLoop_iff:
  "envNameLoop i s \<longleftrightarrow> (s \<noteq> [] \<and> i = 0 \<longrightarrow> \<not> isDigit (hd s)) \<and> (\<forall>c\<in>set s. isAlphanumeric c \<or> c = CHR ''_'')"
proof (induction i s rule: envNameLoop.induct)
  case (2 i c cs)
  have "isDigit c \<Longrightarrow> \<not> (isUpper c \<or> isLower c) \<and> c \<noteq> CHR ''_''"
    by (auto simp: isDigit_def isUpper_def isLower_def)
  with 2 show ?case by (auto simp: isAlphanumeric_def)
qed simp

lemma validateEnvName_None: "validateEnvName n = None \<longleftrightarrow> valid_env n"
  by (auto simp: validateEnvName_def valid_env_def envNameLoop_iff)

lemma hasControlBytes_iff: "hasControlBytes s \<longleftrightarrow> \<not> (\<forall>c\<in>set s. 32 \<le> byte c \<and> byte c \<noteq> 127)"
  by (induction s) auto

lemma validateListen_None: "validateListen l = None \<longleftrightarrow> valid_listen l"
  by (auto simp: validateListen_def valid_listen_def split: option.splits)

lemma validateBackend_Inr:
  "validateBackend known origins b = Inr k \<longleftrightarrow>
     valid_backend b \<and> bc_Name b \<notin> set known \<and> k = originOf b \<and> k \<notin> fst ` set origins"
proof (cases "ParseBaseURL (bc_BaseURL b)")
  case (Inl e)
  then show ?thesis by (auto simp: validateBackend_def valid_backend_def split: option.splits if_splits)
next
  case (Inr u)
  have checks: "valid_backend b \<longleftrightarrow> validateName (bc_Name b) maxBackendNameLen isBackendNameByte = None \<and>
      \<not> (bc_Kind b \<noteq> KindOllama \<and> bc_Kind b \<noteq> KindLlamaCPP \<and> bc_Kind b \<noteq> KindVLLM) \<and>
      \<not> (bc_MaxInflight b < MinMaxInflight \<or> bc_MaxInflight b > MaxMaxInflight) \<and>
      \<not> (bc_ResponseHeaderTimeoutMS b < MinResponseHeaderTimeoutMS \<or> bc_ResponseHeaderTimeoutMS b > MaxResponseHeaderTimeoutMS) \<and>
      \<not> (bc_ResponseIdleTimeoutMS b < MinResponseIdleTimeoutMS \<or> bc_ResponseIdleTimeoutMS b > MaxResponseIdleTimeoutMS) \<and>
      validateEnvName (bc_BearerTokenEnv b) = None"
    using Inr by (simp only: valid_backend_def validateName_None validateEnvName_None bound_defs maxBackendNameLen_def) auto
  have origin: "originOf b = canonicalOriginKey u" using Inr by (simp add: originOf_def)
  have seen: "canonicalOriginKey u \<in> fst ` set origins \<longleftrightarrow> map_of origins (canonicalOriginKey u) \<noteq> None"
    by (simp only: map_of_eq_None_iff) blast
  have "validateBackend known origins b = Inr k \<longleftrightarrow>
     valid_backend b \<and> bc_Name b \<notin> set known \<and> k = originOf b \<and> originOf b \<notin> fst ` set origins"
    unfolding checks origin seen validateBackend_def Inr Let_def by (auto split: option.split if_split)
  then show ?thesis by auto
qed

lemma validateBackendsFrom_Inr:
  "validateBackendsFrom i known origins bs = Inr known' \<longleftrightarrow>
     known' = rev (map bc_Name bs) @ known \<and> (\<forall>b\<in>set bs. valid_backend b) \<and>
     distinct (map bc_Name bs) \<and> set (map bc_Name bs) \<inter> set known = {} \<and>
     distinct (map originOf bs) \<and> set (map originOf bs) \<inter> fst ` set origins = {}"
proof (induction i known origins bs rule: validateBackendsFrom.induct)
  case (2 i known origins b bs)
  show ?case
  proof (cases "validateBackend known origins b")
    case (Inl e)
    then show ?thesis using validateBackend_Inr [of known origins b "originOf b"] by auto
  next
    case (Inr k)
    then have "valid_backend b" "bc_Name b \<notin> set known" "k = originOf b" "k \<notin> fst ` set origins"
      using validateBackend_Inr by blast+
    then show ?thesis using "2.IH" [OF Inr] Inr by auto
  qed
qed auto

definition routeKey0 :: "RouteConfig \<Rightarrow> string" where
  "routeKey0 r = rc_Backend r @ [CHR 0x00] @ TrimSpace (rc_UpstreamModel r)"

lemma validateRoute_Inr:
  "validateRoute known seen r = Inr k \<longleftrightarrow> valid_route (set known) r \<and> k = routeKey0 r \<and> k \<notin> set seen"
  by (auto simp: validateRoute_def Let_def valid_route_def routeId_def routeKey0_def maxUpstreamModelLen_def
      MaxPriority_def hasControlBytes_iff)

lemma validateRoutesFrom_None:
  "validateRoutesFrom known j seen rs = None \<longleftrightarrow>
     (\<forall>r\<in>set rs. valid_route (set known) r) \<and> distinct (map routeKey0 rs) \<and> set (map routeKey0 rs) \<inter> set seen = {}"
proof (induction known j seen rs rule: validateRoutesFrom.induct)
  case (2 known j seen r rs)
  show ?case
  proof (cases "validateRoute known seen r")
    case (Inl e)
    then show ?thesis using validateRoute_Inr [of known seen r "routeKey0 r"] by auto
  next
    case (Inr k)
    then have "valid_route (set known) r" "k = routeKey0 r" "k \<notin> set seen" using validateRoute_Inr by blast+
    then show ?thesis using "2.IH" [OF Inr] Inr by auto
  qed
qed simp

text \<open>The zero byte keeps the two parts of a route key apart: no backend name contains it.\<close>

lemma routeKey0_inject:
  assumes "CHR 0x00 \<notin> set (rc_Backend r)" and "CHR 0x00 \<notin> set (rc_Backend r')"
  shows "routeKey0 r = routeKey0 r' \<longleftrightarrow> routeId r = routeId r'"
proof -
  have first: "takeWhile (\<lambda>c. c \<noteq> CHR 0x00) (routeKey0 x) = rc_Backend x" if "CHR 0x00 \<notin> set (rc_Backend x)" for x
  proof -
    have "\<And>c. c \<in> set (rc_Backend x) \<Longrightarrow> c \<noteq> CHR 0x00" using that by auto
    then show ?thesis using takeWhile_append2 [of "rc_Backend x" "\<lambda>c. c \<noteq> CHR 0x00"] by (simp add: routeKey0_def)
  qed
  have "rc_Backend r = rc_Backend r'" if "routeKey0 r = routeKey0 r'"
    using first [OF assms(1)] first [OF assms(2)] that by simp
  then show ?thesis unfolding routeId_def prod.inject routeKey0_def by (metis append_same_eq same_append_eq)
qed

lemma distinct_routeKey0:
  assumes "\<And>r. r \<in> set rs \<Longrightarrow> CHR 0x00 \<notin> set (rc_Backend r)"
  shows "distinct (map routeKey0 rs) \<longleftrightarrow> distinct (map routeId rs)"
  using assms
proof (induction rs)
  case (Cons r rs)
  then have "routeKey0 r \<in> routeKey0 ` set rs \<longleftrightarrow> routeId r \<in> routeId ` set rs"
    using routeKey0_inject by (fastforce simp: image_iff)
  with Cons show ?case by auto
qed simp

lemma validateAliasesFrom_None:
  "validateAliasesFrom known i seen as = None \<longleftrightarrow>
     (\<forall>a\<in>set as. validateAlias known [] a = None) \<and> distinct (map ac_Name as) \<and> set (map ac_Name as) \<inter> set seen = {}"
proof (induction known i seen as rule: validateAliasesFrom.induct)
  case (2 known i seen a as)
  have "validateAlias known seen a = None \<longleftrightarrow> validateAlias known [] a = None \<and> ac_Name a \<notin> set seen"
    by (auto simp: validateAlias_def split: option.splits)
  with 2 show ?case by (auto split: option.split)
qed simp

lemma valid_name_no_zero: "valid_name m isBackendNameByte n \<Longrightarrow> CHR 0x00 \<notin> set n"
proof
  assume "valid_name m isBackendNameByte n" and "CHR 0x00 \<in> set n"
  then have "isBackendNameByte (CHR 0x00)" by (simp only: valid_name_def)
  then show False by (simp add: isBackendNameByte_def isAlphanumeric_def isUpper_def isLower_def isDigit_def)
qed

lemma validateAlias_None:
  assumes "\<forall>n\<in>set known. CHR 0x00 \<notin> set n"
  shows "validateAlias known [] a = None \<longleftrightarrow> valid_alias (set known) a"
proof -
  have "distinct (map routeKey0 (ac_Routes a)) \<longleftrightarrow> distinct (map routeId (ac_Routes a))"
    if "\<forall>r\<in>set (ac_Routes a). valid_route (set known) r"
    using that assms by (intro distinct_routeKey0) (auto simp: valid_route_def)
  then show ?thesis
    by (auto simp: validateAlias_def valid_alias_def validateName_None [symmetric] validateRoutesFrom_None maxAliasNameLen_def
        split: option.splits)
qed

lemma Validate_None: "Validate (Some c) = None \<longleftrightarrow> valid_config c"
proof (cases "validateBackends (cfg_Backends c)")
  case (Inl e)
  then have "\<not> (cfg_Backends c \<noteq> [] \<and> (\<forall>b\<in>set (cfg_Backends c). valid_backend b) \<and>
      distinct (map bc_Name (cfg_Backends c)) \<and> distinct (map originOf (cfg_Backends c)))"
    using validateBackendsFrom_Inr [of 0 "[]" "[]" "cfg_Backends c" "rev (map bc_Name (cfg_Backends c))"]
    by (auto simp: validateBackends_def split: if_splits)
  with Inl show ?thesis by (auto simp: Validate_def valid_config_def split: option.splits)
next
  case (Inr known)
  then have known: "known = rev (map bc_Name (cfg_Backends c))" and ok: "cfg_Backends c \<noteq> []"
      "\<forall>b\<in>set (cfg_Backends c). valid_backend b" "distinct (map bc_Name (cfg_Backends c))"
      "distinct (map originOf (cfg_Backends c))"
    using validateBackendsFrom_Inr [of 0 "[]" "[]" "cfg_Backends c" known]
    by (auto simp: validateBackends_def split: if_splits)
  have "\<forall>n\<in>set known. CHR 0x00 \<notin> set n"
    using ok(2) valid_name_no_zero by (auto simp: known valid_backend_def)
  note al = validateAlias_None [OF this]
  have "set known = bc_Name ` set (cfg_Backends c)" by (simp add: known)
  then have "validateAliases (cfg_Aliases c) known = None \<longleftrightarrow> cfg_Aliases c \<noteq> [] \<and>
      (\<forall>a\<in>set (cfg_Aliases c). valid_alias (bc_Name ` set (cfg_Backends c)) a) \<and> distinct (map ac_Name (cfg_Aliases c))"
    by (simp add: validateAliases_def validateAliasesFrom_None al)
  with Inr ok show ?thesis
    by (simp add: Validate_def valid_config_def validateListen_None [symmetric] validateEnvName_None [symmetric] split: option.split)
qed

text \<open>
  C21: \<open>Validate\<close> accepts exactly the valid configurations: version 1, a listen address with a
  host and a port in range, backends with admissible and pairwise different names, known
  kinds, bare origins that are pairwise different as origins, limits and timeouts in range,
  and aliases with pairwise different names whose routes name configured backends, have a
  non-empty model of at most 256 bytes without control characters and a priority in range,
  and are pairwise different as pairs of backend and model.
\<close>

theorem Validate_iff: "Validate (Some c) = None \<longleftrightarrow> valid_config c"
  by (rule Validate_None)


subsection \<open>What a file must hold\<close>

text \<open>The bytes of a file that is small enough and can be read.\<close>

definition readable :: "fileSystem \<Rightarrow> string \<Rightarrow> string \<Rightarrow> bool" where
  "readable fs path data \<longleftrightarrow> (\<exists>n. fs_Stat fs path = Inr n \<and> n \<le> 1048576) \<and> fs_Open fs path = None \<and>
     fs_Read fs path = (data, None) \<and> length data \<le> 1048576"

lemma readFile_Inr: "readFile fs path = Inr data \<longleftrightarrow> readable fs path data"
proof (cases "fs_Read fs path")
  case (Pair bytes err)
  show ?thesis
  proof (cases "length bytes \<le> 1048576")
    case True
    then have "readLimited (nat (MaxConfigBytes + 1)) (fs_Read fs path) = (case err of Some e \<Rightarrow> Inl e | None \<Rightarrow> Inr bytes)"
      by (simp add: Pair readLimited_def MaxConfigBytes_def split: option.split)
    with True Pair show ?thesis
      by (auto simp: readFile_def readable_def MaxConfigBytes_def split: sum.splits option.splits)
  next
    case False
    then have "readLimited (nat (MaxConfigBytes + 1)) (fs_Read fs path) = Inr (take 1048577 bytes)"
      by (simp add: Pair readLimited_def MaxConfigBytes_def)
    with False Pair show ?thesis
      by (auto simp: readFile_def readable_def MaxConfigBytes_def split: sum.splits option.splits)
  qed
qed

lemma Decode_Inr:
  "Decode yaml data = Inr cfg \<longleftrightarrow>
     TrimSpace data \<noteq> '''' \<and> (\<exists>raw. yaml data 0 = YamlDocument raw \<and> yaml data 1 = YamlEOF \<and> cfg = applyDefaults raw)"
  by (auto simp: Decode_def split: yamlResult.splits)

lemma Load_Inr:
  "Load fs yaml path = Inr cfg \<longleftrightarrow> (\<exists>data raw. readable fs path data \<and> TrimSpace data \<noteq> '''' \<and>
     yaml data 0 = YamlDocument raw \<and> yaml data 1 = YamlEOF \<and> cfg = applyDefaults raw \<and> valid_config cfg)"
proof -
  have "Load fs yaml path = Inr cfg \<longleftrightarrow> (\<exists>data. readFile fs path = Inr data \<and> Decode yaml data = Inr cfg \<and> valid_config cfg)"
    unfolding Validate_None [symmetric] by (auto simp: Load_def split: sum.splits option.splits)
  then show ?thesis by (auto simp: readFile_Inr Decode_Inr)
qed

text \<open>
  C31: \<open>Load\<close> returns a configuration exactly if the file can be read and is at most 1 MiB, also when
  it has grown since it was examined, holds more than white space and exactly one document
  without unknown fields, and that document with its defaults filled in is valid.
\<close>

theorem Load_iff:
  "Load fs yaml path = Inr cfg \<longleftrightarrow> (\<exists>data raw. readable fs path data \<and> TrimSpace data \<noteq> '''' \<and>
     yaml data 0 = YamlDocument raw \<and> yaml data 1 = YamlEOF \<and> cfg = applyDefaults raw \<and> valid_config cfg)"
  by (rule Load_Inr)

end
