(* ===== verification/Health.thy ===== *)
theory Health
  imports Serving
begin

text \<open>
  \<^verbatim>\<open>internal/backend/health.go\<close>: the health checker. The outcome of a probe's request is the
  parameter of \<open>probe\<close>: an error while building the request, an error of the exchange (a
  refused connection, the probe's own timeout or the cancellation of the checker's context),
  or the status of the response.
\<close>

definition HealthInterval :: int where "HealthInterval = 5 * Second"

record healthRequest =
  hq_Method :: string
  hq_URL :: URL
  hq_Header :: Header
  hq_Client :: HttpClient

datatype exchange = RequestInvalid | ExchangeFailed | Status int

definition probeRequest :: "Backend \<Rightarrow> healthRequest" where
  "probeRequest b = \<lparr>hq_Method = ''GET'', hq_URL = HealthURL b, hq_Header = Authorize b [], hq_Client = NewHealthClient\<rparr>"

definition probe :: "(healthRequest \<Rightarrow> exchange) \<Rightarrow> Backend \<Rightarrow> bool" where
  "probe net b =
     (case net (probeRequest b) of
        RequestInvalid \<Rightarrow> False
      | ExchangeFailed \<Rightarrow> False
      | Status code \<Rightarrow> code = StatusOK)"

text \<open>
  One call of \<open>check\<close>: the previous result (\<open>None\<close> before the first), the state, and the log of
  health changes.
\<close>

definition check :: "(healthRequest \<Rightarrow> exchange) \<Rightarrow> Backend \<Rightarrow> bool option \<times> State \<times> bool list \<Rightarrow> bool option \<times> State \<times> bool list" where
  "check net b x =
     (let (previous, s, log) = x; healthy = probe net b;
          log' = (if previous = None \<or> previous \<noteq> Some healthy then log @ [healthy] else log)
      in (Some healthy, SetHealth s (b_Name b) healthy, log'))"

text \<open>
  \<open>loop\<close>: a first check, then one per tick until the context is done; the list holds what the
  network does at the checks after the first.
\<close>

fun checkTicks :: "Backend \<Rightarrow> (healthRequest \<Rightarrow> exchange) list \<Rightarrow> bool option \<times> State \<times> bool list \<Rightarrow> bool option \<times> State \<times> bool list" where
  "checkTicks b [] x = x"
| "checkTicks b (net # nets) x = checkTicks b nets (check net b x)"

definition checkLoop :: "Backend \<Rightarrow> (healthRequest \<Rightarrow> exchange) \<Rightarrow> (healthRequest \<Rightarrow> exchange) list \<Rightarrow> State \<Rightarrow>
    bool option \<times> State \<times> bool list" where
  "checkLoop b first ticks s = checkTicks b ticks (check first b (None, s, []))"


subsection \<open>Properties\<close>

lemma check_effect:
  assumes "invState s" and "bsOf s (b_Name b) \<noteq> None" and "check net b (prev, s, log) = (p', s', log')"
  shows "steady s s'" and "load s' = load s" and "usable s' = (usable s)(b_Name b := probe net b)"
    and "p' = Some (probe net b)" and "bsOf s' (b_Name b) \<noteq> None"
proof -
  from assms(3) have s': "s' = SetHealth s (b_Name b) (probe net b)" and p: "p' = Some (probe net b)"
    by (auto simp: check_def Let_def)
  show st: "steady s s'" unfolding s' by (rule SetHealth_effect(1) [OF assms(1)])
  show "load s' = load s" unfolding s' by (rule SetHealth_effect(2) [OF assms(1)])
  show "usable s' = (usable s)(b_Name b := probe net b)"
    unfolding s' using SetHealth_effect(3) [OF assms(1), of "b_Name b" "probe net b"] assms(2) by (auto simp: fun_eq_iff)
  show "p' = Some (probe net b)" by (rule p)
  from st have "same_shape s s'" by (simp add: steady_def)
  from same_shape_bsOf_backend [OF this invState_wf [OF assms(1)], of "b_Name b"] assms(2) show "bsOf s' (b_Name b) \<noteq> None"
    by auto
qed

lemma checkTicks_effect:
  assumes "invState s" and "bsOf s (b_Name b) \<noteq> None" and "checkTicks b nets (prev, s, log) = (p', s', log')"
  shows "steady s s' \<and> load s' = load s \<and>
    usable s' = (if nets = [] then usable s else (usable s)(b_Name b := probe (last nets) b))"
  using assms
proof (induction nets arbitrary: prev s log)
  case Nil
  then show ?case by (simp add: steady_refl)
next
  case (Cons net nets)
  obtain p1 s1 log1 where c: "check net b (prev, s, log) = (p1, s1, log1)" by (metis prod_cases3)
  note e = check_effect [OF Cons.prems(1,2) c]
  from Cons.prems(3) c have "checkTicks b nets (p1, s1, log1) = (p', s', log')" by simp
  from Cons.IH [OF steady_inv [OF e(1)] e(5) this] e show ?case
    by (auto intro: steady_trans)
qed

text \<open>
  The state knows the latest probe. After any number of checks of a backend, the backend is
  usable exactly if its last probe was answered with status 200; every other backend's health
  and all loads are as before, so health checks never consume capacity.
\<close>

theorem checkLoop_records_last_probe:
  assumes "invState s" and "bsOf s (b_Name b) \<noteq> None"
  shows "\<exists>p s' log. checkLoop b first ticks s = (p, s', log) \<and> invState s' \<and> load s' = load s \<and>
    (\<forall>n. usable s' n = (if n = b_Name b then probe (last (first # ticks)) b else usable s n))"
proof -
  obtain p1 s1 log1 where c: "check first b (None, s, []) = (p1, s1, log1)" by (metis prod_cases3)
  note e = check_effect [OF assms c]
  obtain p2 s2 log2 where t: "checkTicks b ticks (p1, s1, log1) = (p2, s2, log2)" by (metis prod_cases3)
  from checkTicks_effect [OF steady_inv [OF e(1)] e(5) t] e c t show ?thesis
    by (auto simp: checkLoop_def steady_def)
qed

theorem checkLoop_records_last_probe_witness:
  "\<exists>p s' log. checkLoop (exBackend ''a'') (\<lambda>_. Status 200) [\<lambda>_. ExchangeFailed] exState = (p, s', log) \<and>
     \<not> usable s' ''a'' \<and> usable s' ''b''"
proof -
  have known: "bsOf exState (b_Name (exBackend ''a'')) \<noteq> None" by (simp add: exState_bsOf exBackend_def)
  have name: "b_Name (exBackend ''a'') = ''a''" by (simp add: exBackend_def)
  have "usable exState ''b''" by (simp add: usable_def exState_bsOf)
  moreover have "\<not> probe (\<lambda>_. ExchangeFailed) (exBackend ''a'')" by (simp add: probe_def)
  ultimately show ?thesis
    using checkLoop_records_last_probe [OF exState_inv known, of "\<lambda>_. Status 200" "[\<lambda>_. ExchangeFailed]"] name
    by fastforce
qed

text \<open>
  A quarantine lasts until the next good probe. A backend a failed attempt took out of
  selection is not usable, and it is usable again right after a check whose probe is
  answered with 200.
\<close>

theorem probe_restores_quarantined:
  assumes "invState s" and "bsOf s (b_Name b) \<noteq> None" and "net (probeRequest b) = Status 200"
  shows "\<not> usable (SetHealth s (b_Name b) False) (b_Name b) \<and>
    usable (fst (snd (check net b (prev, SetHealth s (b_Name b) False, log)))) (b_Name b)"
proof -
  note q = SetHealth_effect [OF assms(1), of "b_Name b" False]
  have "same_shape s (SetHealth s (b_Name b) False)" using q(1) by (simp add: steady_def)
  from same_shape_bsOf_backend [OF this invState_wf [OF assms(1)], of "b_Name b"] assms(2)
  have known: "bsOf (SetHealth s (b_Name b) False) (b_Name b) \<noteq> None" by auto
  obtain p' s' log' where c: "check net b (prev, SetHealth s (b_Name b) False, log) = (p', s', log')" by (metis prod_cases3)
  from check_effect(3) [OF steady_inv [OF q(1)] known c] assms(3) have "usable s' (b_Name b)" by (simp add: probe_def)
  with c q(3) assms(2) show ?thesis by simp
qed

theorem probe_restores_quarantined_witness:
  "usable (fst (snd (check (\<lambda>_. Status 200) (exBackend ''a'') (None, SetHealth exState (b_Name (exBackend ''a'')) False, []))))
     (b_Name (exBackend ''a''))"
proof -
  have "bsOf exState (b_Name (exBackend ''a'')) \<noteq> None" by (simp add: exState_bsOf exBackend_def)
  from probe_restores_quarantined [OF exState_inv this, of "\<lambda>_. Status 200" None "[]"] show ?thesis by simp
qed


subsection \<open>All backends\<close>

record Checker =
  ck_backends :: "Backend list"
  ck_client :: HttpClient
  ck_interval :: int

definition NewCheckerWithInterval :: "Backend list \<Rightarrow> int \<Rightarrow> Checker" where
  "NewCheckerWithInterval backends interval = \<lparr>ck_backends = backends, ck_client = NewHealthClient, ck_interval = interval\<rparr>"

definition NewChecker :: "Backend list \<Rightarrow> Checker" where
  "NewChecker backends = NewCheckerWithInterval backends HealthInterval"

text \<open>
  \<open>Run\<close>: one loop per backend. The list holds the checks of all loops in the order in which they
  reach the state, each with what the network does to it; every loop keeps its own previous
  result, here under the name of its backend. The log holds the changes with their backends.
\<close>

type_synonym schedule = "(Backend \<times> (healthRequest \<Rightarrow> exchange)) list"

fun CheckerRun :: "schedule \<Rightarrow> (string \<Rightarrow> bool option) \<times> State \<times> (string \<times> bool) list \<Rightarrow>
    (string \<Rightarrow> bool option) \<times> State \<times> (string \<times> bool) list" where
  "CheckerRun [] x = x"
| "CheckerRun ((b, net) # cs) (previous, s, log) =
     (let (p, s', changes) = check net b (previous (b_Name b), s, [])
      in CheckerRun cs (previous(b_Name b := p), s', log @ map (Pair (b_Name b)) changes))"

text \<open>A schedule of a checker: each of its backends is checked at least once, and no other.\<close>

definition scheduleOf :: "Checker \<Rightarrow> schedule \<Rightarrow> bool" where
  "scheduleOf c cs \<longleftrightarrow> fst ` set cs = set (ck_backends c)"

text \<open>The results of the probes of one backend, in order, and what a loop logs of them.\<close>

definition results :: "string \<Rightarrow> schedule \<Rightarrow> bool list" where
  "results n cs = map (\<lambda>(b, net). probe net b) (filter (\<lambda>(b, net). b_Name b = n) cs)"

definition logged :: "string \<Rightarrow> (string \<times> bool) list \<Rightarrow> bool list" where
  "logged n log = map snd (filter (\<lambda>x. fst x = n) log)"

definition changes :: "bool option \<Rightarrow> bool list \<Rightarrow> bool list" where
  "changes previous rs = (case previous of None \<Rightarrow> remdups_adj rs | Some p \<Rightarrow> tl (remdups_adj (p # rs)))"

lemma changes_simps [simp]:
  "changes previous [] = []"
  "changes previous (r # rs) = (if previous = Some r then [] else [r]) @ changes (Some r) rs"
  by (cases previous; simp add: changes_def remdups_adj_Cons split: list.split)+

lemma results_simps [simp]:
  "results n [] = []" "results n ((b, net) # cs) = (if b_Name b = n then probe net b # results n cs else results n cs)"
  by (simp_all add: results_def)

lemma logged_simps [simp]:
  "logged n [] = []" "logged n (log @ log') = logged n log @ logged n log'"
  "logged n (map (Pair k) vs) = (if k = n then vs else [])"
  by (simp_all add: logged_def filter_map comp_def)

lemma check_log: "check net b (p, s, []) = (p', s', l) \<Longrightarrow> l = (if p = Some (probe net b) then [] else [probe net b])"
  by (auto simp: check_def Let_def split: if_splits)

lemma CheckerRun_effect:
  assumes "invState s" and "\<forall>b\<in>fst ` set cs. bsOf s (b_Name b) \<noteq> None"
    and "CheckerRun cs (previous, s, log) = (previous', s', log')"
  shows "steady s s' \<and> load s' = load s \<and>
    (\<forall>n. usable s' n = (if results n cs = [] then usable s n else last (results n cs))) \<and>
    (\<forall>n. logged n log' = logged n log @ changes (previous n) (results n cs))"
  using assms
proof (induction cs arbitrary: previous s log)
  case (Cons c cs)
  obtain b net where c: "c = (b, net)" by (cases c)
  obtain p s1 l where ck: "check net b (previous (b_Name b), s, []) = (p, s1, l)" by (metis prod_cases3)
  have known: "bsOf s (b_Name b) \<noteq> None" using Cons.prems(2) c by simp
  note e = check_effect [OF Cons.prems(1) known ck]
  have "bsOf s1 n \<noteq> None" if "bsOf s n \<noteq> None" for n
    using e(1) same_shape_bsOf_backend [OF _ invState_wf [OF Cons.prems(1)], of s1 n] that by (auto simp: steady_def)
  then have "\<forall>b\<in>fst ` set cs. bsOf s1 (b_Name b) \<noteq> None" using Cons.prems(2) by simp
  from Cons.IH [OF steady_inv [OF e(1)] this] Cons.prems(3) c ck have IH: "steady s1 s'" "load s' = load s1"
    "\<And>n. usable s' n = (if results n cs = [] then usable s1 n else last (results n cs))"
    "\<And>n. logged n log' = logged n (log @ map (Pair (b_Name b)) l) @ changes ((previous(b_Name b := p)) n) (results n cs)"
    by auto
  have "steady s s'" using steady_trans [OF e(1) IH(1)] .
  moreover have "usable s' n = (if results n (c # cs) = [] then usable s n else last (results n (c # cs)))" for n
    using IH(3) [of n] e(3) c by simp
  moreover have "logged n log' = logged n log @ changes (previous n) (results n (c # cs))" for n
    using IH(4) [of n] check_log [OF ck] e(4) c by simp
  ultimately show ?case using IH(2) e(2) by simp
qed (simp add: steady_refl)

text \<open>
  C23: health checks. However the loops of the backends interleave, once every backend has been
  checked the state holds for each backend the result of its latest probe, which forgets
  earlier probes and quarantines alike; the router is ready exactly if every alias has a
  route whose backend answered its latest probe with 200; each loop logs its first result and
  then the changes only; and no load is touched.
\<close>

theorem CheckerRun_correct:
  assumes "invState s" and "\<forall>n. bsOf s n \<noteq> None \<longleftrightarrow> n \<in> b_Name ` set (ck_backends c)" and "scheduleOf c cs"
  shows "\<exists>previous s' log. CheckerRun cs (\<lambda>_. None, s, []) = (previous, s', log) \<and> invState s' \<and> load s' = load s \<and>
    (\<forall>b\<in>set (ck_backends c). usable s' (b_Name b) = last (results (b_Name b) cs) \<and>
       logged (b_Name b) log = remdups_adj (results (b_Name b) cs)) \<and>
    Ready s' = Some (\<forall>a\<in>set (st_aliasOrder s). \<exists>r\<in>set (as_routes a). last (results (routeBackend r) cs))"
proof -
  obtain previous s' log where run: "CheckerRun cs (\<lambda>_. None, s, []) = (previous, s', log)" by (metis prod_cases3)
  have "\<forall>b\<in>fst ` set cs. bsOf s (b_Name b) \<noteq> None" using assms(2,3) by (auto simp: scheduleOf_def)
  from CheckerRun_effect [OF assms(1) this run] have e: "steady s s'" "load s' = load s"
    "\<And>n. usable s' n = (if results n cs = [] then usable s n else last (results n cs))"
    "\<And>n. logged n log = changes None (results n cs)" by auto
  have checked: "results n cs \<noteq> []" if "bsOf s n \<noteq> None" for n
  proof -
    from that assms(2) obtain b where b: "b \<in> set (ck_backends c)" "b_Name b = n" by auto
    then have "b \<in> fst ` set cs" using assms(3) by (simp add: scheduleOf_def)
    then obtain net where "(b, net) \<in> set cs" by auto
    with b(2) have "(b, net) \<in> set (filter (\<lambda>(b, net). b_Name b = n) cs)" by simp
    then show ?thesis unfolding results_def by (metis empty_iff list.set(1) map_is_Nil_conv)
  qed
  have order: "st_aliasOrder s' = st_aliasOrder s" using e(1) by (simp add: steady_def same_shape_def)
  have routes: "bsOf s (routeBackend r) \<noteq> None" if "a \<in> set (st_aliasOrder s)" "r \<in> set (as_routes a)" for a r
    using invState_wf [OF assms(1)] that by (fastforce simp: wf_state_def alias_ok_def route_ok_def bsOf_def)
  have "Ready s' = Some (\<forall>a\<in>set (st_aliasOrder s). \<exists>r\<in>set (as_routes a). usable s' (routeBackend r))"
    using Ready_eq [OF steady_inv [OF e(1)]] order by simp
  also have "\<dots> = Some (\<forall>a\<in>set (st_aliasOrder s). \<exists>r\<in>set (as_routes a). last (results (routeBackend r) cs))"
    using checked [OF routes] e(3) by simp
  finally show ?thesis
    using run e steady_inv [OF e(1)] checked assms(2) by (auto simp: changes_def)
qed

theorem CheckerRun_correct_witness:
  "\<exists>previous s' log. CheckerRun [(exBackend ''a'', \<lambda>_. Status 200), (exBackend ''b'', \<lambda>_. ExchangeFailed), (exBackend ''a'', \<lambda>_. Status 200)]
       (\<lambda>_. None, exState, []) = (previous, s', log) \<and> usable s' ''a'' \<and> \<not> usable s' ''b'' \<and> logged ''a'' log = [True]"
proof -
  let ?c = "NewChecker [exBackend ''a'', exBackend ''b'']"
  let ?cs = "[(exBackend ''a'', \<lambda>_. Status 200), (exBackend ''b'', \<lambda>_. ExchangeFailed), (exBackend ''a'', \<lambda>_. Status 200)]"
  have name: "b_Name (exBackend n) = n" for n by (simp add: exBackend_def)
  have known: "\<forall>n. bsOf exState n \<noteq> None \<longleftrightarrow> n \<in> b_Name ` set (ck_backends ?c)"
    by (simp add: NewChecker_def NewCheckerWithInterval_def exState_bsOf name)
  have sched: "scheduleOf ?c ?cs" by (auto simp: scheduleOf_def NewChecker_def NewCheckerWithInterval_def)
  from CheckerRun_correct [OF exState_inv known sched] obtain previous s' log where "CheckerRun ?cs (\<lambda>_. None, exState, []) = (previous, s', log)"
    "\<forall>b\<in>set (ck_backends ?c). usable s' (b_Name b) = last (results (b_Name b) ?cs) \<and>
       logged (b_Name b) log = remdups_adj (results (b_Name b) ?cs)"
    by (elim exE conjE) (rule that)
  then show ?thesis by (simp add: NewChecker_def NewCheckerWithInterval_def name probe_def)
qed

end
