(* ===== verification/Startup.thy ===== *)
theory Startup
  imports Validate Health
begin

text \<open>
  \<^verbatim>\<open>internal/cli/app.go\<close> and \<^verbatim>\<open>cmd/local-inference-router/main.go\<close>: the two commands, from
  the arguments to the exit code. What the process does with the network while it serves,
  and the signals it gets, are fields of \<open>process\<close>.
\<close>

definition ExitSuccess :: int where "ExitSuccess = 0"
definition ExitError :: int where "ExitError = 1"
definition ExitUsage :: int where "ExitUsage = 2"

datatype cliOutput = OutUsage | OutFlagError string | OutConfigValid | OutLoadError loadError
  | OutTokenEnv string | OutBuildError buildError | OutStateError newStateError | OutServerError string

text \<open>
  The flag package on the one flag \<open>-config\<close>: the result of \<open>flags.Parse\<close>, which is the value of
  the flag and the remaining arguments. A flag is \<open>-config v\<close>, \<open>--config v\<close>, \<open>-config=v\<close> or
  \<open>--config=v\<close>; \<open>--\<close> ends the flags, and so does the first argument that is not a flag.
\<close>

definition stripDashes :: "string \<Rightarrow> string" where
  "stripDashes a = (if take 2 a = ''--'' then drop 2 a else drop 1 a)"

fun flagsParse :: "string \<Rightarrow> string list \<Rightarrow> string + (string \<times> string list)" where
  "flagsParse config [] = Inr (config, [])"
| "flagsParse config (a # as) =
     (if length a < 2 \<or> hd a \<noteq> CHR ''-'' then Inr (config, a # as)
      else if a = ''--'' then Inr (config, as)
      else
       (let name = stripDashes a; (key, val, hasValue) = Cut (CHR ''='') name
        in if name = '''' \<or> hd name = CHR ''-'' \<or> hd name = CHR ''='' then Inl a
           else if key \<noteq> ''config'' then Inl a
           else if hasValue then flagsParse val as
           else (case as of [] \<Rightarrow> Inl a | v # rest \<Rightarrow> flagsParse v rest)))"

text \<open>
  The process: its environment variables, file system and YAML library, and how serving ends.
  \<open>pr_Serve\<close> is the error of \<open>ListenAndServe\<close>, \<open>None\<close> when a signal ends the process first or
  the server was closed.
\<close>

record process =
  pr_Env :: "string \<Rightarrow> string option"
  pr_Files :: fileSystem
  pr_Yaml :: "string \<Rightarrow> nat \<Rightarrow> yamlResult"
  pr_Serve :: "State \<Rightarrow> string option"

definition runValidate :: "process \<Rightarrow> string \<Rightarrow> int \<times> cliOutput list" where
  "runValidate pr path =
     (case Load (pr_Files pr) (pr_Yaml pr) path of
        Inl e \<Rightarrow> (ExitError, [OutLoadError e])
      | Inr _ \<Rightarrow> (ExitSuccess, [OutConfigValid]))"

definition inboundToken :: "process \<Rightarrow> Config \<Rightarrow> string option" where
  "inboundToken pr cfg =
     (if cfg_BearerTokenEnv cfg = '''' then Some ''''
      else (case pr_Env pr (cfg_BearerTokenEnv cfg) of
          None \<Rightarrow> None
        | Some value \<Rightarrow> if value = '''' then None else Some value))"

definition runServe :: "process \<Rightarrow> string \<Rightarrow> int \<times> cliOutput list" where
  "runServe pr path =
     (case Load (pr_Files pr) (pr_Yaml pr) path of
        Inl e \<Rightarrow> (ExitError, [OutLoadError e])
      | Inr cfg \<Rightarrow>
         (case inboundToken pr cfg of
            None \<Rightarrow> (ExitError, [OutTokenEnv (cfg_BearerTokenEnv cfg)])
          | Some token \<Rightarrow>
             (case Build (cfg_Backends cfg) (pr_Env pr) of
                Inl e \<Rightarrow> (ExitError, [OutBuildError e])
              | Inr backends \<Rightarrow>
                 (case NewState cfg backends (Some []) of
                    Inl e \<Rightarrow> (ExitError, [OutStateError e])
                  | Inr state \<Rightarrow>
                     (case pr_Serve pr state of
                        Some e \<Rightarrow> (ExitError, [OutServerError e])
                      | None \<Rightarrow> (ExitSuccess, []))))))"

definition Run :: "process \<Rightarrow> string list \<Rightarrow> int \<times> cliOutput list" where
  "Run pr args =
     (case args of
        [] \<Rightarrow> (ExitUsage, [OutUsage])
      | command # rest \<Rightarrow>
         if command = ''serve'' \<or> command = ''validate'' then
           (case flagsParse '''' rest of
              Inl e \<Rightarrow> (ExitUsage, [OutFlagError e])
            | Inr (configPath, left) \<Rightarrow>
                if configPath = '''' \<or> left \<noteq> [] then (ExitUsage, [OutUsage])
                else if command = ''validate'' then runValidate pr configPath
                else runServe pr configPath)
         else (ExitUsage, [OutUsage]))"

text \<open>
  \<^verbatim>\<open>main.go\<close>: the process exits with the code of \<open>Run\<close> on its arguments without the first one, the name of
  the program. The slice \<^verbatim>\<open>os.Args[1:]\<close> panics (\<open>None\<close>) when not even that is there.
\<close>

definition main :: "process \<Rightarrow> string list \<Rightarrow> (int \<times> cliOutput list) option" where
  "main pr argv = (case argv of [] \<Rightarrow> None | program # args \<Rightarrow> Some (Run pr args))"

lemma exit_codes: "main pr (program # args) = Some (code, out) \<Longrightarrow> code \<in> {ExitSuccess, ExitError, ExitUsage}"
  by (auto simp: main_def Run_def runValidate_def runServe_def split: list.splits sum.splits option.splits prod.splits if_splits)


subsection \<open>A valid configuration starts\<close>

lemma Build_Inr_iff:
  "(\<exists>bs. Build cfgs secrets = Inr bs) \<longleftrightarrow>
     (\<forall>c\<in>set cfgs. (\<exists>u. ParseBaseURL (bc_BaseURL c) = Inr u) \<and> secretsPresent secrets c)"
proof (induction cfgs)
  case (Cons c cfgs)
  have "(\<exists>b. buildOne secrets c = Inr b) \<longleftrightarrow> (\<exists>u. ParseBaseURL (bc_BaseURL c) = Inr u) \<and> secretsPresent secrets c"
    unfolding resolveToken_Inr [symmetric] by (auto simp: buildOne_def Let_def split: sum.splits)
  with Cons show ?case by (auto split: sum.splits)
qed simp

lemma Build_describes:
  assumes "Build cfgs secrets = Inr bs" and "\<forall>c\<in>set cfgs. valid_backend c"
  shows "list_all2 describes cfgs bs"
  using assms
proof (induction cfgs arbitrary: bs)
  case (Cons c cfgs)
  from Cons.prems(1) obtain b bs' where b: "buildOne secrets c = Inr b" "Build cfgs secrets = Inr bs'" "bs = b # bs'"
    by (auto split: sum.splits)
  from Cons.prems(2) have "describes c b"
    by (intro buildOne_describes [OF b(1)]) (auto simp: valid_backend_def)
  with Cons b show ?case by simp
qed simp

lemma starts:
  assumes "valid_config cfg" and "\<forall>c\<in>set (cfg_Backends cfg). secretsPresent secrets c"
  shows "\<exists>bs s. Build (cfg_Backends cfg) secrets = Inr bs \<and> list_all2 describes (cfg_Backends cfg) bs \<and>
    NewState cfg bs m = Inr s \<and> invState s \<and> (\<forall>b. load s b = 0 \<and> \<not> usable s b) \<and>
    AliasNames s = map ac_Name (cfg_Aliases cfg)"
proof -
  from assms have "\<exists>bs. Build (cfg_Backends cfg) secrets = Inr bs"
    by (auto simp: Build_Inr_iff valid_config_def valid_backend_def)
  then obtain bs where bs: "Build (cfg_Backends cfg) secrets = Inr bs" by blast
  have desc: "list_all2 describes (cfg_Backends cfg) bs"
    using Build_describes [OF bs] assms(1) by (simp add: valid_config_def)
  then have names: "map b_Name bs = map bc_Name (cfg_Backends cfg)"
    by (induction rule: list_all2_induct) (auto simp: describes_def)
  then have "b_Name ` set bs = bc_Name ` set (cfg_Backends cfg)" by (metis list.set_map)
  then have "\<nexists>e. NewState cfg bs m = Inl e"
    using assms(1) by (auto simp: NewState_Inl_iff valid_config_def valid_alias_def valid_route_def)
  then obtain s where s: "NewState cfg bs m = Inr s" by (cases "NewState cfg bs m") auto
  show ?thesis
    using bs desc s NewState_Inr(1,2) [OF s] NewState_idle [OF s] by (auto simp: invState_def)
qed

text \<open>
  What \<open>validate\<close> accepts, \<open>serve\<close> can start. For a valid configuration whose secrets are set,
  \<open>Build\<close> gives one backend per configured backend, in order and with the configured limits and
  timeouts (no duration overflows), and \<open>NewState\<close> succeeds on them with a well-formed idle
  state in which nothing is usable before the first health check.
\<close>

theorem valid_config_starts:
  assumes "valid_config cfg" and "\<forall>c\<in>set (cfg_Backends cfg). secretsPresent secrets c"
  shows "\<exists>bs s. Build (cfg_Backends cfg) secrets = Inr bs \<and> list_all2 describes (cfg_Backends cfg) bs \<and>
    NewState cfg bs m = Inr s \<and> invState s \<and> (\<forall>b. load s b = 0 \<and> \<not> usable s b) \<and>
    AliasNames s = map ac_Name (cfg_Aliases cfg)"
  by (rule starts [OF assms])


subsection \<open>The commands\<close>

text \<open>The variables \<open>serve\<close> needs: the inbound token's, if one is named, and each backend's.\<close>

definition variablesSet :: "process \<Rightarrow> Config \<Rightarrow> bool" where
  "variablesSet pr cfg \<longleftrightarrow> (cfg_BearerTokenEnv cfg = '''' \<or> (\<exists>v. pr_Env pr (cfg_BearerTokenEnv cfg) = Some v \<and> v \<noteq> '''')) \<and>
     (\<forall>c\<in>set (cfg_Backends cfg). secretsPresent (pr_Env pr) c)"

lemma inboundToken_Some: "(\<exists>t. inboundToken pr cfg = Some t) \<longleftrightarrow>
    cfg_BearerTokenEnv cfg = '''' \<or> (\<exists>v. pr_Env pr (cfg_BearerTokenEnv cfg) = Some v \<and> v \<noteq> '''')"
  by (auto simp: inboundToken_def split: option.splits)

lemma Run_config:
  assumes "path \<noteq> ''''"
  shows "Run pr [''validate'', ''-config'', path] = runValidate pr path" and "Run pr [''serve'', ''-config'', path] = runServe pr path"
  using assms by (simp_all add: Run_def stripDashes_def Cut_def Let_def)

lemma runServe_valid:
  assumes "Load (pr_Files pr) (pr_Yaml pr) path = Inr cfg" and "variablesSet pr cfg"
  shows "\<exists>bs s. Build (cfg_Backends cfg) (pr_Env pr) = Inr bs \<and> NewState cfg bs (Some []) = Inr s \<and> invState s \<and>
    (\<forall>b. load s b = 0 \<and> \<not> usable s b) \<and>
    runServe pr path = (case pr_Serve pr s of Some e \<Rightarrow> (ExitError, [OutServerError e]) | None \<Rightarrow> (ExitSuccess, []))"
proof -
  from assms(1) have "valid_config cfg" by (auto simp: Load_Inr)
  from starts [OF this, of "pr_Env pr" "Some []"] assms(2) obtain bs s where
    "Build (cfg_Backends cfg) (pr_Env pr) = Inr bs" "NewState cfg bs (Some []) = Inr s" "invState s"
    "\<forall>b. load s b = 0 \<and> \<not> usable s b" by (auto simp: variablesSet_def)
  moreover from assms(2) obtain t where "inboundToken pr cfg = Some t" using inboundToken_Some [of pr cfg] by (metis variablesSet_def)
  ultimately show ?thesis using assms(1) by (simp add: runServe_def split: option.split)
qed

lemma runServe_fails:
  assumes "Load (pr_Files pr) (pr_Yaml pr) path = Inr cfg" and "\<not> variablesSet pr cfg"
  shows "\<exists>out. runServe pr path = (ExitError, [out]) \<and> (out = OutTokenEnv (cfg_BearerTokenEnv cfg) \<or> (\<exists>e. out = OutBuildError e))"
proof (cases "inboundToken pr cfg")
  case None
  with assms(1) show ?thesis by (simp add: runServe_def)
next
  case (Some t)
  then have "\<not> (\<forall>c\<in>set (cfg_Backends cfg). secretsPresent (pr_Env pr) c)"
    using assms(2) inboundToken_Some [of pr cfg] by (auto simp: variablesSet_def)
  then obtain e where "Build (cfg_Backends cfg) (pr_Env pr) = Inl e"
    using Build_Inr_iff [of "cfg_Backends cfg" "pr_Env pr"] by (cases "Build (cfg_Backends cfg) (pr_Env pr)") auto
  with assms(1) Some show ?thesis by (simp add: runServe_def)
qed

text \<open>
  C22: the two commands. \<open>validate\<close> succeeds exactly on the files \<open>Load\<close> accepts, without looking at the
  environment or the network. On such a file \<open>serve\<close> starts, with a well-formed idle state,
  exactly if every variable the configuration names is set and not empty, and then only the
  server itself can fail; otherwise it names the missing secret and exits with 1.
\<close>

theorem Run_validate_serve:
  assumes "path \<noteq> ''''"
  shows "(fst (Run pr [''validate'', ''-config'', path]) = ExitSuccess \<longleftrightarrow> (\<exists>cfg. Load (pr_Files pr) (pr_Yaml pr) path = Inr cfg)) \<and>
    Run (pr\<lparr>pr_Env := vars, pr_Serve := srv\<rparr>) [''validate'', ''-config'', path] = Run pr [''validate'', ''-config'', path] \<and>
    (case Load (pr_Files pr) (pr_Yaml pr) path of
       Inl e \<Rightarrow> Run pr [''serve'', ''-config'', path] = (ExitError, [OutLoadError e])
     | Inr cfg \<Rightarrow>
        if variablesSet pr cfg
        then \<exists>bs s. Build (cfg_Backends cfg) (pr_Env pr) = Inr bs \<and> NewState cfg bs (Some []) = Inr s \<and> invState s \<and>
          (\<forall>b. load s b = 0 \<and> \<not> usable s b) \<and>
          Run pr [''serve'', ''-config'', path] =
            (case pr_Serve pr s of Some e \<Rightarrow> (ExitError, [OutServerError e]) | None \<Rightarrow> (ExitSuccess, []))
        else \<exists>out. Run pr [''serve'', ''-config'', path] = (ExitError, [out]) \<and>
          (out = OutTokenEnv (cfg_BearerTokenEnv cfg) \<or> (\<exists>e. out = OutBuildError e)))"
  unfolding Run_config [OF assms]
proof (intro conjI)
  show "fst (runValidate pr path) = ExitSuccess \<longleftrightarrow> (\<exists>cfg. Load (pr_Files pr) (pr_Yaml pr) path = Inr cfg)"
    by (auto simp: runValidate_def ExitSuccess_def ExitError_def split: sum.split)
  show "runValidate (pr\<lparr>pr_Env := vars, pr_Serve := srv\<rparr>) path = runValidate pr path" by (simp add: runValidate_def)
next
  show "case Load (pr_Files pr) (pr_Yaml pr) path of
       Inl e \<Rightarrow> runServe pr path = (ExitError, [OutLoadError e])
     | Inr cfg \<Rightarrow>
        if variablesSet pr cfg
        then \<exists>bs s. Build (cfg_Backends cfg) (pr_Env pr) = Inr bs \<and> NewState cfg bs (Some []) = Inr s \<and> invState s \<and>
          (\<forall>b. load s b = 0 \<and> \<not> usable s b) \<and>
          runServe pr path = (case pr_Serve pr s of Some e \<Rightarrow> (ExitError, [OutServerError e]) | None \<Rightarrow> (ExitSuccess, []))
        else \<exists>out. runServe pr path = (ExitError, [out]) \<and>
          (out = OutTokenEnv (cfg_BearerTokenEnv cfg) \<or> (\<exists>e. out = OutBuildError e))"
    using runServe_valid runServe_fails
    by (cases "Load (pr_Files pr) (pr_Yaml pr) path") (auto simp: runServe_def)
qed


subsection \<open>A concrete configuration\<close>

definition exCfg :: Config where
  "exCfg = \<lparr>cfg_Version = 1, cfg_Listen = ''127.0.0.1:8080'', cfg_BearerTokenEnv = '''',
     cfg_Backends = [\<lparr>bc_Name = ''a'', bc_Kind = KindOllama, bc_BaseURL = ''http://gpu:8000'', bc_MaxInflight = 4,
       bc_ResponseHeaderTimeoutMS = 30000, bc_ResponseIdleTimeoutMS = 30000, bc_BearerTokenEnv = ''TOK''\<rparr>],
     cfg_Aliases = [\<lparr>ac_Name = ''chat'', ac_Routes = [\<lparr>rc_Backend = ''a'', rc_UpstreamModel = ''m'', rc_Priority = 1\<rparr>]\<rparr>]\<rparr>"

definition exEnvVars :: "string \<Rightarrow> string option" where
  "exEnvVars n = (if n = ''TOK'' then Some ''secret'' else None)"

lemma exURL: "\<exists>u. ParseBaseURL ''http://gpu:8000'' = Inr u"
proof -
  have "\<exists>u. ParseBaseURL (''http'' @ ''://'' @ ''gpu'' @ '':'' @ Itoa 8000) = Inr u"
    by (subst ParseBaseURL_plain) (simp_all add: plainHost_def isAlnum_def isUpper_def isLower_def isDigit_def)
  then show ?thesis by (simp add: Itoa_8000)
qed

lemma exListen: "valid_listen ''127.0.0.1:8080''"
proof -
  have "SplitHostPort ''127.0.0.1:8080'' = Some (''127.0.0.1'', ''8080'')"
    by (simp add: SplitHostPort_def Let_def cutLast_def)
  moreover have "TrimSpace ''127.0.0.1'' \<noteq> []" by (simp add: string_eval)
  moreover have "Atoi ''8080'' = Some 8080" by (simp add: Atoi_def isDigit_def minInt64_def maxInt64_def)
  ultimately show ?thesis by (simp add: valid_listen_def)
qed

lemma exCfg_valid: "valid_config exCfg"
  using exURL exListen
  by (simp add: exCfg_def valid_config_def valid_backend_def valid_name_def valid_env_def valid_alias_def valid_route_def
      routeId_def isBackendNameByte_def isAliasNameByte_def isAlphanumeric_def isUpper_def isLower_def isDigit_def string_eval)

theorem valid_config_starts_witness:
  "\<exists>bs s. Build (cfg_Backends exCfg) exEnvVars = Inr bs \<and> map b_token bs = [''secret''] \<and>
     NewState exCfg bs (Some []) = Inr s \<and> invState s \<and> AliasNames s = [''chat'']"
proof -
  have "\<forall>c\<in>set (cfg_Backends exCfg). secretsPresent exEnvVars c"
    by (simp add: exCfg_def secretsPresent_def exEnvVars_def)
  from valid_config_starts [OF exCfg_valid this, of "Some []"] obtain bs s where
    r: "Build (cfg_Backends exCfg) exEnvVars = Inr bs" "NewState exCfg bs (Some []) = Inr s" "invState s"
      "AliasNames s = map ac_Name (cfg_Aliases exCfg)" by blast
  then have "map b_token bs = [''secret'']"
    by (auto simp: exCfg_def buildOne_def resolveToken_def exEnvVars_def Let_def split: sum.splits)
  with r show ?thesis by (auto simp: exCfg_def)
qed

definition exProcess :: process where
  "exProcess = \<lparr>pr_Env = exEnvVars,
     pr_Files = \<lparr>fs_Stat = \<lambda>_. Inr 7, fs_Open = \<lambda>_. None, fs_Read = \<lambda>_. (''version'', None)\<rparr>,
     pr_Yaml = \<lambda>_ n. if n = 0 then YamlDocument exCfg else YamlEOF, pr_Serve = \<lambda>_. None\<rparr>"

lemma exProcess_load:
  "Load (pr_Files exProcess) (pr_Yaml exProcess) ''router.yaml'' = Inr exCfg" "variablesSet exProcess exCfg"
proof -
  have "applyDefaults exCfg = exCfg"
    by (simp add: applyDefaults_def applyDefaultsBackend_def exCfg_def string_eval)
  moreover have "TrimSpace ''version'' \<noteq> ''''" by (simp add: string_eval)
  ultimately show "Load (pr_Files exProcess) (pr_Yaml exProcess) ''router.yaml'' = Inr exCfg"
    using exCfg_valid by (auto simp: Load_Inr readable_def exProcess_def)
  show "variablesSet exProcess exCfg"
    by (simp add: variablesSet_def exCfg_def exProcess_def secretsPresent_def exEnvVars_def)
qed

theorem Run_validate_serve_witness:
  "Run exProcess [''validate'', ''-config'', ''router.yaml''] = (0, [OutConfigValid]) \<and>
   Run exProcess [''serve'', ''-config'', ''router.yaml''] = (0, []) \<and>
   fst (Run (exProcess\<lparr>pr_Env := \<lambda>_. None\<rparr>) [''serve'', ''-config'', ''router.yaml'']) = 1"
proof -
  note load = exProcess_load(1)
  have vars: "variablesSet exProcess exCfg" "\<not> variablesSet (exProcess\<lparr>pr_Env := \<lambda>_. None\<rparr>) exCfg"
    by (rule exProcess_load(2)) (simp add: variablesSet_def exCfg_def exProcess_def secretsPresent_def)
  have path: "''router.yaml'' \<noteq> ''''" by simp
  have "fst (Run exProcess [''validate'', ''-config'', ''router.yaml'']) = ExitSuccess"
    using Run_validate_serve [OF path, of exProcess] load by blast
  moreover have "Run exProcess [''serve'', ''-config'', ''router.yaml''] = (ExitSuccess, [])"
  proof -
    have "pr_Serve exProcess s = None" for s by (simp add: exProcess_def)
    with Run_validate_serve [OF path, of exProcess] load vars(1) show ?thesis by auto
  qed
  moreover have "fst (Run (exProcess\<lparr>pr_Env := \<lambda>_. None\<rparr>) [''serve'', ''-config'', ''router.yaml'']) = ExitError"
    using Run_validate_serve [OF path, of "exProcess\<lparr>pr_Env := \<lambda>_. None\<rparr>" "\<lambda>_. None" "\<lambda>_. None"] load vars(2)
    by (auto simp del: process.select_convs process.update_convs simp: prod_eq_iff)
  moreover have "snd (Run exProcess [''validate'', ''-config'', ''router.yaml'']) = [OutConfigValid]"
    using load by (simp add: Run_config(1) runValidate_def)
  ultimately show ?thesis by (simp add: prod_eq_iff ExitSuccess_def ExitError_def)
qed

end
