(* ===== verification/Transition.thy ===== *)
theory Transition
  imports Prelude
begin

text \<open>
  Two interfaces for step relations, used for the process of \<open>serve\<close>: a simulation, which
  carries what holds of every run of an abstract system over to a concrete one, and a
  system in which every step uses up some fuel, which therefore comes to an end.
\<close>

locale simulation =
  fixes cstep :: "'c \<Rightarrow> 'c \<Rightarrow> bool"
    and astep :: "'a \<Rightarrow> 'a \<Rightarrow> bool"
    and abs :: "'c \<Rightarrow> 'a"
    and good :: "'c \<Rightarrow> bool"
  assumes match: "good c \<Longrightarrow> cstep c c' \<Longrightarrow> abs c' = abs c \<or> astep (abs c) (abs c')"
    and keeps: "good c \<Longrightarrow> cstep c c' \<Longrightarrow> good c'"
begin

lemma simulates: "cstep\<^sup>*\<^sup>* c c' \<Longrightarrow> good c \<Longrightarrow> good c' \<and> astep\<^sup>*\<^sup>* (abs c) (abs c')"
proof (induction rule: rtranclp_induct)
  case (step y z)
  then have "good y" and run: "astep\<^sup>*\<^sup>* (abs c) (abs y)" by simp_all
  from keeps [OF this(1) step(2)] match [OF this(1) step(2)] run show ?case
    by (auto intro: rtranclp.rtrancl_into_rtrancl)
qed simp

end

locale winding_down =
  fixes qstep :: "'s \<Rightarrow> 's \<Rightarrow> bool"
    and good :: "'s \<Rightarrow> bool"
    and final :: "'s \<Rightarrow> bool"
    and fuel :: "'s \<Rightarrow> nat"
  assumes good_step: "good s \<Longrightarrow> qstep s s' \<Longrightarrow> good s'"
    and fuel_step: "good s \<Longrightarrow> qstep s s' \<Longrightarrow> fuel s' < fuel s"
    and enabled: "good s \<Longrightarrow> \<not> final s \<Longrightarrow> \<exists>s'. qstep s s'"
begin

text \<open>Every run is short, and a run that cannot go on is at its end.\<close>

lemma run_bounded: "(qstep ^^ n) s s' \<Longrightarrow> good s \<Longrightarrow> good s' \<and> n + fuel s' \<le> fuel s"
proof (induction n arbitrary: s')
  case (Suc n)
  then obtain t where t: "(qstep ^^ n) s t" "qstep t s'" by auto
  from Suc.IH [OF t(1) Suc.prems(2)] good_step fuel_step t(2) show ?case by fastforce
qed simp

lemma run_ends: "good s \<Longrightarrow> (qstep ^^ n) s s' \<Longrightarrow> \<forall>t. \<not> qstep s' t \<Longrightarrow> final s'"
  using run_bounded enabled by blast

lemma run_exists: "good s \<Longrightarrow> \<exists>n s'. n \<le> fuel s \<and> (qstep ^^ n) s s' \<and> good s' \<and> final s'"
proof (induction "fuel s" arbitrary: s rule: less_induct)
  case less
  show ?case
  proof (cases "final s")
    case True
    with less.prems show ?thesis by (intro exI [of _ 0] exI [of _ s]) simp
  next
    case False
    with enabled less.prems obtain t where t: "qstep s t" by blast
    note f = fuel_step [OF less.prems t]
    from less.hyps [OF f good_step [OF less.prems t]] obtain n s' where
      "n \<le> fuel t" "(qstep ^^ n) t s'" "good s'" "final s'" by blast
    moreover from t this(2) have "(qstep ^^ Suc n) s s'" by (rule relpowp_Suc_I2)
    ultimately show ?thesis using f by (intro exI [of _ "Suc n"] exI [of _ s']) simp
  qed
qed

end

end
