(* ===== verification/Lifecycle.thy ===== *)
theory Lifecycle
  imports Concurrency Startup Transition
begin

text \<open>
  \<^verbatim>\<open>internal/cli/app.go\<close>, the second half of \<open>runServe\<close>: the process from the start of the health
  loops and the listener to the exit. Four kinds of goroutines run: the main one, the one in
  \<open>ListenAndServe\<close>, one health loop per backend and one per request; signals and the network
  act from outside. The requests and the critical sections are those of \<open>Concurrency\<close>; one
  step here is one of theirs or one statement of the goroutines that blocks or is seen by
  another one.
\<close>

subsection \<open>The process\<close>

text \<open>
  Where the main goroutine is: in \<open>select\<close>, in \<open>server.Shutdown\<close>, in \<open>checks.Wait\<close> with the code it
  is about to return, or gone. A signal after \<open>stop()\<close> has the effect it has without a handler:
  it kills the process.
\<close>

datatype mainCtl = Selecting | ShuttingDown | Waiting int | Exited int | Killed

text \<open>
  The server's goroutine. The result of \<open>ListenAndServe\<close> is \<open>None\<close> for \<open>http.ErrServerClosed\<close>, which
  it returns after a call of \<open>Shutdown\<close> only, and else the error.
\<close>

datatype serverCtl = SrvStarting | SrvListening | SrvReturned "string option" | SrvDone

datatype loopCtl = Probing | Publishing | Sleeping | Stopped

record healthLoop =
  hl_Backend :: Backend
  hl_Ctl :: loopCtl
  hl_Previous :: "bool option"

datatype serveLog =
    LogStarting string nat nat
  | LogHealthChanged string string bool
  | LogSignal
  | LogShutdownFailed
  | LogStopped

text \<open>
  \<open>li_ServeErr\<close> is the channel \<open>serveErr\<close>, which holds one value. \<open>li_Opened\<close> tells that the server
  has listened, so that clients may be connected; \<open>li_Drained\<close> that \<open>Shutdown\<close> returned without an
  error, so that all connections are closed. The probes of the pool are the health loops: what
  loop \<open>i\<close> has still to publish is entry \<open>i\<close>.
\<close>

record life =
  li_Main :: mainCtl
  li_CtxDone :: bool
  li_Server :: serverCtl
  li_ServeErr :: "string option option"
  li_Opened :: bool
  li_Shutdown :: bool
  li_Drained :: bool
  li_Loops :: "healthLoop list"
  li_Pool :: pool
  li_Log :: "serveLog list"
  li_Output :: "cliOutput list"

definition running :: "life \<Rightarrow> bool" where
  "running l \<longleftrightarrow> (case li_Main l of Exited c \<Rightarrow> False | Killed \<Rightarrow> False | _ \<Rightarrow> True)"

definition startLoop :: "Backend \<Rightarrow> healthLoop" where
  "startLoop b = \<lparr>hl_Backend = b, hl_Ctl = Probing, hl_Previous = None\<rparr>"

definition startLife :: "Config \<Rightarrow> Backend list \<Rightarrow> State \<Rightarrow> life" where
  "startLife cfg backends s = \<lparr>li_Main = Selecting, li_CtxDone = False, li_Server = SrvStarting, li_ServeErr = None,
     li_Opened = False, li_Shutdown = False, li_Drained = False,
     li_Loops = map startLoop (ck_backends (NewChecker backends)), li_Pool = initialPool s (length backends),
     li_Log = [LogStarting (cfg_Listen cfg) (length backends) (length (cfg_Aliases cfg))], li_Output = []\<rparr>"

text \<open>\<open>runServe\<close> up to the point where the goroutines run, or its early return.\<close>

definition serveStart :: "process \<Rightarrow> string \<Rightarrow> (int \<times> cliOutput list) + life" where
  "serveStart pr path =
     (case Load (pr_Files pr) (pr_Yaml pr) path of
        Inl e \<Rightarrow> Inl (ExitError, [OutLoadError e])
      | Inr cfg \<Rightarrow>
         (case inboundToken pr cfg of
            None \<Rightarrow> Inl (ExitError, [OutTokenEnv (cfg_BearerTokenEnv cfg)])
          | Some token \<Rightarrow>
             (case Build (cfg_Backends cfg) (pr_Env pr) of
                Inl e \<Rightarrow> Inl (ExitError, [OutBuildError e])
              | Inr backends \<Rightarrow>
                 (case NewState cfg backends (Some []) of
                    Inl e \<Rightarrow> Inl (ExitError, [OutStateError e])
                  | Inr state \<Rightarrow> Inr (startLife cfg backends state)))))"

text \<open>A request no longer runs when it has returned, or panicked, and published its metrics.\<close>

definition over :: "thread \<Rightarrow> bool" where
  "over t \<longleftrightarrow> th_pending t = [] \<and> (case th_ctl t of Finished res \<Rightarrow> True | Crashed r \<Rightarrow> True | _ \<Rightarrow> False)"


subsection \<open>The steps\<close>

text \<open>The main goroutine. \<open>select\<close> may take either branch when both are ready.\<close>

inductive main_step :: "life \<Rightarrow> life \<Rightarrow> bool" where
  select_error: "li_Main l = Selecting \<Longrightarrow> li_ServeErr l = Some (Some e) \<Longrightarrow>
    main_step l (l\<lparr>li_Main := Waiting ExitError, li_ServeErr := None, li_CtxDone := True,
      li_Output := li_Output l @ [OutServerError e]\<rparr>)"
| select_closed: "li_Main l = Selecting \<Longrightarrow> li_ServeErr l = Some None \<Longrightarrow>
    main_step l (l\<lparr>li_Main := ShuttingDown, li_ServeErr := None, li_Shutdown := True\<rparr>)"
| select_signal: "li_Main l = Selecting \<Longrightarrow> li_CtxDone l \<Longrightarrow>
    main_step l (l\<lparr>li_Main := ShuttingDown, li_Shutdown := True, li_Log := li_Log l @ [LogSignal]\<rparr>)"
| shutdown_done: "li_Main l = ShuttingDown \<Longrightarrow> \<forall>t\<in>set (po_Requests (li_Pool l)). over t \<Longrightarrow>
    main_step l (l\<lparr>li_Main := Waiting ExitSuccess, li_CtxDone := True, li_Drained := True\<rparr>)"
| shutdown_timeout: "li_Main l = ShuttingDown \<Longrightarrow>
    main_step l (l\<lparr>li_Main := Waiting ExitSuccess, li_CtxDone := True, li_Log := li_Log l @ [LogShutdownFailed]\<rparr>)"
| waits: "li_Main l = Waiting c \<Longrightarrow> \<forall>h\<in>set (li_Loops l). hl_Ctl h = Stopped \<Longrightarrow>
    main_step l (l\<lparr>li_Main := Exited c, li_Log := li_Log l @ (if c = ExitSuccess then [LogStopped] else [])\<rparr>)"

text \<open>The server's goroutine.\<close>

inductive server_step :: "life \<Rightarrow> life \<Rightarrow> bool" where
  listens: "li_Server l = SrvStarting \<Longrightarrow> \<not> li_Shutdown l \<Longrightarrow>
    server_step l (l\<lparr>li_Server := SrvListening, li_Opened := True\<rparr>)"
| listen_fails: "li_Server l = SrvStarting \<Longrightarrow> server_step l (l\<lparr>li_Server := SrvReturned (Some e)\<rparr>)"
| accept_fails: "li_Server l = SrvListening \<Longrightarrow> \<not> li_Shutdown l \<Longrightarrow>
    server_step l (l\<lparr>li_Server := SrvReturned (Some e)\<rparr>)"
| closed: "li_Server l = SrvStarting \<or> li_Server l = SrvListening \<Longrightarrow> li_Shutdown l \<Longrightarrow>
    server_step l (l\<lparr>li_Server := SrvReturned None\<rparr>)"
| sends: "li_Server l = SrvReturned r \<Longrightarrow> li_ServeErr l = None \<Longrightarrow>
    server_step l (l\<lparr>li_Server := SrvDone, li_ServeErr := Some r\<rparr>)"

text \<open>
  A health loop: the probe and the critical section of \<open>SetHealth\<close>, its publication, and the
  \<open>select\<close> between the context and the ticker.
\<close>

definition loopLog :: "healthLoop \<Rightarrow> bool \<Rightarrow> serveLog list" where
  "loopLog h healthy = (if hl_Previous h = None \<or> hl_Previous h \<noteq> Some healthy
     then [LogHealthChanged (b_Name (hl_Backend h)) (b_Kind (hl_Backend h)) healthy] else [])"

inductive loop_step :: "life \<Rightarrow> life \<Rightarrow> bool" where
  loop_reports: "i < length (li_Loops l) \<Longrightarrow> h = li_Loops l ! i \<Longrightarrow> hl_Ctl h = Probing \<Longrightarrow>
    healthy = probe net (hl_Backend h) \<Longrightarrow>
    SetHealth_locked (po_State (li_Pool l)) (b_Name (hl_Backend h)) healthy = (s', calls) \<Longrightarrow>
    loop_step l (l\<lparr>li_Loops := (li_Loops l)[i := h\<lparr>hl_Ctl := Publishing, hl_Previous := Some healthy\<rparr>],
      li_Pool := (li_Pool l)\<lparr>po_State := s', po_Probes := (po_Probes (li_Pool l))[i := calls]\<rparr>,
      li_Log := li_Log l @ loopLog h healthy\<rparr>)"
| loop_publishes: "i < length (li_Loops l) \<Longrightarrow> h = li_Loops l ! i \<Longrightarrow> hl_Ctl h = Publishing \<Longrightarrow>
    po_Probes (li_Pool l) ! i = call # calls \<Longrightarrow>
    loop_step l (l\<lparr>li_Pool := (li_Pool l)\<lparr>po_State := emit [call] (po_State (li_Pool l)),
      po_Probes := (po_Probes (li_Pool l))[i := calls]\<rparr>\<rparr>)"
| loop_sleeps: "i < length (li_Loops l) \<Longrightarrow> h = li_Loops l ! i \<Longrightarrow> hl_Ctl h = Publishing \<Longrightarrow>
    po_Probes (li_Pool l) ! i = [] \<Longrightarrow>
    loop_step l (l\<lparr>li_Loops := (li_Loops l)[i := h\<lparr>hl_Ctl := Sleeping\<rparr>]\<rparr>)"
| loop_stops: "i < length (li_Loops l) \<Longrightarrow> h = li_Loops l ! i \<Longrightarrow> hl_Ctl h = Sleeping \<Longrightarrow> li_CtxDone l \<Longrightarrow>
    loop_step l (l\<lparr>li_Loops := (li_Loops l)[i := h\<lparr>hl_Ctl := Stopped\<rparr>]\<rparr>)"

text \<open>
  What happens from outside: a signal, a tick, a request on a connection, and the steps of
  the requests, which depend on clients and backends.
\<close>

inductive outer_step :: "life \<Rightarrow> life \<Rightarrow> bool" where
  signal: "\<not> (\<exists>c. li_Main l = Waiting c) \<Longrightarrow> outer_step l (l\<lparr>li_CtxDone := True\<rparr>)"
| signal_kills: "li_Main l = Waiting c \<Longrightarrow> outer_step l (l\<lparr>li_Main := Killed\<rparr>)"
| loop_ticks: "i < length (li_Loops l) \<Longrightarrow> h = li_Loops l ! i \<Longrightarrow> hl_Ctl h = Sleeping \<Longrightarrow>
    outer_step l (l\<lparr>li_Loops := (li_Loops l)[i := h\<lparr>hl_Ctl := Probing\<rparr>]\<rparr>)"
| arrives: "li_Opened l \<Longrightarrow> \<not> li_Drained l \<Longrightarrow>
    outer_step l (l\<lparr>li_Pool := (li_Pool l)\<lparr>po_Requests := po_Requests (li_Pool l) @ [at a Start []]\<rparr>\<rparr>)"
| proceeds: "i < length (po_Requests (li_Pool l)) \<Longrightarrow>
    req_step (po_Requests (li_Pool l) ! i) (po_State (li_Pool l)) t' s' \<Longrightarrow>
    outer_step l (l\<lparr>li_Pool := (li_Pool l)\<lparr>po_State := s', po_Requests := (po_Requests (li_Pool l))[i := t']\<rparr>\<rparr>)"

text \<open>
  The steps of the whole process, and the quiet ones among them: those the process makes
  without a new event from outside.
\<close>

definition quiet_step :: "life \<Rightarrow> life \<Rightarrow> bool" where
  "quiet_step l l' \<longleftrightarrow> running l \<and> (main_step l l' \<or> loop_step l l')"

definition life_step :: "life \<Rightarrow> life \<Rightarrow> bool" where
  "life_step l l' \<longleftrightarrow> running l \<and> (main_step l l' \<or> server_step l l' \<or> loop_step l l' \<or> outer_step l l')"

abbreviation life_run :: "life \<Rightarrow> life \<Rightarrow> bool" where
  "life_run \<equiv> life_step\<^sup>*\<^sup>*"


inductive_cases main_stepE: "main_step l l'"
inductive_cases server_stepE: "server_step l l'"
inductive_cases loop_stepE: "loop_step l l'"
inductive_cases outer_stepE: "outer_step l l'"

lemmas life_cases = main_stepE server_stepE loop_stepE outer_stepE

text \<open>
  One rule for all steps, by cases on the goroutine: the shape in which the invariants below
  are proved.
\<close>

lemma life_step_cases [consumes 1, case_names main server loop outer]:
  assumes "life_step l l'"
  obtains "running l" "main_step l l'" | "running l" "server_step l l'" | "running l" "loop_step l l'" | "running l" "outer_step l l'"
  using assms unfolding life_step_def by blast



subsection \<open>What holds at every moment\<close>

text \<open>
  The loops: what a loop has still to publish is one gauge at most, and nothing outside
  \<open>SetHealth\<close>; a loop stops only when the context is done. The exit: with which code the main
  goroutine leaves, what it has written by then, and what must have happened before.
\<close>

definition loops_ok :: "life \<Rightarrow> bool" where
  "loops_ok l \<longleftrightarrow> length (po_Probes (li_Pool l)) = length (li_Loops l) \<and>
     (\<forall>i<length (li_Loops l). length (po_Probes (li_Pool l) ! i) \<le> (if hl_Ctl (li_Loops l ! i) = Publishing then 1 else 0) \<and>
       (hl_Ctl (li_Loops l ! i) = Stopped \<longrightarrow> li_CtxDone l))"

definition exit_outcome :: "int \<Rightarrow> life \<Rightarrow> bool" where
  "exit_outcome c l \<longleftrightarrow> li_CtxDone l \<and>
     (c = ExitSuccess \<and> li_Output l = [] \<and> LogSignal \<in> set (li_Log l) \<and> (li_Drained l \<or> LogShutdownFailed \<in> set (li_Log l)) \<or>
      c = ExitError \<and> \<not> li_Drained l \<and> (\<exists>e. li_Output l = [OutServerError e]))"

definition main_ok :: "life \<Rightarrow> bool" where
  "main_ok l \<longleftrightarrow> (case li_Main l of
       Selecting \<Rightarrow> \<not> li_Shutdown l \<and> \<not> li_Drained l \<and> li_Output l = []
     | ShuttingDown \<Rightarrow> li_Shutdown l \<and> \<not> li_Drained l \<and> li_CtxDone l \<and> LogSignal \<in> set (li_Log l) \<and> li_Output l = []
     | Waiting c \<Rightarrow> exit_outcome c l
     | Exited c \<Rightarrow> exit_outcome c l \<and> (\<forall>h\<in>set (li_Loops l). hl_Ctl h = Stopped)
     | Killed \<Rightarrow> True)"

definition server_ok :: "life \<Rightarrow> bool" where
  "server_ok l \<longleftrightarrow> (li_Server l = SrvReturned None \<or> li_ServeErr l = Some None \<longrightarrow> li_Shutdown l) \<and>
     (li_Drained l \<longrightarrow> (\<forall>t\<in>set (po_Requests (li_Pool l)). over t))"

definition life_ok :: "life \<Rightarrow> bool" where
  "life_ok l \<longleftrightarrow> loops_ok l \<and> main_ok l \<and> server_ok l"

lemmas life_defs = main_ok_def server_ok_def exit_outcome_def

lemma SetHealth_calls: "SetHealth_locked s n h = (s', cs) \<Longrightarrow> length cs \<le> 1"
  by (auto simp: SetHealth_locked_def SetHealthy_def Let_def split: option.splits)

lemma over_no_step: "over t \<Longrightarrow> \<not> req_step t s t' s'"
  by (auto simp: over_def elim: req_stepE)

lemma startLife_ok: "life_ok (startLife cfg bs s)"
  by (simp add: life_ok_def loops_ok_def life_defs startLife_def startLoop_def initialPool_def NewChecker_def
      NewCheckerWithInterval_def)

lemma main_step_ok:
  assumes "main_step l l'" and "life_ok l"
  shows "life_ok l'"
  using assms by cases (auto simp: life_ok_def loops_ok_def life_defs)

lemma server_step_ok:
  assumes "server_step l l'" and "life_ok l"
  shows "life_ok l'"
  using assms by cases (auto simp: life_ok_def loops_ok_def life_defs split: mainCtl.splits)


lemma list_update_same: "xs ! i = y \<Longrightarrow> xs[i := y] = xs"
  by auto

text \<open>A step of a loop changes one entry of \<open>li_Loops\<close> and of the outstanding publications.\<close>

lemma loops_ok_update:
  assumes "loops_ok l" and "i < length (li_Loops l)"
    and "li_Loops l' = (li_Loops l)[i := h]" and "po_Probes (li_Pool l') = (po_Probes (li_Pool l))[i := calls]"
    and "li_CtxDone l \<longrightarrow> li_CtxDone l'" and "length calls \<le> (if hl_Ctl h = Publishing then 1 else 0)"
    and "hl_Ctl h = Stopped \<longrightarrow> li_CtxDone l'"
  shows "loops_ok l'"
  using assms by (auto simp: loops_ok_def nth_list_update)

text \<open>A loop that can step is not stopped, so the main goroutine is still there.\<close>

lemma stopped_no_step:
  assumes "loop_step l l'"
  shows "\<exists>h\<in>set (li_Loops l). hl_Ctl h \<noteq> Stopped"
proof -
  from assms obtain i where "i < length (li_Loops l)" "hl_Ctl (li_Loops l ! i) \<noteq> Stopped" by cases auto
  then show ?thesis using nth_mem by blast
qed

lemma loop_step_frame:
  assumes "loop_step l l'"
  shows "li_Main l' = li_Main l" "li_CtxDone l' = li_CtxDone l" "li_Server l' = li_Server l" "li_ServeErr l' = li_ServeErr l"
    "li_Opened l' = li_Opened l" "li_Shutdown l' = li_Shutdown l" "li_Drained l' = li_Drained l" "li_Output l' = li_Output l"
    "po_Requests (li_Pool l') = po_Requests (li_Pool l)" "length (li_Loops l') = length (li_Loops l)"
    "set (li_Log l) \<subseteq> set (li_Log l')"
  using assms by (cases, auto)+

lemma loop_step_ok:
  assumes "loop_step l l'" and "life_ok l"
  shows "life_ok l'"
proof -
  have ok: "loops_ok l" using assms(2) by (simp add: life_ok_def)
  have "loops_ok l'"
    using assms(1)
  proof cases
    case (loop_reports i h healthy net s' calls)
    show ?thesis using SetHealth_calls [OF loop_reports(6)] loop_reports
      by (intro loops_ok_update [OF ok loop_reports(2)]) auto
  next
    case (loop_publishes i h call calls)
    with ok have "length (po_Probes (li_Pool l) ! i) \<le> 1" by (auto simp: loops_ok_def)
    with loop_publishes show ?thesis
      by (intro loops_ok_update [OF ok loop_publishes(2), of _ h calls]) auto
  next
    case (loop_sleeps i h)
    then show ?thesis by (intro loops_ok_update [OF ok loop_sleeps(2), of _ "h\<lparr>hl_Ctl := Sleeping\<rparr>" "[]"]) (simp_all add: list_update_same)
  next
    case (loop_stops i h)
    with ok have "po_Probes (li_Pool l) ! i = []" by (auto simp: loops_ok_def)
    with loop_stops show ?thesis by (intro loops_ok_update [OF ok loop_stops(2), of _ "h\<lparr>hl_Ctl := Stopped\<rparr>" "[]"]) (simp_all add: list_update_same)
  qed
  moreover have "main_ok l' \<and> server_ok l'"
    using assms(2) loop_step_frame [OF assms(1)] stopped_no_step [OF assms(1)]
    by (auto simp: life_ok_def life_defs split: mainCtl.splits)
  ultimately show ?thesis by (simp add: life_ok_def)
qed

lemma outer_step_ok:
  assumes "outer_step l l'" and "running l" and "life_ok l"
  shows "life_ok l'"
  using assms(1)
proof cases
  case (loop_ticks i h)
  have ok: "loops_ok l" using assms(3) by (simp add: life_ok_def)
  with loop_ticks have "po_Probes (li_Pool l) ! i = []" by (auto simp: loops_ok_def)
  with loop_ticks have "loops_ok l'"
    by (intro loops_ok_update [OF ok loop_ticks(2), of _ "h\<lparr>hl_Ctl := Probing\<rparr>" "[]"]) (simp_all add: list_update_same)
  with loop_ticks assms(2,3) show ?thesis by (auto simp: life_ok_def life_defs running_def split: mainCtl.splits)
next
  case (proceeds i t' s')
  then have "\<not> over (po_Requests (li_Pool l) ! i)" using over_no_step by blast
  with proceeds(2) have "\<not> (\<forall>t\<in>set (po_Requests (li_Pool l)). over t)" using nth_mem by blast
  with proceeds assms(2,3) show ?thesis
    by (auto simp: life_ok_def life_defs loops_ok_def split: mainCtl.splits)
qed (use assms(2,3) in \<open>auto simp: life_ok_def life_defs loops_ok_def running_def split: mainCtl.splits\<close>)

lemma life_step_ok: "life_ok l \<Longrightarrow> life_step l l' \<Longrightarrow> life_ok l'"
  by (erule life_step_cases) (blast intro: main_step_ok server_step_ok loop_step_ok outer_step_ok)+



subsection \<open>The process simulates the pool\<close>

text \<open>
  Seen through the routing state, the requests and the outstanding publications, the process
  is a pool of \<open>Concurrency\<close>: each of its steps is a step of the pool or not visible there.
  What holds of all interleavings holds therefore throughout the life of the process.
\<close>

lemma life_matches_pool:
  assumes "life_ok l" and "life_step l l'"
  shows "li_Pool l' = li_Pool l \<or> pool_step (li_Pool l) (li_Pool l')"
  using assms(2)
proof (cases rule: life_step_cases)
  case main
  from main(2) show ?thesis by cases simp_all
next
  case server
  from server(2) show ?thesis by cases simp_all
next
  case loop
  from loop(2) show ?thesis
  proof cases
    case (loop_reports i h healthy net s' calls)
    with assms(1) have "i < length (po_Probes (li_Pool l))" "po_Probes (li_Pool l) ! i = []"
      by (auto simp: life_ok_def loops_ok_def)
    from pool_step.probe [OF this loop_reports(6)] loop_reports(1) show ?thesis by simp
  next
    case (loop_publishes i h call calls)
    with assms(1) have "i < length (po_Probes (li_Pool l))" by (simp add: life_ok_def loops_ok_def)
    from pool_step.probe_publishes [OF this loop_publishes(5)] loop_publishes(1) show ?thesis by simp
  qed simp_all
next
  case outer
  from outer(2) show ?thesis
  proof cases
    case (arrives a)
    then show ?thesis using pool_step.arrival [of "li_Pool l" a] by simp
  next
    case (proceeds i t' s')
    then show ?thesis using pool_step.request [OF proceeds(2,3)] by simp
  qed simp_all
qed

interpretation serving: simulation life_step pool_step li_Pool life_ok
  by unfold_locales (rule life_matches_pool life_step_ok; assumption)+

lemma pool_run_reachable: "pool_step\<^sup>*\<^sup>* p p' \<Longrightarrow> reachable s0 n p \<Longrightarrow> reachable s0 n p'"
  by (induction rule: rtranclp_induct) (auto intro: reachable.step)

lemma life_run_reachable:
  assumes "life_run (startLife cfg bs s) l"
  shows "life_ok l" and "reachable s (length bs) (li_Pool l)"
  using serving.simulates [OF assms startLife_ok] pool_run_reachable [OF _ reachable.initial]
  by (auto simp: startLife_def)

lemma serveStart_Inr:
  assumes "serveStart pr path = Inr l0"
  shows "\<exists>cfg bs s. Load (pr_Files pr) (pr_Yaml pr) path = Inr cfg \<and> Build (cfg_Backends cfg) (pr_Env pr) = Inr bs \<and>
    NewState cfg bs (Some []) = Inr s \<and> l0 = startLife cfg bs s \<and> invState s \<and> (\<forall>b. load s b = 0) \<and>
    (\<forall>pr_srv. runServe (pr\<lparr>pr_Serve := pr_srv\<rparr>) path =
       (case pr_srv s of Some e \<Rightarrow> (ExitError, [OutServerError e]) | None \<Rightarrow> (ExitSuccess, [])))"
proof -
  from assms obtain cfg token bs s where
    r: "Load (pr_Files pr) (pr_Yaml pr) path = Inr cfg" "inboundToken pr cfg = Some token"
      "Build (cfg_Backends cfg) (pr_Env pr) = Inr bs" "NewState cfg bs (Some []) = Inr s" "l0 = startLife cfg bs s"
    by (auto simp: serveStart_def split: sum.splits option.splits)
  then have "secretsPresent (pr_Env pr) c" if "c \<in> set (cfg_Backends cfg)" for c
    using that Build_Inr_iff by blast
  moreover have "valid_config cfg" using r(1) by (auto simp: Load_Inr)
  ultimately obtain s' where "NewState cfg bs (Some []) = Inr s'" "invState s'" "\<forall>b. load s' b = 0"
    using starts [of cfg "pr_Env pr" "Some []"] r(3) by auto
  moreover have "inboundToken (pr\<lparr>pr_Serve := srv\<rparr>) cfg = inboundToken pr cfg" for srv by (simp add: inboundToken_def)
  ultimately show ?thesis using r by (simp add: runServe_def)
qed


subsection \<open>Winding down\<close>

definition stopping :: "life \<Rightarrow> bool" where
  "stopping l \<longleftrightarrow> (case li_Main l of Selecting \<Rightarrow> li_CtxDone l \<or> li_ServeErr l \<noteq> None | Killed \<Rightarrow> False | _ \<Rightarrow> True)"

definition exited :: "life \<Rightarrow> bool" where
  "exited l \<longleftrightarrow> (\<exists>c. li_Main l = Exited c)"

fun mainFuel :: "mainCtl \<Rightarrow> nat" where
  "mainFuel Selecting = 3"
| "mainFuel ShuttingDown = 2"
| "mainFuel (Waiting c) = 1"
| "mainFuel _ = 0"

fun loopFuel :: "healthLoop \<times> prom_call list \<Rightarrow> nat" where
  "loopFuel (h, pend) = (case hl_Ctl h of Probing \<Rightarrow> 4 | Publishing \<Rightarrow> 2 + length pend | Sleeping \<Rightarrow> 1 | Stopped \<Rightarrow> 0)"

definition fuel :: "life \<Rightarrow> nat" where
  "fuel l = mainFuel (li_Main l) + sum_list (map loopFuel (zip (li_Loops l) (po_Probes (li_Pool l))))"

lemma fuel_loop_update:
  assumes "loops_ok l" and "i < length (li_Loops l)" and "li_Main l' = li_Main l"
    and "li_Loops l' = (li_Loops l)[i := h]" and "po_Probes (li_Pool l') = (po_Probes (li_Pool l))[i := calls]"
    and "loopFuel (h, calls) < loopFuel (li_Loops l ! i, po_Probes (li_Pool l) ! i)"
  shows "fuel l' < fuel l"
proof -
  let ?xs = "map loopFuel (zip (li_Loops l) (po_Probes (li_Pool l)))"
  from assms(1,2) have i: "i < length ?xs" "?xs ! i = loopFuel (li_Loops l ! i, po_Probes (li_Pool l) ! i)"
    by (simp_all add: loops_ok_def)
  have "map loopFuel (zip (li_Loops l') (po_Probes (li_Pool l'))) = ?xs[i := loopFuel (h, calls)]"
    by (simp only: assms(4,5) map_update [symmetric] update_zip fst_conv snd_conv)
  then have "sum_list (map loopFuel (zip (li_Loops l') (po_Probes (li_Pool l')))) = sum_list ?xs + loopFuel (h, calls) - ?xs ! i"
    using sum_list_update [OF i(1)] by simp
  moreover have "?xs ! i \<le> sum_list ?xs" by (rule elem_le_sum_list [OF i(1)])
  ultimately have "sum_list (map loopFuel (zip (li_Loops l') (po_Probes (li_Pool l')))) < sum_list ?xs"
    using assms(6) i(2) by linarith
  then show ?thesis by (simp add: fuel_def assms(3))
qed

lemma fuel_main_step: "main_step l l' \<Longrightarrow> fuel l' < fuel l"
  by (erule main_stepE) (simp_all add: fuel_def)

lemma fuel_loop_step:
  assumes "loop_step l l'" and ok: "loops_ok l"
  shows "fuel l' < fuel l"
  using assms(1)
proof cases
  case (loop_reports i h healthy net s' calls)
  then show ?thesis using SetHealth_calls [OF loop_reports(6)]
    by (intro fuel_loop_update [OF ok loop_reports(2), of _ "h\<lparr>hl_Ctl := Publishing, hl_Previous := Some healthy\<rparr>" calls])
      simp_all
next
  case (loop_publishes i h call calls)
  then show ?thesis by (intro fuel_loop_update [OF ok loop_publishes(2), of _ h calls]) (simp_all add: list_update_same)
next
  case (loop_sleeps i h)
  then show ?thesis by (intro fuel_loop_update [OF ok loop_sleeps(2), of _ "h\<lparr>hl_Ctl := Sleeping\<rparr>" "[]"]) (simp_all add: list_update_same)
next
  case (loop_stops i h)
  with ok have "po_Probes (li_Pool l) ! i = []" by (auto simp: loops_ok_def)
  with loop_stops show ?thesis by (intro fuel_loop_update [OF ok loop_stops(2), of _ "h\<lparr>hl_Ctl := Stopped\<rparr>" "[]"]) (simp_all add: list_update_same)
qed

lemma loop_enabled:
  assumes "li_CtxDone l" and "h \<in> set (li_Loops l)" and "hl_Ctl h \<noteq> Stopped"
  shows "\<exists>l'. loop_step l l'"
proof -
  from assms(2) obtain i where i: "i < length (li_Loops l)" "h = li_Loops l ! i" by (metis in_set_conv_nth)
  show ?thesis
  proof (cases "hl_Ctl h")
    case Probing
    obtain s' calls where "SetHealth_locked (po_State (li_Pool l)) (b_Name (hl_Backend h)) (probe (\<lambda>_. ExchangeFailed) (hl_Backend h)) = (s', calls)"
      by fastforce
    from loop_reports [OF i Probing refl this] show ?thesis by blast
  next
    case Publishing
    show ?thesis using loop_publishes [OF i Publishing] loop_sleeps [OF i Publishing]
      by (cases "po_Probes (li_Pool l) ! i") blast+
  next
    case Sleeping
    from loop_stops [OF i this assms(1)] show ?thesis by blast
  qed (use assms in simp)
qed

lemma quiet_enabled:
  assumes "life_ok l" and "stopping l" and "\<not> exited l"
  shows "\<exists>l'. quiet_step l l'"
proof (cases "li_Main l")
  case Selecting
  with assms(2) consider "li_CtxDone l" | r where "li_ServeErr l = Some r" by (auto simp: stopping_def)
  then have "\<exists>l'. main_step l l'"
  proof cases
    case 1
    with Selecting select_signal show ?thesis by blast
  next
    case 2
    with Selecting select_error select_closed show ?thesis by (cases r) blast+
  qed
  with Selecting show ?thesis by (auto simp: quiet_step_def running_def)
next
  case ShuttingDown
  with shutdown_timeout show ?thesis by (fastforce simp: quiet_step_def running_def)
next
  case (Waiting c)
  with assms(1) have "li_CtxDone l" by (simp add: life_ok_def life_defs)
  with Waiting waits loop_enabled show ?thesis
    by (cases "\<forall>h\<in>set (li_Loops l). hl_Ctl h = Stopped") (fastforce simp: quiet_step_def running_def)+
qed (use assms(2,3) in \<open>simp_all add: stopping_def exited_def\<close>)

lemma quiet_step_keeps:
  assumes "life_ok l \<and> stopping l" and "quiet_step l l'"
  shows "life_ok l' \<and> stopping l'" and "fuel l' < fuel l"
proof -
  have "life_ok l'" using assms main_step_ok loop_step_ok by (auto simp: quiet_step_def)
  moreover have "stopping l'" if "main_step l l'" using that by cases (simp_all add: stopping_def)
  moreover have "stopping l'" if "loop_step l l'"
    using loop_step_frame [OF that] assms(1) by (simp add: stopping_def split: mainCtl.splits)
  ultimately show "life_ok l' \<and> stopping l'" using assms(2) by (auto simp: quiet_step_def)
  show "fuel l' < fuel l" using assms fuel_main_step fuel_loop_step by (auto simp: quiet_step_def life_ok_def)
qed

interpretation exiting: winding_down quiet_step "\<lambda>l. life_ok l \<and> stopping l" exited fuel
  by unfold_locales (use quiet_step_keeps quiet_enabled in blast)+

lemma sum_list_bound: "(\<And>x. x \<in> set xs \<Longrightarrow> x \<le> k) \<Longrightarrow> sum_list xs \<le> k * length xs" for xs :: "nat list"
  by (induction xs) (auto intro: add_mono)

lemma fuel_bound: "loops_ok l \<Longrightarrow> fuel l \<le> 3 + 4 * length (li_Loops l)"
proof -
  assume ok: "loops_ok l"
  let ?xs = "map loopFuel (zip (li_Loops l) (po_Probes (li_Pool l)))"
  have "x \<le> 4" if "x \<in> set ?xs" for x
  proof -
    from that ok obtain i where "i < length (li_Loops l)" "x = loopFuel (li_Loops l ! i, po_Probes (li_Pool l) ! i)"
      by (auto simp: in_set_conv_nth loops_ok_def)
    with ok show ?thesis by (auto simp: loops_ok_def split: loopCtl.splits)
  qed
  then have "sum_list ?xs \<le> 4 * length ?xs" by (intro sum_list_bound) blast
  moreover have "mainFuel (li_Main l) \<le> 3" by (cases "li_Main l") simp_all
  ultimately show ?thesis using ok by (simp add: fuel_def loops_ok_def)
qed



subsection \<open>Properties\<close>

text \<open>
  C3: capacity throughout the life of the process. From the moment \<open>serve\<close> has started from a
  configuration, whatever requests, probes, ticks, signals and failures of the server happen
  in whatever order, up to the exit: the routing state is well formed, each backend carries
  exactly the reservations of the requests on it (a request that panicked while it held one never
  gives it back), and never more than its limit.
\<close>

theorem serve_keeps_capacity:
  assumes "serveStart pr path = Inr l0" and "life_run l0 l"
  shows "invState (po_State (li_Pool l)) \<and>
    load (po_State (li_Pool l)) b = int (count (heldBy (po_Requests (li_Pool l))) b) \<and>
    int (count (heldBy (po_Requests (li_Pool l))) b) \<le> max 0 (limit (po_State (li_Pool l)) b)"
proof -
  from serveStart_Inr [OF assms(1)] obtain cfg bs s where s: "l0 = startLife cfg bs s" "invState s" "\<forall>b. load s b = 0" by blast
  from reachable_ledger [OF life_run_reachable(2) [OF assms(2) [unfolded s(1)]] s(2,3)] show ?thesis
    using invState_within by (fastforce simp: ledger_def balanced_def within_def)
qed

text \<open>Of the requests that are over, those that panicked on a route still hold its slot.\<close>

lemma over_count:
  assumes "over t"
  shows "count (held (th_ctl t)) b = (if \<exists>r. th_ctl t = Crashed (Some r) \<and> routeBackend r = b then 1 else 0)"
proof (cases "th_ctl t")
  case (Crashed r)
  then show ?thesis by (cases r) simp_all
qed (use assms in \<open>simp_all add: over_def\<close>)

lemma over_held:
  "\<forall>t\<in>set ts. over t \<Longrightarrow>
    count (heldBy ts) b = length (filter (\<lambda>t. \<exists>r. th_ctl t = Crashed (Some r) \<and> routeBackend r = b) ts)"
  by (induction ts) (simp_all add: heldBy_def over_count)

text \<open>
  C6: how \<open>serve\<close> ends. When the process exits, every health loop has stopped, with nothing left to
  publish, and no goroutine takes a further step. The exit code is 0, with nothing written to
  the standard error, only after a signal; then either the failure of the graceful shutdown was
  logged, or all requests were over and each backend carries exactly one unit for every request
  that panicked while it held a route to it, so that every slot was given back if none did. Else
  the code is 1 and the one line written is the server's error.
\<close>

theorem serve_exit:
  assumes "serveStart pr path = Inr l0" and "life_run l0 l" and "li_Main l = Exited c"
  shows "(\<forall>h\<in>set (li_Loops l). hl_Ctl h = Stopped) \<and> (\<forall>calls\<in>set (po_Probes (li_Pool l)). calls = []) \<and>
    (\<nexists>l'. life_step l l') \<and>
    (c = ExitSuccess \<and> li_Output l = [] \<and> LogSignal \<in> set (li_Log l) \<and>
       (LogShutdownFailed \<in> set (li_Log l) \<or>
        (\<forall>t\<in>set (po_Requests (li_Pool l)). over t) \<and>
        (\<forall>b. load (po_State (li_Pool l)) b =
           int (length (filter (\<lambda>t. \<exists>r. th_ctl t = Crashed (Some r) \<and> routeBackend r = b) (po_Requests (li_Pool l)))))) \<or>
     c = ExitError \<and> (\<exists>e. li_Output l = [OutServerError e]))"
proof -
  from serveStart_Inr [OF assms(1)] obtain cfg bs s where s: "l0 = startLife cfg bs s" "invState s" "\<forall>b. load s b = 0" by blast
  note run = life_run_reachable [OF assms(2) [unfolded s(1)]]
  from run(1) assms(3) have out: "exit_outcome c l" and stopped: "\<forall>h\<in>set (li_Loops l). hl_Ctl h = Stopped"
    and loops: "loops_ok l" and srv: "server_ok l" by (simp_all add: life_ok_def main_ok_def)
  have "calls = []" if "calls \<in> set (po_Probes (li_Pool l))" for calls
  proof -
    from that loops obtain i where "i < length (li_Loops l)" "calls = po_Probes (li_Pool l) ! i"
      by (metis in_set_conv_nth loops_ok_def)
    with loops stopped show ?thesis by (auto simp: loops_ok_def)
  qed
  moreover have "\<nexists>l'. life_step l l'" using assms(3) by (simp add: life_step_def running_def)
  moreover have "\<forall>b. load (po_State (li_Pool l)) b =
      int (length (filter (\<lambda>t. \<exists>r. th_ctl t = Crashed (Some r) \<and> routeBackend r = b) (po_Requests (li_Pool l))))"
    if "\<forall>t\<in>set (po_Requests (li_Pool l)). over t"
    using reachable_ledger [OF run(2) s(2,3)] over_held [OF that] by (simp add: ledger_def balanced_def)
  ultimately show ?thesis using out srv stopped by (auto simp: exit_outcome_def server_ok_def)
qed

text \<open>
  C7: \<open>serve\<close> comes to an end. Once a signal has arrived, or the server has handed over its result,
  the process never hangs: it can always go on without a new event from outside until it has
  exited, and however it goes on, at most 3 steps of the main goroutine and 4 of each health
  loop are left. (Only a kill, a tick at each loop's \<open>select\<close> or a new step of a request can
  intervene, and then the same holds again.)
\<close>

theorem serve_comes_to_an_end:
  assumes "serveStart pr path = Inr l0" and "life_run l0 l" and "stopping l"
  shows "(\<exists>n l'. (quiet_step ^^ n) l l' \<and> exited l') \<and>
    (\<forall>n l'. (quiet_step ^^ n) l l' \<longrightarrow> n \<le> 3 + 4 * length (li_Loops l) \<and> ((\<nexists>l''. quiet_step l' l'') \<longrightarrow> exited l'))"
proof -
  from serveStart_Inr [OF assms(1)] obtain cfg bs s where "l0 = startLife cfg bs s" by blast
  with life_run_reachable(1) assms(2) have ok: "life_ok l" by blast
  then have bound: "fuel l \<le> 3 + 4 * length (li_Loops l)" by (simp add: fuel_bound life_ok_def)
  have good: "life_ok l \<and> stopping l" using ok assms(3) by simp
  from exiting.run_exists [OF good] exiting.run_bounded [OF _ good] exiting.run_ends [OF good] bound
  show ?thesis by (meson add_leD1 le_trans)
qed

lemma quiet_life: "quiet_step l l' \<Longrightarrow> life_step l l'"
  by (auto simp: quiet_step_def life_step_def)

lemma quiet_run_life: "(quiet_step ^^ n) l l' \<Longrightarrow> life_run l l'"
proof (induction n arbitrary: l')
  case (Suc n)
  then obtain t where "life_run l t" "quiet_step t l'" by auto
  then show ?case by (blast intro: rtranclp.rtrancl_into_rtrancl quiet_life)
qed simp

text \<open>What the main goroutine has decided stays decided.\<close>

definition decided :: "int \<Rightarrow> cliOutput list \<Rightarrow> thread list \<Rightarrow> life \<Rightarrow> bool" where
  "decided c out ts l \<longleftrightarrow> (li_Main l = Waiting c \<or> li_Main l = Exited c) \<and> li_Output l = out \<and> po_Requests (li_Pool l) = ts"

lemma decided_quiet: "decided c out ts l \<Longrightarrow> quiet_step l l' \<Longrightarrow> decided c out ts l'"
  unfolding quiet_step_def decided_def
  by (elim conjE disjE) (auto simp: loop_step_frame elim: main_stepE)

lemma decided_exits:
  assumes "life_ok l" and "decided c out ts l"
  shows "\<exists>l'. life_run l l' \<and> li_Main l' = Exited c \<and> decided c out ts l'"
proof -
  have "stopping l" using assms(2) by (auto simp: decided_def stopping_def)
  with exiting.run_exists [of l] assms(1) obtain n l' where run: "(quiet_step ^^ n) l l'" "exited l'" by blast
  have "decided c out ts l'" using run(1)
    by (induction n arbitrary: l') (use assms(2) in \<open>auto intro: decided_quiet\<close>)
  with run quiet_run_life show ?thesis by (auto simp: decided_def exited_def)
qed

lemma life_then: "life_run l m \<Longrightarrow> running m \<Longrightarrow> main_step m n \<or> server_step m n \<or> loop_step m n \<or> outer_step m n \<Longrightarrow> life_run l n"
  by (rule rtranclp.rtrancl_into_rtrancl) (simp_all add: life_step_def)

text \<open>A signal while the main goroutine is in its \<open>select\<close>, and a shutdown that times out.\<close>

definition timedOut :: "life \<Rightarrow> life" where
  "timedOut l = l\<lparr>li_Shutdown := True, li_Main := Waiting ExitSuccess, li_CtxDone := True,
     li_Log := li_Log l @ [LogSignal, LogShutdownFailed]\<rparr>"

lemma signal_run:
  assumes "life_run l0 l" and "li_Main l = Selecting"
  shows "life_run l0 (timedOut l)"
proof -
  let ?l1 = "l\<lparr>li_CtxDone := True\<rparr>"
  let ?l2 = "?l1\<lparr>li_Main := ShuttingDown, li_Shutdown := True, li_Log := li_Log l @ [LogSignal]\<rparr>"
  have r1: "life_run l0 ?l1" using signal [of l] assms(2) by (intro life_then [OF assms(1)]) (simp_all add: running_def)
  have "life_run l0 ?l2" using select_signal [of ?l1] assms(2) by (intro life_then [OF r1]) (simp_all add: running_def)
  moreover have "main_step ?l2 (timedOut l)" using shutdown_timeout [of ?l2] by (simp add: timedOut_def)
  ultimately show ?thesis using life_then [of l0 ?l2 "timedOut l"] by (simp add: running_def)
qed

text \<open>A listener that fails before anything else happens.\<close>

lemma failure_run:
  assumes "l = startLife cfg bs s"
  shows "\<exists>l'. life_run l l' \<and> decided ExitError [OutServerError e] [] l'"
proof -
  let ?l1 = "l\<lparr>li_Server := SrvReturned (Some e)\<rparr>"
  let ?l2 = "?l1\<lparr>li_Server := SrvDone, li_ServeErr := Some (Some e)\<rparr>"
  let ?l3 = "?l2\<lparr>li_Main := Waiting ExitError, li_ServeErr := None, li_CtxDone := True, li_Output := li_Output ?l2 @ [OutServerError e]\<rparr>"
  have l: "li_Main l = Selecting" "li_Server l = SrvStarting" "li_ServeErr l = None" "li_Output l = []" "po_Requests (li_Pool l) = []"
    by (simp_all add: assms startLife_def initialPool_def)
  have r1: "life_run l ?l1" using listen_fails [of l e] l by (intro life_then [OF rtranclp.rtrancl_refl [of _ l]]) (simp_all add: running_def)
  have r2: "life_run l ?l2" using sends [of ?l1 "Some e"] l by (intro life_then [OF r1]) (simp_all add: running_def)
  have "life_run l ?l3" using select_error [of ?l2 e] l by (intro life_then [OF r2]) (simp_all add: running_def)
  moreover have "decided ExitError [OutServerError e] [] ?l3" using l by (simp add: decided_def)
  ultimately show ?thesis by blast
qed

text \<open>How a run can end, by the end of serving; and that each of these ends is reached.\<close>

definition servingEnds :: "string option \<Rightarrow> int \<times> cliOutput list" where
  "servingEnds e = (case e of Some x \<Rightarrow> (ExitError, [OutServerError x]) | None \<Rightarrow> (ExitSuccess, []))"

lemma exit_allowed:
  assumes "life_run (startLife cfg bs s) l" and "li_Main l = Exited c"
  shows "\<exists>e. (c, li_Output l) = servingEnds e"
proof -
  have "life_ok l" using assms(1) by (rule life_run_reachable(1))
  then have "exit_outcome c l" using assms(2) by (simp add: life_ok_def main_ok_def)
  then consider "c = ExitSuccess" "li_Output l = []" | e where "c = ExitError" "li_Output l = [OutServerError e]"
    by (auto simp: exit_outcome_def)
  then show ?thesis
  proof cases
    case 1
    then show ?thesis by (intro exI [of _ None]) (simp add: servingEnds_def)
  next
    case (2 e)
    then show ?thesis by (intro exI [of _ "Some e"]) (simp add: servingEnds_def)
  qed
qed

lemma exit_reached:
  assumes "l0 = startLife cfg bs s" and "servingEnds e = (c, out)"
  shows "\<exists>l. life_run l0 l \<and> li_Main l = Exited c \<and> li_Output l = out"
proof -
  have "\<exists>l ts. life_run l0 l \<and> decided c out ts l"
  proof (cases e)
    case None
    have sel: "li_Main l0 = Selecting" "li_Output l0 = []" by (simp_all add: assms(1) startLife_def)
    have "life_run l0 (timedOut l0)" by (rule signal_run [OF rtranclp.rtrancl_refl sel(1)])
    moreover have "decided c out (po_Requests (li_Pool l0)) (timedOut l0)"
      using None assms(2) sel by (auto simp: decided_def timedOut_def servingEnds_def)
    ultimately show ?thesis by blast
  next
    case (Some x)
    with assms(2) have "c = ExitError" "out = [OutServerError x]" by (simp_all add: servingEnds_def)
    with failure_run [OF assms(1), of x] show ?thesis by blast
  qed
  then obtain l ts where l: "life_run l0 l" "decided c out ts l" by blast
  have "life_ok l" using l(1) unfolding assms(1) by (rule life_run_reachable(1))
  from decided_exits [OF this l(2)] obtain l' where l': "life_run l l'" "li_Main l' = Exited c" "decided c out ts l'" by blast
  have "life_run l0 l'" by (rule rtranclp_trans [OF l(1) l'(1)])
  with l' show ?thesis by (auto simp: decided_def)
qed

text \<open>
  C12: the process refines the command. \<open>runServe\<close>, which leaves open how serving ends, is exactly what
  the process of goroutines does: it stops before serving in the same cases with the same
  output, and otherwise the process can exit with a code and an output exactly if \<open>runServe\<close>
  returns them for some end of serving.
\<close>

theorem serve_refines_runServe:
  "case serveStart pr path of
     Inl r \<Rightarrow> \<forall>srv. runServe (pr\<lparr>pr_Serve := srv\<rparr>) path = r
   | Inr l0 \<Rightarrow> \<forall>c out. (\<exists>l. life_run l0 l \<and> li_Main l = Exited c \<and> li_Output l = out) \<longleftrightarrow>
       (\<exists>srv. runServe (pr\<lparr>pr_Serve := srv\<rparr>) path = (c, out))"
proof (cases "serveStart pr path")
  case (Inl r)
  have "inboundToken (pr\<lparr>pr_Serve := srv\<rparr>) cfg = inboundToken pr cfg" for srv cfg by (simp add: inboundToken_def)
  with Inl show ?thesis by (auto simp: serveStart_def runServe_def split: sum.splits option.splits)
next
  case (Inr l0)
  from serveStart_Inr [OF Inr] obtain cfg bs s where start: "l0 = startLife cfg bs s"
    and run: "\<And>srv. runServe (pr\<lparr>pr_Serve := srv\<rparr>) path = servingEnds (srv s)" unfolding servingEnds_def by blast
  have "(\<exists>l. life_run l0 l \<and> li_Main l = Exited c \<and> li_Output l = out) \<longleftrightarrow> (\<exists>srv. runServe (pr\<lparr>pr_Serve := srv\<rparr>) path = (c, out))" for c out
  proof
    assume "\<exists>l. life_run l0 l \<and> li_Main l = Exited c \<and> li_Output l = out"
    then obtain e where "servingEnds e = (c, out)" unfolding start using exit_allowed by metis
    with run [of "\<lambda>_. e"] show "\<exists>srv. runServe (pr\<lparr>pr_Serve := srv\<rparr>) path = (c, out)" by auto
  next
    assume "\<exists>srv. runServe (pr\<lparr>pr_Serve := srv\<rparr>) path = (c, out)"
    with run obtain e where "servingEnds e = (c, out)" by metis
    with start show "\<exists>l. life_run l0 l \<and> li_Main l = Exited c \<and> li_Output l = out" by (rule exit_reached)
  qed
  then show ?thesis unfolding Inr sum.case by blast
qed


subsection \<open>What outlives \<open>serve\<close>\<close>

text \<open>
  Once the backend of a route has been found healthy while it carries no load, a request for
  the alias gets a reservation.
\<close>

lemma healthy_reserves:
  assumes "invState s" and "\<forall>b. load s b = 0" and "st_aliases s n = Some al" and "r \<in> set (as_routes al)"
    and "1 \<le> b_MaxInflight (r_Backend r)" and "SetHealth_locked s (routeBackend r) True = (s1, calls)"
  shows "\<exists>r' s2. Reserve s1 n {} = Some (Inr r', s2)"
proof -
  have wf: "wf_state s" using assms(1) by (rule invState_wf)
  have "alias_ok s al" using wf_alias_ok [OF wf assms(3)] by simp
  then obtain bs where bs: "bsOf s (routeBackend r) = Some bs" "bs_backend bs = r_Backend r"
    using assms(4) by (auto simp: alias_ok_def)
  with assms(2) have idle: "bs_inflight bs = 0" by (auto simp: load_def dest!: spec [of _ "routeBackend r"])
  from SetHealth_locked_cases [OF wf, of "routeBackend r" True] bs assms(6)
  have s1: "same_shape s s1" "bsOf s1 (routeBackend r) = Some (bs\<lparr>bs_checked := True, bs_healthy := True\<rparr>)"
    by (cases; simp)+
  then have "eligible s1 {} r" using idle bs(2) assms(5) by (simp add: eligible_def)
  moreover have "st_aliases s1 n = Some al" using s1(1) assms(3) by (simp add: same_shape_def)
  moreover have "wf_state s1" using SetHealth_locked_inv [OF assms(1,6)] by (rule invState_wf)
  ultimately show ?thesis using assms(4) Reserve_cases [of s1 n "{}"] by (metis filter_empty_conv option.distinct(1) option.inject)
qed

text \<open>The first alias of a started router, its first route and the loop of that route's backend.\<close>

lemma started_route:
  assumes "valid_config cfg" and "Build (cfg_Backends cfg) secrets = Inr bs" and "NewState cfg bs m = Inr s"
  shows "\<exists>n al r i. st_aliases s n = Some al \<and> r \<in> set (as_routes al) \<and> 1 \<le> b_MaxInflight (r_Backend r) \<and>
    i < length bs \<and> bs ! i = r_Backend r"
proof -
  from assms(1) obtain ac where ac: "ac \<in> set (cfg_Aliases cfg)" by (cases "cfg_Aliases cfg") (auto simp: valid_config_def)
  have "ac_Routes ac \<noteq> []" using assms(1) ac by (simp add: valid_config_def valid_alias_def)
  moreover from ac NewState_config(1) [OF assms(3)] obtain al where al: "al \<in> set (st_aliasOrder s)" "aliasOf al = ac"
    by (metis (mono_tags, lifting) imageE list.set_map)
  ultimately obtain r where r: "r \<in> set (as_routes al)" by (cases "as_routes al") (auto simp: aliasOf_def)
  have look: "st_aliases s (as_name al) = Some al"
    using NewState_config(2) [OF assms(3) _ al(1)] assms(1) by (simp add: valid_config_def)
  have wf: "wf_state s" by (rule NewState_Inr(1) [OF assms(3)])
  have "alias_ok s al" using wf_alias_ok [OF wf look] by simp
  then obtain st where st: "bsOf s (routeBackend r) = Some st" "bs_backend st = r_Backend r"
    using r by (auto simp: alias_ok_def)
  have "r_Backend r \<in> bs_backend ` set (st_cells s)" using bsOf_Some_in_cells [OF wf st(1)] st(2) by (metis imageI)
  then have mem: "r_Backend r \<in> set bs" using NewState_idle(2) [OF assms(3)] by (metis list.set_map)
  then obtain i where "i < length bs" "bs ! i = r_Backend r" by (auto simp: in_set_conv_nth)
  moreover have "list_all2 describes (cfg_Backends cfg) bs"
    using Build_describes [OF assms(2)] assms(1) by (simp add: valid_config_def)
  with mem obtain c where "c \<in> set (cfg_Backends cfg)" "describes c (r_Backend r)"
    by (metis list_all2_conv_all_nth in_set_conv_nth)
  with assms(1) have "1 \<le> b_MaxInflight (r_Backend r)" by (simp add: describes_def valid_config_def valid_backend_def)
  ultimately show ?thesis using look r by blast
qed

text \<open>
  A run of the process up to a request that waits for its backend: the loop of the backend finds
  it healthy, the listener opens, and a request for the alias gets its reservation.
\<close>

lemma attempting_run:
  assumes "valid_config cfg" and "Build (cfg_Backends cfg) secrets = Inr bs" and "NewState cfg bs m = Inr s"
    and "invState s" and "\<forall>b. load s b = 0"
  shows "\<exists>l n r. life_run (startLife cfg bs s) l \<and> li_Main l = Selecting \<and>
    po_Requests (li_Pool l) = [at n (Attempting r {r}) []]"
proof -
  from started_route [OF assms(1-3)] obtain n al r i where
    r: "st_aliases s n = Some al" "r \<in> set (as_routes al)" "1 \<le> b_MaxInflight (r_Backend r)" "i < length bs" "bs ! i = r_Backend r" by blast
  obtain s1 calls where sh: "SetHealth_locked s (routeBackend r) True = (s1, calls)" by fastforce
  from healthy_reserves [OF assms(4,5) r(1-3) sh] obtain r' s2 where res: "Reserve s1 n {} = Some (Inr r', s2)" by blast
  define l0 where "l0 = startLife cfg bs s"
  let ?h = "startLoop (r_Backend r)"
  define l1 where "l1 = l0\<lparr>li_Loops := (li_Loops l0)[i := ?h\<lparr>hl_Ctl := Publishing, hl_Previous := Some True\<rparr>],
      li_Pool := (li_Pool l0)\<lparr>po_State := s1, po_Probes := (po_Probes (li_Pool l0))[i := calls]\<rparr>,
      li_Log := li_Log l0 @ loopLog ?h True\<rparr>"
  define l2 where "l2 = l1\<lparr>li_Server := SrvListening, li_Opened := True\<rparr>"
  define l3 where "l3 = l2\<lparr>li_Pool := (li_Pool l2)\<lparr>po_Requests := po_Requests (li_Pool l2) @ [at n Start []]\<rparr>\<rparr>"
  define l4 where "l4 = l3\<lparr>li_Pool := (li_Pool l3)\<lparr>po_State := s2, po_Requests := (po_Requests (li_Pool l3))[0 := at n (Attempting r' {r'}) []]\<rparr>\<rparr>"
  have loops: "li_Loops l0 = map startLoop bs" by (simp add: l0_def startLife_def NewChecker_def NewCheckerWithInterval_def)
  have f: "li_Main l0 = Selecting" "li_Server l0 = SrvStarting" "\<not> li_Shutdown l0" "\<not> li_Drained l0"
      "po_Requests (li_Pool l0) = []" "po_State (li_Pool l0) = s"
    by (simp_all add: l0_def startLife_def initialPool_def)
  have at_i: "?h = li_Loops l0 ! i" "i < length (li_Loops l0)" using r(4,5) by (simp_all add: loops)
  have up: "True = probe (\<lambda>_. Status 200) (hl_Backend ?h)" by (simp add: probe_def)
  have "SetHealth_locked (po_State (li_Pool l0)) (b_Name (hl_Backend ?h)) True = (s1, calls)" using sh f(6) by (simp add: startLoop_def)
  from loop_reports [OF at_i(2,1) _ up this] have "loop_step l0 l1" by (simp add: startLoop_def l1_def)
  then have r1: "life_run l0 l1" using f(1) by (intro life_then [OF rtranclp.rtrancl_refl]) (simp_all add: running_def)
  have "server_step l1 l2" unfolding l2_def using f by (intro listens) (simp_all add: l1_def)
  then have r2: "life_run l0 l2" using f(1) by (intro life_then [OF r1]) (simp_all add: running_def l1_def)
  have "outer_step l2 l3" unfolding l3_def using f by (intro arrives) (simp_all add: l2_def l1_def)
  then have r3: "life_run l0 l3" using f(1) by (intro life_then [OF r2]) (simp_all add: running_def l2_def l1_def)
  have "req_step (at n Start []) s1 (at n (Attempting r' {r'}) []) s2"
    using req_step.starts [OF res] by (simp add: afterStart_def)
  then have "outer_step l3 l4" unfolding l4_def using f by (intro proceeds) (simp_all add: l3_def l2_def l1_def)
  then have "life_run l0 l4" using f(1) by (intro life_then [OF r3]) (simp_all add: running_def l3_def l2_def l1_def)
  moreover have "li_Main l4 = Selecting" "po_Requests (li_Pool l4) = [at n (Attempting r' {r'}) []]"
    using f by (simp_all add: l4_def l3_def l2_def l1_def)
  ultimately show ?thesis unfolding l0_def by blast
qed

text \<open>
  C40: a request can outlive \<open>serve\<close>. From every configuration that starts, the process can return
  with the code of success while a request still waits for its backend and holds a slot: when
  the graceful shutdown runs into its timeout, only the health loops are waited for.
\<close>

theorem request_can_outlive_serve:
  assumes "serveStart pr path = Inr l0"
  shows "\<exists>l n r. life_run l0 l \<and> li_Main l = Exited ExitSuccess \<and>
    at n (Attempting r {r}) [] \<in> set (po_Requests (li_Pool l)) \<and> 1 \<le> load (po_State (li_Pool l)) (routeBackend r)"
proof -
  from serveStart_Inr [OF assms] obtain cfg bs s where cfg: "Load (pr_Files pr) (pr_Yaml pr) path = Inr cfg"
    and s: "Build (cfg_Backends cfg) (pr_Env pr) = Inr bs" "NewState cfg bs (Some []) = Inr s" "invState s" "\<forall>b. load s b = 0"
    and l0: "l0 = startLife cfg bs s" by blast
  have "valid_config cfg" using cfg by (auto simp: Load_Inr)
  from attempting_run [OF this s] obtain l n r where
    l: "life_run l0 l" "li_Main l = Selecting" "po_Requests (li_Pool l) = [at n (Attempting r {r}) []]" unfolding l0 by blast
  let ?ts = "[at n (Attempting r {r}) []]"
  from signal_run [OF l(1,2)] have run: "life_run l0 (timedOut l)" .
  have "decided ExitSuccess (li_Output l) ?ts (timedOut l)" using l(3) by (simp add: decided_def timedOut_def)
  moreover have "life_ok (timedOut l)" using run unfolding l0 by (rule life_run_reachable(1))
  ultimately obtain l' where l': "life_run (timedOut l) l'" "li_Main l' = Exited ExitSuccess" "po_Requests (li_Pool l') = ?ts"
    using decided_exits by (metis decided_def)
  have all: "life_run l0 l'" by (rule rtranclp_trans [OF run l'(1)])
  have "ledger (po_State (li_Pool l')) (heldBy (po_Requests (li_Pool l')))"
    using all s(3,4) unfolding l0 by (intro reachable_ledger [OF life_run_reachable(2)])
  then have "load (po_State (li_Pool l')) (routeBackend r) = 1"
    using l'(3) by (simp add: ledger_def balanced_def heldBy_def)
  with all l'(2,3) show ?thesis by (intro exI [of _ l'] exI [of _ n] exI [of _ r]) simp
qed


subsection \<open>A concrete process\<close>

lemma serveStart_valid:
  assumes "Load (pr_Files pr) (pr_Yaml pr) path = Inr cfg" and "variablesSet pr cfg"
  shows "\<exists>bs s. serveStart pr path = Inr (startLife cfg bs s) \<and> valid_config cfg \<and> Build (cfg_Backends cfg) (pr_Env pr) = Inr bs \<and>
    NewState cfg bs (Some []) = Inr s \<and> invState s \<and> (\<forall>b. load s b = 0)"
proof -
  from assms(2) obtain t where "inboundToken pr cfg = Some t" using inboundToken_Some [of pr cfg] by (metis variablesSet_def)
  moreover have "valid_config cfg" using assms(1) by (auto simp: Load_Inr)
  ultimately show ?thesis using runServe_valid [OF assms] assms(1) by (auto simp: serveStart_def)
qed

lemma exLife:
  obtains l0 l n r l' where "serveStart exProcess ''router.yaml'' = Inr l0" "life_run l0 l" "stopping (timedOut l)"
    "life_run l0 (timedOut l)" "po_Requests (li_Pool l) = [at n (Attempting r {r}) []]"
    "life_run l0 l'" "li_Main l' = Exited ExitSuccess"
proof -
  from serveStart_valid [OF exProcess_load] obtain bs s where
    s: "serveStart exProcess ''router.yaml'' = Inr (startLife exCfg bs s)" "valid_config exCfg"
      "Build (cfg_Backends exCfg) (pr_Env exProcess) = Inr bs" "NewState exCfg bs (Some []) = Inr s" "invState s" "\<forall>b. load s b = 0" by blast
  from attempting_run [OF s(2-6)] obtain l n r where l: "life_run (startLife exCfg bs s) l" "li_Main l = Selecting"
    "po_Requests (li_Pool l) = [at n (Attempting r {r}) []]" by blast
  note t = signal_run [OF l(1,2)]
  have "decided ExitSuccess (li_Output l) (po_Requests (li_Pool l)) (timedOut l)" by (simp add: decided_def timedOut_def)
  from decided_exits [OF life_run_reachable(1) [OF t] this] obtain l' where
    l': "life_run (timedOut l) l'" "li_Main l' = Exited ExitSuccess" by blast
  have "stopping (timedOut l)" by (simp add: stopping_def timedOut_def)
  from that [OF s(1) l(1) this t l(3) rtranclp_trans [OF t l'(1)] l'(2)] show thesis .
qed

theorem serve_keeps_capacity_witness:
  "\<exists>l0 l b. serveStart exProcess ''router.yaml'' = Inr l0 \<and> life_run l0 l \<and> load (po_State (li_Pool l)) b = 1 \<and>
     1 \<le> limit (po_State (li_Pool l)) b"
proof -
  obtain l0 l n r where l: "serveStart exProcess ''router.yaml'' = Inr l0" "life_run l0 l"
    "po_Requests (li_Pool l) = [at n (Attempting r {r}) []]" by (rule exLife)
  from serve_keeps_capacity [OF l(1,2), of "routeBackend r"] l(3)
  have "load (po_State (li_Pool l)) (routeBackend r) = 1" "1 \<le> limit (po_State (li_Pool l)) (routeBackend r)"
    by (auto simp: heldBy_def max_def split: if_splits)
  with l(1,2) show ?thesis by blast
qed

theorem serve_exit_witness:
  "\<exists>l0 l. serveStart exProcess ''router.yaml'' = Inr l0 \<and> life_run l0 l \<and> li_Main l = Exited ExitSuccess \<and>
     LogSignal \<in> set (li_Log l)"
proof -
  obtain l0 l where l: "serveStart exProcess ''router.yaml'' = Inr l0" "life_run l0 l" "li_Main l = Exited ExitSuccess"
    by (rule exLife)
  with serve_exit [OF l] show ?thesis by (auto simp: ExitSuccess_def ExitError_def)
qed

theorem serve_comes_to_an_end_witness:
  "\<exists>l0 l n l'. serveStart exProcess ''router.yaml'' = Inr l0 \<and> life_run l0 l \<and> (quiet_step ^^ n) l l' \<and> exited l'"
proof -
  obtain l0 l where l: "serveStart exProcess ''router.yaml'' = Inr l0" "life_run l0 (timedOut l)" "stopping (timedOut l)"
    by (rule exLife)
  with serve_comes_to_an_end [OF l] show ?thesis by blast
qed

theorem request_can_outlive_serve_witness:
  "\<exists>l0 l b. serveStart exProcess ''router.yaml'' = Inr l0 \<and> life_run l0 l \<and> li_Main l = Exited ExitSuccess \<and>
     1 \<le> load (po_State (li_Pool l)) b"
proof -
  obtain l0 where l0: "serveStart exProcess ''router.yaml'' = Inr l0" by (rule exLife)
  from request_can_outlive_serve [OF this] l0 show ?thesis by blast
qed

end
