(* ===== verification/JsonDecode.thy ===== *)
theory JsonDecode
  imports Json
begin

text \<open>
  The decoding half of \<open>encoding/json\<close>: \<open>json.Unmarshal\<close> into a string and into a map of raw
  values, which is how a chat request is taken apart. The input is checked as a whole first
  (\<open>checkValid\<close>); the functions below then read values off the front of the remaining bytes.
\<close>

subsection \<open>Runes\<close>

text \<open>\<open>utf8.EncodeRune\<close> for code points below 0x110000 that are not surrogates.\<close>

definition encodeRune :: "nat \<Rightarrow> string" where
  "encodeRune r =
     (if r < 128 then [char_of r]
      else if r < 2048 then [char_of (192 + r div 64), char_of (128 + r mod 64)]
      else if r < 65536 then [char_of (224 + r div 4096), char_of (128 + r div 64 mod 64), char_of (128 + r mod 64)]
      else [char_of (240 + r div 262144), char_of (128 + r div 4096 mod 64), char_of (128 + r div 64 mod 64),
            char_of (128 + r mod 64)])"

definition replacementChar :: nat where "replacementChar = 65533"

definition jsonHex :: "char \<Rightarrow> nat option" where
  "jsonHex c =
     (if isDigit c then Some (byte c - 48)
      else if 97 \<le> byte c \<and> byte c \<le> 102 then Some (byte c - 87)
      else if 65 \<le> byte c \<and> byte c \<le> 70 then Some (byte c - 55)
      else None)"

text \<open>\<open>getu4\<close>: the value of an escape \<open>\uXXXX\<close> at the start of a string.\<close>

fun getu4 :: "string \<Rightarrow> nat option" where
  "getu4 (b # u # h1 # h2 # h3 # h4 # rest) =
     (if byte b = 92 \<and> u = CHR ''u'' then
        (case (jsonHex h1, jsonHex h2, jsonHex h3, jsonHex h4) of
           (Some a, Some b, Some c, Some d) \<Rightarrow> Some (a * 4096 + b * 256 + c * 16 + d)
         | _ \<Rightarrow> None)
      else None)"
| "getu4 _ = None"

definition isSurrogate :: "nat \<Rightarrow> bool" where
  "isSurrogate r \<longleftrightarrow> 55296 \<le> r \<and> r < 57344"

definition surrogatePair :: "nat \<Rightarrow> nat option \<Rightarrow> nat option" where
  "surrogatePair r1 r2 =
     (case r2 of
        None \<Rightarrow> None
      | Some r2 \<Rightarrow>
          if r1 < 56320 \<and> 56320 \<le> r2 \<and> r2 < 57344 then Some ((r1 - 55296) * 1024 + (r2 - 56320) + 65536) else None)"


subsection \<open>Strings\<close>

definition simpleEscape :: "char \<Rightarrow> char option" where
  "simpleEscape c =
     (if byte c \<in> {34, 92, 47, 39} then Some c
      else if c = CHR ''b'' then Some (char_of (8 :: nat))
      else if c = CHR ''f'' then Some (char_of (12 :: nat))
      else if c = CHR ''n'' then Some (char_of (10 :: nat))
      else if c = CHR ''r'' then Some (char_of (13 :: nat))
      else if c = CHR ''t'' then Some (char_of (9 :: nat))
      else None)"

text \<open>\<open>unquoteBytes\<close>, between the quotes. Invalid UTF-8 and lone surrogates become U+FFFD.\<close>

function unquoteRest :: "string \<Rightarrow> string option" where
  "unquoteRest [] = Some []"
| "unquoteRest (c # cs) =
     (if byte c = 92 then
        (case cs of
           [] \<Rightarrow> None
         | e # es \<Rightarrow>
            if e = CHR ''u'' then
              (case getu4 (c # cs) of
                 None \<Rightarrow> None
               | Some r \<Rightarrow>
                  (let rest = drop 6 (c # cs)
                   in if isSurrogate r then
                        (case surrogatePair r (getu4 rest) of
                           Some p \<Rightarrow> map_option (\<lambda>out. encodeRune p @ out) (unquoteRest (drop 6 rest))
                         | None \<Rightarrow> map_option (\<lambda>out. encodeRune replacementChar @ out) (unquoteRest rest))
                      else map_option (\<lambda>out. encodeRune r @ out) (unquoteRest rest)))
            else (case simpleEscape e of
                None \<Rightarrow> None
              | Some d \<Rightarrow> map_option (\<lambda>out. d # out) (unquoteRest es)))
      else if byte c = 34 \<or> byte c < 32 then None
      else if byte c < 128 then map_option (\<lambda>out. c # out) (unquoteRest cs)
      else if runeLen (c # cs) = 0
      then map_option (\<lambda>out. encodeRune replacementChar @ out) (unquoteRest cs)
      else map_option (\<lambda>out. take (runeLen (c # cs)) (c # cs) @ out) (unquoteRest (drop (runeLen (c # cs)) (c # cs))))"
  by pat_completeness auto
termination
  by (relation "measure length") (auto simp: drop_Cons' simp del: runeLen.simps)

definition unquote :: "string \<Rightarrow> string option" where
  "unquote item =
     (if length item < 2 \<or> byte (hd item) \<noteq> 34 \<or> byte (last item) \<noteq> 34 then None
      else unquoteRest (butlast (tl item)))"


subsection \<open>Values at the front of the input\<close>

text \<open>\<open>rescanLiteral\<close> on a string: everything up to and including the closing quote.\<close>

fun rescanString :: "string \<Rightarrow> string \<times> string" where
  "rescanString [] = ([], [])"
| "rescanString (c # cs) =
     (if byte c = 34 then ([c], cs)
      else if byte c = 92 then
        (case cs of
           [] \<Rightarrow> ([c], [])
         | d # ds \<Rightarrow> (let (item, rest) = rescanString ds in (c # d # item, rest)))
      else (let (item, rest) = rescanString cs in (c # item, rest)))"

definition isNumByte :: "char \<Rightarrow> bool" where
  "isNumByte c \<longleftrightarrow> isDigit c \<or> c \<in> set ''.eE+-''"

text \<open>\<open>skip\<close>: the bytes of an object or an array, by the scanner's stack of open brackets.\<close>

fun skipComposite :: "scanner \<Rightarrow> string \<Rightarrow> (string \<times> string) option" where
  "skipComposite s [] = None"
| "skipComposite s (c # cs) =
     (case scan_step s c of
        None \<Rightarrow> None
      | Some (s', _) \<Rightarrow>
          if sc_parseState s' = [] then Some ([c], cs)
          else map_option (\<lambda>(item, rest). (c # item, rest)) (skipComposite s' cs))"

definition takeValue :: "string \<Rightarrow> (string \<times> string) option" where
  "takeValue data =
     (case data of
        [] \<Rightarrow> None
      | c # cs \<Rightarrow>
         if c = CHR ''{'' \<or> c = CHR ''['' then skipComposite newScanner data
         else if byte c = 34 then (let (item, rest) = rescanString cs in Some (c # item, rest))
         else if isDigit c \<or> c = CHR ''-'' then Some (c # takeWhile isNumByte cs, dropWhile isNumByte cs)
         else if c = CHR ''t'' \<or> c = CHR ''n'' then Some (take 4 data, drop 4 data)
         else if c = CHR ''f'' then Some (take 5 data, drop 5 data)
         else None)"

definition skipSpace :: "string \<Rightarrow> string" where
  "skipSpace = dropWhile isSpace"


subsection \<open>Unmarshal\<close>

lemma rescanString_length: "length (snd (rescanString s)) \<le> length s"
proof (induction s rule: rescanString.induct)
  case (2 c cs)
  show ?case
  proof (cases "byte c = 34 \<or> byte c \<noteq> 92")
    case True
    with 2 show ?thesis by (auto simp: case_prod_beta)
  next
    case False
    with "2.IH"(1) show ?thesis by (cases cs) (auto simp: case_prod_beta simp del: rescanString.simps(2) simp: rescanString.simps(2) [of c])
  qed
qed simp

lemma skipComposite_length: "skipComposite s data = Some (item, rest) \<Longrightarrow> length rest < length data"
proof (induction s data arbitrary: item rule: skipComposite.induct)
  case (2 s c cs)
  show ?case
  proof (cases "scan_step s c")
    case None
    with 2 show ?thesis by simp
  next
    case (Some st)
    with 2 show ?thesis by (cases st) (auto split: if_splits intro: less_SucI)
  qed
qed simp

lemma takeValue_length: "takeValue data = Some (item, rest) \<Longrightarrow> length rest < length data"
proof (cases data)
  case (Cons c cs)
  assume "takeValue data = Some (item, rest)"
  with Cons show ?thesis
    using rescanString_length [of cs] length_dropWhile_le [of isNumByte cs]
    by (auto simp: takeValue_def simp del: skipComposite.simps dest: skipComposite_length split: if_splits prod.splits)
qed (simp add: takeValue_def)

lemma skipSpace_length: "length (skipSpace data) \<le> length data"
  by (simp add: skipSpace_def length_dropWhile_le)

text \<open>
  The members of an object, read from the first key on. A repeated key keeps its last value.
  The result is \<open>None\<close> where the source would panic, which it never does on checked input.
\<close>

function decodeMembers :: "string \<Rightarrow> RawObject \<Rightarrow> RawObject option" where
  "decodeMembers data m =
     (case takeValue (skipSpace data) of
        None \<Rightarrow> None
      | Some (item, rest) \<Rightarrow>
         (case unquote item of
            None \<Rightarrow> None
          | Some key \<Rightarrow>
             (case skipSpace rest of
                [] \<Rightarrow> None
              | c # afterColon \<Rightarrow>
                 if c \<noteq> CHR '':'' then None
                 else (case takeValue (skipSpace afterColon) of
                     None \<Rightarrow> None
                   | Some (raw, rest') \<Rightarrow>
                      (case skipSpace rest' of
                         [] \<Rightarrow> None
                       | d # members \<Rightarrow>
                          if d = CHR '','' then decodeMembers members (AList.update key raw m)
                          else if d = CHR ''}'' then Some (AList.update key raw m)
                          else None)))))"
  by pat_completeness auto
termination
proof (relation "measure (\<lambda>(data, m). length data)", goal_cases)
  case (2 data m x item rest key c afterColon y raw rest' d members)
  then have t: "takeValue (skipSpace data) = Some (item, rest)" "skipSpace rest = c # afterColon"
      "takeValue (skipSpace afterColon) = Some (raw, rest')" "skipSpace rest' = d # members" by auto
  from takeValue_length [OF t(1)] takeValue_length [OF t(3)] skipSpace_length [of data] skipSpace_length [of rest]
    skipSpace_length [of afterColon] skipSpace_length [of rest'] show ?case by (simp add: t)
qed simp

declare decodeMembers.simps [simp del] runeLen.simps [simp del] unquoteRest.simps [simp del]

text \<open>
  \<open>json.Unmarshal\<close> into a map of raw values: an error (\<open>None\<close>), the nil map for \<open>null\<close>
  (\<open>Some None\<close>), or the members.
\<close>

definition UnmarshalObject :: "string \<Rightarrow> RawObject option option" where
  "UnmarshalObject data =
     (if \<not> checkValid data then None
      else (case skipSpace data of
          [] \<Rightarrow> None
        | c # cs \<Rightarrow>
           if c = CHR ''{'' then
             (case skipSpace cs of
                [] \<Rightarrow> None
              | d # _ \<Rightarrow> if d = CHR ''}'' then Some (Some []) else map_option Some (decodeMembers cs []))
           else if c = CHR ''n'' then Some None
           else None))"

text \<open>\<open>json.Unmarshal\<close> into a string: \<open>null\<close> leaves the empty string.\<close>

definition UnmarshalString :: "string \<Rightarrow> string option" where
  "UnmarshalString data =
     (if \<not> checkValid data then None
      else (case takeValue (skipSpace data) of
          None \<Rightarrow> None
        | Some (item, _) \<Rightarrow>
            if hd item = CHR ''n'' then Some '''' else if byte (hd item) = 34 then unquote item else None))"

end
