(* ===== verification/HttpApi.thy ===== *)
theory HttpApi
  imports Serving JsonDecode
begin

text \<open>
  \<^verbatim>\<open>internal/httpapi\<close>: the endpoints of the router, from the request to the response.

  A handler takes the request and the \<open>world\<close> of the proxy (routing state with its metrics,
  response writer, trace of upstream requests and log messages) and returns the status it
  reports, \<open>None\<close> when it panics. The state, the proxy and the server share one metrics object
  (\<open>cli.runServe\<close>), so \<open>s.metrics\<close> is \<open>st_metrics\<close>.
\<close>

subsection \<open>Requests and the environment\<close>

text \<open>
  \<open>rq_Path\<close> is the escaped path of the request URL; \<open>rq_Body\<close> holds the bytes the client sends
  and the error that ends them, if any.
\<close>

record Request =
  rq_Method :: string
  rq_Path :: string
  rq_Header :: Header
  rq_Body :: "string \<times> string option"

text \<open>
  What the handlers see of the outside: the environment of the proxy, the time a request took,
  the exposition handler of the Prometheus library, and the redirect \<open>net/http\<close> answers to a
  path that is not clean.
\<close>

record apiEnv =
  api_Proxy :: env
  api_Elapsed :: int
  api_Metrics :: "Metrics option \<Rightarrow> Request \<Rightarrow> ResponseWriter \<Rightarrow> ResponseWriter"
  api_Redirect :: "Request \<Rightarrow> ResponseWriter \<Rightarrow> ResponseWriter"

type_synonym handled = "int panics \<times> world"

definition onWriter :: "(ResponseWriter \<Rightarrow> ResponseWriter) \<Rightarrow> world \<Rightarrow> world" where
  "onWriter f w = w\<lparr>w_Writer := f (w_Writer w)\<rparr>"

definition setHeader :: "string \<Rightarrow> string \<Rightarrow> world \<Rightarrow> world" where
  "setHeader k v = onWriter (\<lambda>rw. rw\<lparr>rw_Header := Header_Set (rw_Header rw) k v\<rparr>)"

text \<open>\<open>WriteHeader\<close> followed by one write whose result is ignored, as every handler ends.\<close>

definition respond :: "apiEnv \<Rightarrow> int \<Rightarrow> string \<Rightarrow> world \<Rightarrow> handled" where
  "respond e status body w =
     (case WriteHeader (w_Writer w) status of
        None \<Rightarrow> (None, w)
      | Some rw \<Rightarrow> (Some status, w\<lparr>w_Writer := fst (ResponseWrite (env_Write (api_Proxy e)) rw body)\<rparr>))"


subsection \<open>JSON values the handlers encode\<close>

datatype json = JString string | JInt int | JBool bool | JArray "json list" | JObject "(string \<times> json) list"

fun encodeJson :: "json \<Rightarrow> string" where
  "encodeJson (JString s) = MarshalString s"
| "encodeJson (JInt n) = Itoa n"
| "encodeJson (JBool b) = (if b then ''true'' else ''false'')"
| "encodeJson (JArray js) = ''['' @ joinWith (CHR '','') (map encodeJson js) @ '']''"
| "encodeJson (JObject fs) =
     ''{'' @ joinWith (CHR '','') (map (\<lambda>(k, j). MarshalString k @ '':'' @ encodeJson j) fs) @ ''}''"

definition newline :: "nat \<Rightarrow> string" where
  "newline depth = CHR 0x0A # replicate (2 * depth) (CHR '' '')"

text \<open>The encoding with \<open>SetIndent("", "  ")\<close>.\<close>

fun indentJson :: "nat \<Rightarrow> json \<Rightarrow> string" where
  "indentJson d (JArray (j # js)) =
     ''['' @ joinWith (CHR '','') (map (\<lambda>j. newline (Suc d) @ indentJson (Suc d) j) (j # js)) @ newline d @ '']''"
| "indentJson d (JObject (f # fs)) =
     ''{'' @ joinWith (CHR '','') (map (\<lambda>(k, j). newline (Suc d) @ MarshalString k @ '': '' @ indentJson (Suc d) j) (f # fs))
     @ newline d @ ''}''"
| "indentJson d j = encodeJson j"

text \<open>\<open>Encode\<close> ends a value with a newline.\<close>

definition Encode :: "json \<Rightarrow> string" where
  "Encode j = encodeJson j @ [CHR 0x0A]"

definition EncodeIndent :: "json \<Rightarrow> string" where
  "EncodeIndent j = indentJson 0 j @ [CHR 0x0A]"


subsection \<open>Errors\<close>

definition errorBody :: "APIError \<Rightarrow> json" where
  "errorBody apiErr = JObject [(''error'', JObject
     [(''message'', JString (ae_Message apiErr)), (''type'', JString (ae_Type apiErr)), (''code'', JString (ae_Code apiErr))])]"

definition writeError :: "apiEnv \<Rightarrow> APIError \<Rightarrow> world \<Rightarrow> handled" where
  "writeError e apiErr w =
     respond e (ae_Status apiErr) (Encode (errorBody apiErr)) (setHeader ''Content-Type'' ''application/json'' w)"

definition invalidRequest :: "string \<Rightarrow> string \<Rightarrow> int \<Rightarrow> APIError" where
  "invalidRequest message code status =
     \<lparr>ae_Status = status, ae_Message = message, ae_Type = ''invalid_request_error'', ae_Code = code\<rparr>"


subsection \<open>Authentication\<close>

record authenticator =
  au_token :: string

definition enabled :: "authenticator \<Rightarrow> bool" where
  "enabled a \<longleftrightarrow> au_token a \<noteq> ''''"

definition authorized :: "authenticator \<Rightarrow> Request \<Rightarrow> bool" where
  "authorized a r =
     (if \<not> enabled a then True
      else
       (let header = Header_Get (rq_Header r) ''Authorization''; prefix = ''Bearer ''
        in if length header \<le> length prefix \<or> \<not> EqualFoldASCII (take (length prefix) header) prefix then False
           else drop (length prefix) header = au_token a))"

definition writeUnauthorized :: "apiEnv \<Rightarrow> world \<Rightarrow> handled" where
  "writeUnauthorized e w =
     writeError e (invalidRequest ''unauthorized'' ''unauthorized'' StatusUnauthorized)
       (setHeader ''WWW-Authenticate'' ''Bearer'' w)"


subsection \<open>Chat completions\<close>

definition MaxChatRequestBytes :: nat where "MaxChatRequestBytes = 4194304"

definition methodNotAllowed :: APIError where
  "methodNotAllowed = invalidRequest ''method not allowed'' ''method_not_allowed'' StatusMethodNotAllowed"

definition checkChatHeaders :: "Request \<Rightarrow> APIError option" where
  "checkChatHeaders r =
     (if TrimSpace (Header_Get (rq_Header r) ''Content-Encoding'') \<noteq> ''''
      then Some (invalidRequest ''content encoding is not supported'' ''unsupported_media_type'' StatusUnsupportedMediaType)
      else
       (let unsupported = invalidRequest ''content type must be application/json'' ''unsupported_media_type''
              StatusUnsupportedMediaType
        in case ParseMediaType (Header_Get (rq_Header r) ''Content-Type'') of
             None \<Rightarrow> Some unsupported
           | Some mediaType \<Rightarrow> if \<not> EqualFoldASCII mediaType ''application/json'' then Some unsupported else None))"

text \<open>
  \<open>io.ReadAll\<close> on a \<open>MaxBytesReader\<close>: more bytes than the limit are an error whatever follows
  them, and the server is told to close the connection after the reply.
\<close>

datatype readError = TooLarge | ReadFailed string

definition readAllLimited :: "nat \<Rightarrow> string \<times> string option \<Rightarrow> readError + string" where
  "readAllLimited maxBytes body =
     (if length (fst body) > maxBytes then Inl TooLarge
      else (case snd body of Some err \<Rightarrow> Inl (ReadFailed err) | None \<Rightarrow> Inr (fst body)))"

definition decodeChatBody :: "Request \<Rightarrow> world \<Rightarrow> (APIError + RawObject) \<times> world" where
  "decodeChatBody r w =
     (case readAllLimited MaxChatRequestBytes (rq_Body r) of
        Inl TooLarge \<Rightarrow>
          (Inl (invalidRequest ''request body is too large'' ''request_too_large'' StatusRequestEntityTooLarge),
           setHeader ''Connection'' ''close'' w)
      | Inl (ReadFailed _) \<Rightarrow>
          (Inl (invalidRequest ''request body could not be read'' ''invalid_body'' StatusBadRequest), w)
      | Inr body \<Rightarrow>
         (let invalid = invalidRequest ''request body must be a JSON object'' ''invalid_body'' StatusBadRequest
          in case UnmarshalObject body of
               None \<Rightarrow> (Inl invalid, w)
             | Some None \<Rightarrow> (Inl invalid, w)
             | Some (Some payload) \<Rightarrow>
                 if map_of payload ''model'' = None
                 then (Inl (invalidRequest ''model is required'' ''invalid_model'' StatusBadRequest), w)
                 else (Inr payload, w)))"

definition handleChat :: "apiEnv \<Rightarrow> Request \<Rightarrow> world \<Rightarrow> handled" where
  "handleChat e r w =
     (if rq_Method r \<noteq> ''POST'' then writeError e methodNotAllowed (setHeader ''Allow'' ''POST'' w)
      else case checkChatHeaders r of
        Some apiErr \<Rightarrow> writeError e apiErr w
      | None \<Rightarrow>
         (case decodeChatBody r w of
            (Inl apiErr, w1) \<Rightarrow> writeError e apiErr w1
          | (Inr payload, w1) \<Rightarrow>
             (let noModel = invalidRequest ''model must be a non-empty string'' ''invalid_model'' StatusBadRequest
              in case UnmarshalString (the (map_of payload ''model'')) of
                   None \<Rightarrow> writeError e noModel w1
                 | Some alias \<Rightarrow>
                     if TrimSpace alias = '''' then writeError e noModel w1
                     else (case Serve (api_Proxy e) (rq_Header r) alias payload w1 of
                         (Panicked, w2) \<Rightarrow> (None, w2)
                       | (Returned status (Some apiErr), w2) \<Rightarrow> writeError e apiErr w2
                       | (Returned status None, w2) \<Rightarrow> (Some status, w2)))))"


subsection \<open>Models, health, readiness and status\<close>

definition modelEntry :: "string \<Rightarrow> json" where
  "modelEntry name = JObject [(''id'', JString name), (''object'', JString ''model''), (''created'', JInt 0),
     (''owned_by'', JString ''local-inference-router'')]"

definition modelList :: "string list \<Rightarrow> json" where
  "modelList names = JObject [(''object'', JString ''list''), (''data'', JArray (map modelEntry names))]"

definition handleModels :: "apiEnv \<Rightarrow> Request \<Rightarrow> world \<Rightarrow> handled" where
  "handleModels e r w =
     (if rq_Method r \<noteq> ''GET'' then writeError e methodNotAllowed (setHeader ''Allow'' ''GET'' w)
      else respond e StatusOK (Encode (modelList (AliasNames (w_State w)))) (setHeader ''Content-Type'' ''application/json'' w))"

definition handleHealthz :: "apiEnv \<Rightarrow> Request \<Rightarrow> world \<Rightarrow> handled" where
  "handleHealthz e r w =
     (if rq_Method r \<noteq> ''GET'' then writeError e methodNotAllowed (setHeader ''Allow'' ''GET'' w)
      else respond e StatusOK (''ok'' @ [CHR 0x0A]) (setHeader ''Content-Type'' ''text/plain; charset=utf-8'' w))"

definition handleReadyz :: "apiEnv \<Rightarrow> Request \<Rightarrow> world \<Rightarrow> handled" where
  "handleReadyz e r w =
     (if rq_Method r \<noteq> ''GET'' then writeError e methodNotAllowed (setHeader ''Allow'' ''GET'' w)
      else
       (let w1 = setHeader ''Content-Type'' ''text/plain; charset=utf-8'' w
        in case Ready (w_State w1) of
             None \<Rightarrow> (None, w1)
           | Some ok \<Rightarrow>
               if \<not> ok then respond e StatusServiceUnavailable (''not ready'' @ [CHR 0x0A]) w1
               else respond e StatusOK (''ready'' @ [CHR 0x0A]) w1))"

definition backendStatusJson :: "BackendStatus \<Rightarrow> json" where
  "backendStatusJson b = JObject [(''name'', JString (bst_Name b)), (''kind'', JString (bst_Kind b)),
     (''checked'', JBool (bst_Checked b)), (''healthy'', JBool (bst_Healthy b)), (''inflight'', JInt (bst_Inflight b)),
     (''max_inflight'', JInt (bst_MaxInflight b))]"

definition aliasStatusJson :: "AliasStatus \<Rightarrow> json" where
  "aliasStatusJson a = JObject [(''name'', JString (ast_Name a)), (''ready'', JBool (ast_Ready a)),
     (''route_count'', JInt (int (ast_RouteCount a)))]"

definition statusJson :: "Status \<Rightarrow> json" where
  "statusJson st = JObject [(''backends'', JArray (map backendStatusJson (status_Backends st))),
     (''aliases'', JArray (map aliasStatusJson (status_Aliases st)))]"

text \<open>The status is committed before the snapshot is taken.\<close>

definition handleRouterStatus :: "apiEnv \<Rightarrow> Request \<Rightarrow> world \<Rightarrow> handled" where
  "handleRouterStatus e r w =
     (if rq_Method r \<noteq> ''GET'' then writeError e methodNotAllowed (setHeader ''Allow'' ''GET'' w)
      else
       (let w1 = setHeader ''Content-Type'' ''application/json'' w
        in case WriteHeader (w_Writer w1) StatusOK of
             None \<Rightarrow> (None, w1)
           | Some rw \<Rightarrow>
              (case Snapshot (w_State w1) of
                 None \<Rightarrow> (None, w1\<lparr>w_Writer := rw\<rparr>)
               | Some st \<Rightarrow>
                   (Some StatusOK,
                    w1\<lparr>w_Writer := fst (ResponseWrite (env_Write (api_Proxy e)) rw (EncodeIndent (statusJson st)))\<rparr>))))"


subsection \<open>The server\<close>

record Server =
  srv_auth :: authenticator

definition NewServer :: "string \<Rightarrow> Server" where
  "NewServer inboundToken = \<lparr>srv_auth = \<lparr>au_token = inboundToken\<rparr>\<rparr>"

text \<open>
  A served request: whether the handler returned normally, and the world it left. \<open>ObserveHTTP\<close>
  is called without a check for a nil metrics object.
\<close>

definition instrumented ::
  "apiEnv \<Rightarrow> Server \<Rightarrow> string \<Rightarrow> bool \<Rightarrow> (apiEnv \<Rightarrow> Request \<Rightarrow> world \<Rightarrow> handled) \<Rightarrow> Request \<Rightarrow> world \<Rightarrow> bool \<times> world" where
  "instrumented e srv route protected handler r w =
     (case (if \<not> protected \<or> authorized (srv_auth srv) r then handler e r w else writeUnauthorized e w) of
        (None, w1) \<Rightarrow> (False, w1)
      | (Some status, w1) \<Rightarrow>
         (let w2 = (if status = StatusClientClosed then record_event (EvLog ''client canceled request'') w1 else w1)
          in case st_metrics (w_State w2) of
               None \<Rightarrow> (False, w2)
             | Some _ \<Rightarrow> (True, onState (emit (ObserveHTTP route status (api_Elapsed e))) w2)))"

definition protectedRaw ::
  "apiEnv \<Rightarrow> Server \<Rightarrow> (Request \<Rightarrow> world \<Rightarrow> world) \<Rightarrow> Request \<Rightarrow> world \<Rightarrow> bool \<times> world" where
  "protectedRaw e srv nxt r w =
     (if \<not> authorized (srv_auth srv) r
      then (case writeUnauthorized e w of (None, w1) \<Rightarrow> (False, w1) | (Some _, w1) \<Rightarrow> (True, w1))
      else (True, nxt r w))"

text \<open>
  The request multiplexer of \<open>net/http\<close>: a path that is not clean is redirected, except for
  \<open>CONNECT\<close>; a clean one is matched segment by segment, after percent-decoding.
\<close>

fun cleanSegments :: "string list \<Rightarrow> string list \<Rightarrow> string list" where
  "cleanSegments acc [] = rev acc"
| "cleanSegments acc (s # ss) =
     (if s = '''' \<or> s = ''.'' then cleanSegments acc ss
      else if s = ''..'' then cleanSegments (tl acc) ss
      else cleanSegments (s # acc) ss)"

definition cleanPath :: "string \<Rightarrow> string" where
  "cleanPath p =
     (if p = '''' then ''/''
      else
       (let rooted = (if hd p \<noteq> CHR ''/'' then CHR ''/'' # p else p);
            np = CHR ''/'' # joinWith (CHR ''/'') (cleanSegments [] (Split (CHR ''/'') rooted))
        in if last rooted = CHR ''/'' \<and> np \<noteq> ''/'' then np @ ''/'' else np))"

definition pathUnescape :: "string \<Rightarrow> string" where
  "pathUnescape seg = (case unescape encodePath seg of None \<Rightarrow> seg | Some s \<Rightarrow> s)"

definition pathSegments :: "string \<Rightarrow> string list" where
  "pathSegments path = map pathUnescape (Split (CHR ''/'') (drop 1 path))"

datatype endpoint = Chat | Models | RouterStatus | Healthz | Readyz | MetricsPage

definition pattern :: "endpoint \<Rightarrow> string" where
  "pattern ep =
     (case ep of Chat \<Rightarrow> ''/v1/chat/completions'' | Models \<Rightarrow> ''/v1/models'' | RouterStatus \<Rightarrow> ''/router/status''
      | Healthz \<Rightarrow> ''/healthz'' | Readyz \<Rightarrow> ''/readyz'' | MetricsPage \<Rightarrow> ''/metrics'')"

definition matchPath :: "string \<Rightarrow> endpoint option" where
  "matchPath path = find (\<lambda>ep. Split (CHR ''/'') (drop 1 (pattern ep)) = pathSegments path)
     [Chat, Models, RouterStatus, Healthz, Readyz, MetricsPage]"

definition notFound :: "apiEnv \<Rightarrow> world \<Rightarrow> bool \<times> world" where
  "notFound e w =
     (case respond e StatusNotFound (''404 page not found'' @ [CHR 0x0A])
         (setHeader ''X-Content-Type-Options'' ''nosniff'' (setHeader ''Content-Type'' ''text/plain; charset=utf-8'' w)) of
        (None, w1) \<Rightarrow> (False, w1) | (Some _, w1) \<Rightarrow> (True, w1))"

definition Handler :: "apiEnv \<Rightarrow> Server \<Rightarrow> Request \<Rightarrow> world \<Rightarrow> bool \<times> world" where
  "Handler e srv r w =
     (if rq_Method r \<noteq> ''CONNECT'' \<and> cleanPath (rq_Path r) \<noteq> rq_Path r then (True, onWriter (api_Redirect e r) w)
      else case matchPath (rq_Path r) of
        None \<Rightarrow> notFound e w
      | Some Chat \<Rightarrow> instrumented e srv RouteChatCompletions True handleChat r w
      | Some Models \<Rightarrow> instrumented e srv RouteModels True handleModels r w
      | Some RouterStatus \<Rightarrow> instrumented e srv RouteRouterStatus True handleRouterStatus r w
      | Some Healthz \<Rightarrow> instrumented e srv RouteHealthz False handleHealthz r w
      | Some Readyz \<Rightarrow> instrumented e srv RouteReadyz False handleReadyz r w
      | Some MetricsPage \<Rightarrow>
          protectedRaw e srv (\<lambda>r w. onWriter (api_Metrics e (st_metrics (w_State w)) r) w) r w)"

text \<open>The settings of the listening server.\<close>

record HTTPServer =
  hs_Addr :: string
  hs_ReadHeaderTimeout :: int
  hs_ReadTimeout :: int
  hs_WriteTimeout :: int
  hs_IdleTimeout :: int
  hs_MaxHeaderBytes :: int

definition ReadHeaderTimeout :: int where "ReadHeaderTimeout = 5 * Second"
definition ReadTimeout :: int where "ReadTimeout = 30 * Second"
definition WriteTimeout :: int where "WriteTimeout = 0"
definition IdleTimeout :: int where "IdleTimeout = 120 * Second"
definition MaxHeaderBytes :: int where "MaxHeaderBytes = 1048576"
definition ShutdownTimeout :: int where "ShutdownTimeout = 30 * Second"

definition NewHTTPServer :: "string \<Rightarrow> HTTPServer" where
  "NewHTTPServer addr = \<lparr>hs_Addr = addr, hs_ReadHeaderTimeout = ReadHeaderTimeout, hs_ReadTimeout = ReadTimeout,
     hs_WriteTimeout = WriteTimeout, hs_IdleTimeout = IdleTimeout, hs_MaxHeaderBytes = MaxHeaderBytes\<rparr>"

end
