(* ===== verification/Endpoints.thy ===== *)
theory Endpoints
  imports HttpApi
begin

text \<open>
  What the endpoints of \<^verbatim>\<open>internal/httpapi\<close> guarantee: who gets in, what a refused request
  learns, which requests reach the proxy, what every request does to the shared state, and
  that what is recorded is what was sent.
\<close>

subsection \<open>Responses\<close>

lemma onWriter_simps [simp]:
  "w_State (onWriter f w) = w_State w" "w_Trace (onWriter f w) = w_Trace w" "w_Writer (onWriter f w) = f (w_Writer w)"
  by (simp_all add: onWriter_def)

lemma setHeader_simps [simp]:
  "w_State (setHeader k v w) = w_State w" "w_Trace (setHeader k v w) = w_Trace w"
  "rw_Status (w_Writer (setHeader k v w)) = rw_Status (w_Writer w)"
  "rw_Header (w_Writer (setHeader k v w)) = Header_Set (rw_Header (w_Writer w)) k v"
  "rw_Body (w_Writer (setHeader k v w)) = rw_Body (w_Writer w)"
  by (simp_all add: setHeader_def)

text \<open>
  A complete response on a writer that has not committed one yet: the status and the headers are
  committed, then the body is offered in one write.
\<close>

definition sends :: "int \<Rightarrow> Header \<Rightarrow> string \<Rightarrow> ResponseWriter \<Rightarrow> ResponseWriter \<Rightarrow> bool" where
  "sends status header body rw rw' \<longleftrightarrow>
     (\<exists>n. rw_Log rw' = rw_Log rw @ [RW_Header status header, RW_Write body n] \<and> rw_Status rw' = Some status \<and>
        rw_Body rw' = rw_Body rw @ take (nat n) body)"

lemma respond_sends:
  assumes "rw_Status (w_Writer w) = None" and "200 \<le> status" and "status \<le> 999"
  obtains w' where "respond e status body w = (Some status, w')" "w_State w' = w_State w" "w_Trace w' = w_Trace w"
    "sends status (rw_Header (w_Writer w)) body (w_Writer w) (w_Writer w')"
proof -
  obtain n err where wr: "env_Write (api_Proxy e) (commitHeader status (w_Writer w)) body = (n, err)" by fastforce
  show thesis
    by (rule that [of "w\<lparr>w_Writer := fst (ResponseWrite (env_Write (api_Proxy e)) (commitHeader status (w_Writer w)) body)\<rparr>"])
      (use assms wr in \<open>auto simp: respond_def WriteHeader_def ResponseWrite_def Let_def sends_def\<close>)
qed

lemma writeError_sends:
  assumes "rw_Status (w_Writer w) = None" and "200 \<le> ae_Status err" and "ae_Status err \<le> 999"
  obtains w' where "writeError e err w = (Some (ae_Status err), w')" "w_State w' = w_State w" "w_Trace w' = w_Trace w"
    "sends (ae_Status err) (Header_Set (rw_Header (w_Writer w)) ''Content-Type'' ''application/json'')
       (Encode (errorBody err)) (w_Writer w) (w_Writer w')"
proof -
  let ?w = "setHeader ''Content-Type'' ''application/json'' w"
  have "rw_Status (w_Writer ?w) = None" using assms(1) by simp
  then obtain w' where "respond e (ae_Status err) (Encode (errorBody err)) ?w = (Some (ae_Status err), w')"
      "w_State w' = w_State ?w" "w_Trace w' = w_Trace ?w"
      "sends (ae_Status err) (rw_Header (w_Writer ?w)) (Encode (errorBody err)) (w_Writer ?w) (w_Writer w')"
    by (rule respond_sends [OF _ assms(2,3)])
  then show thesis by (intro that [of w']) (auto simp: writeError_def sends_def setHeader_def onWriter_def)
qed


subsection \<open>Authentication\<close>

lemma foldASCII_plain: "CHR ''s'' \<notin> set (foldASCII s) \<Longrightarrow> CHR ''k'' \<notin> set (foldASCII s) \<Longrightarrow> foldASCII s = lowerASCII s"
  by (induction s rule: foldASCII.induct) (auto simp: lowerASCII_def split: if_splits)

lemma isASCII_of_lowerASCII: "isASCII (lowerASCII s) \<Longrightarrow> isASCII s"
  by (auto simp: isASCII_def lowerASCII_def byte_toLowerByte isUpper_def split: if_splits)

text \<open>Against a literal without the letters s and k, folding is the folding of ASCII letters.\<close>

lemma EqualFoldASCII_plain:
  assumes "isASCII (lowerASCII t)" and "CHR ''s'' \<notin> set (lowerASCII t)" and "CHR ''k'' \<notin> set (lowerASCII t)"
  shows "EqualFoldASCII s t \<longleftrightarrow> lowerASCII s = lowerASCII t"
  using assms foldASCII_plain [of s] isASCII_of_lowerASCII [of s] foldASCII_ASCII [of s]
  by (auto simp: EqualFoldASCII_def)

lemma bearer_fold: "EqualFoldASCII s ''Bearer '' \<longleftrightarrow> lowerASCII s = ''bearer ''"
proof -
  have "lowerASCII ''Bearer '' = ''bearer ''" by (simp add: string_eval)
  then show ?thesis using EqualFoldASCII_plain [of "''Bearer ''"] by (simp add: isASCII_def)
qed

lemma lowerASCII_bearer: "lowerASCII s = ''bearer '' \<longleftrightarrow> (\<exists>scheme. s = scheme @ '' '' \<and> lowerASCII scheme = ''bearer'')"
proof
  assume low: "lowerASCII s = ''bearer ''"
  then have "length (lowerASCII s) = 7" by simp
  then have "length s = 7" by (simp add: lowerASCII_def)
  then obtain scheme c where s: "s = scheme @ [c]" by (metis append_butlast_last_id length_0_conv zero_neq_numeral)
  with low have "lowerASCII scheme @ [toLowerByte c] = ''bearer'' @ '' ''" by (simp add: lowerASCII_def)
  then have "lowerASCII scheme = ''bearer''" and "toLowerByte c = CHR '' ''" by (simp_all only: append1_eq_conv)
  moreover have "c = CHR '' ''"
    using \<open>toLowerByte c = CHR '' ''\<close> byte_toLowerByte [of c] byte_inject [of c "CHR '' ''"]
    by (auto simp: isUpper_def split: if_splits simp del: of_char_eq_iff)
  ultimately show "\<exists>scheme. s = scheme @ '' '' \<and> lowerASCII scheme = ''bearer''" using s by blast
next
  assume "\<exists>scheme. s = scheme @ '' '' \<and> lowerASCII scheme = ''bearer''"
  then show "lowerASCII s = ''bearer ''" by (auto simp: lowerASCII_def toLowerByte_def isUpper_def)
qed

text \<open>
  C37: who is let in. With a configured token, a request is authorized exactly if its
  \<open>Authorization\<close> header is the word \<open>bearer\<close> in any letter case, one space and then that token,
  byte for byte; a missing, shorter, longer or otherwise different credential is refused.
  Without a configured token every request is authorized.
\<close>

theorem authorized_iff:
  "authorized a r \<longleftrightarrow> au_token a = [] \<or>
     (\<exists>scheme. lowerASCII scheme = ''bearer'' \<and>
        Header_Get (rq_Header r) ''Authorization'' = scheme @ '' '' @ au_token a)"
proof (cases "au_token a = []")
  case True
  then show ?thesis by (simp add: authorized_def enabled_def)
next
  case False
  let ?h = "Header_Get (rq_Header r) ''Authorization''"
  have seven: "length ''Bearer '' = 7" by simp
  have len: "lowerASCII scheme = ''bearer'' \<Longrightarrow> length scheme = 6" for scheme
    by (drule arg_cong [where f = length]) (simp add: lowerASCII_def)
  have "authorized a r \<longleftrightarrow> 7 < length ?h \<and> lowerASCII (take 7 ?h) = ''bearer '' \<and> drop 7 ?h = au_token a"
    using False unfolding authorized_def enabled_def Let_def seven bearer_fold by auto
  also have "\<dots> \<longleftrightarrow> (\<exists>scheme. lowerASCII scheme = ''bearer'' \<and> ?h = scheme @ '' '' @ au_token a)"
  proof
    assume h: "7 < length ?h \<and> lowerASCII (take 7 ?h) = ''bearer '' \<and> drop 7 ?h = au_token a"
    then obtain scheme where "take 7 ?h = scheme @ '' ''" "lowerASCII scheme = ''bearer''"
      by (auto simp: lowerASCII_bearer)
    with h show "\<exists>scheme. lowerASCII scheme = ''bearer'' \<and> ?h = scheme @ '' '' @ au_token a"
      by (metis append.assoc append_take_drop_id)
  next
    assume "\<exists>scheme. lowerASCII scheme = ''bearer'' \<and> ?h = scheme @ '' '' @ au_token a"
    then obtain scheme where s: "lowerASCII scheme = ''bearer''" "?h = scheme @ '' '' @ au_token a" by blast
    then have "take 7 ?h = scheme @ '' ''" "drop 7 ?h = au_token a" using len [OF s(1)] by simp_all
    with s len [OF s(1)] False show "7 < length ?h \<and> lowerASCII (take 7 ?h) = ''bearer '' \<and> drop 7 ?h = au_token a"
      by (auto simp: lowerASCII_bearer)
  qed
  finally show ?thesis using False by simp
qed


text \<open>The label under which an endpoint's requests are counted; the metrics page is not counted.\<close>

definition routeLabel :: "endpoint \<Rightarrow> string option" where
  "routeLabel ep =
     (case ep of Chat \<Rightarrow> Some RouteChatCompletions | Models \<Rightarrow> Some RouteModels | RouterStatus \<Rightarrow> Some RouteRouterStatus
      | Healthz \<Rightarrow> Some RouteHealthz | Readyz \<Rightarrow> Some RouteReadyz | MetricsPage \<Rightarrow> None)"

lemma routeLabel_None_iff: "routeLabel ep = None \<longleftrightarrow> ep = MetricsPage"
  by (simp add: routeLabel_def split: endpoint.split)

definition counted :: "apiEnv \<Rightarrow> endpoint \<Rightarrow> int \<Rightarrow> prom_call list" where
  "counted e ep status =
     (case routeLabel ep of None \<Rightarrow> [] | Some route \<Rightarrow> ObserveHTTP route status (api_Elapsed e))"

definition needsToken :: "endpoint \<Rightarrow> bool" where
  "needsToken ep \<longleftrightarrow> ep \<noteq> Healthz \<and> ep \<noteq> Readyz"

definition routed :: "Request \<Rightarrow> endpoint \<Rightarrow> bool" where
  "routed r ep \<longleftrightarrow> (rq_Method r = ''CONNECT'' \<or> cleanPath (rq_Path r) = rq_Path r) \<and> matchPath (rq_Path r) = Some ep"

definition unauthorizedError :: APIError where
  "unauthorizedError = invalidRequest ''unauthorized'' ''unauthorized'' StatusUnauthorized"

lemma emit_nil [simp]: "emit [] s = s"
  by (simp add: emit_def option.map_ident)

lemma Header_log [simp]: "rw_Log (w_Writer (setHeader k v w)) = rw_Log (w_Writer w)"
  by (simp add: setHeader_def)

lemma sends_setHeader [simp]: "sends st h b (w_Writer (setHeader k v w)) rw' = sends st h b (w_Writer w) rw'"
  by (simp add: sends_def)

lemma writeUnauthorized_sends:
  assumes "rw_Status (w_Writer w) = None"
  obtains w' where "writeUnauthorized e w = (Some StatusUnauthorized, w')" "w_State w' = w_State w" "w_Trace w' = w_Trace w"
    "sends StatusUnauthorized
       (Header_Set (Header_Set (rw_Header (w_Writer w)) ''WWW-Authenticate'' ''Bearer'') ''Content-Type'' ''application/json'')
       (Encode (errorBody unauthorizedError)) (w_Writer w) (w_Writer w')"
proof -
  have st: "rw_Status (w_Writer (setHeader ''WWW-Authenticate'' ''Bearer'' w)) = None"
      "200 \<le> ae_Status unauthorizedError" "ae_Status unauthorizedError \<le> 999" "ae_Status unauthorizedError = 401"
    using assms by (simp_all add: unauthorizedError_def invalidRequest_def)
  obtain w' where "writeError e unauthorizedError (setHeader ''WWW-Authenticate'' ''Bearer'' w) = (Some 401, w')"
      "w_State w' = w_State w" "w_Trace w' = w_Trace w"
      "sends 401 (Header_Set (Header_Set (rw_Header (w_Writer w)) ''WWW-Authenticate'' ''Bearer'') ''Content-Type'' ''application/json'')
        (Encode (errorBody unauthorizedError)) (w_Writer w) (w_Writer w')"
    using writeError_sends [OF st(1-3), of e] st(4) by auto
  then show thesis by (intro that [of w']) (simp_all add: writeUnauthorized_def unauthorizedError_def)
qed

text \<open>
  C11: a request without the token learns nothing and changes nothing. On every endpoint except
  the two probes it is answered with status 401, the challenge \<open>Bearer\<close> and one fixed error
  body, whatever its method, credential and body are; no upstream request is made, nothing is
  logged, and the routing state is untouched apart from the count of the request.
\<close>

theorem unauthorized_refused:
  assumes "routed r ep" and "needsToken ep" and "\<not> authorized (srv_auth srv) r"
    and "rw_Status (w_Writer w) = None" and "st_metrics (w_State w) \<noteq> None"
  shows "\<exists>w'. Handler e srv r w = (True, w') \<and> w_Trace w' = w_Trace w \<and>
    w_State w' = emit (counted e ep StatusUnauthorized) (w_State w) \<and>
    sends StatusUnauthorized
      (Header_Set (Header_Set (rw_Header (w_Writer w)) ''WWW-Authenticate'' ''Bearer'') ''Content-Type'' ''application/json'')
      (Encode (errorBody unauthorizedError)) (w_Writer w) (w_Writer w')"
proof -
  obtain w' where w': "writeUnauthorized e w = (Some StatusUnauthorized, w')" "w_State w' = w_State w" "w_Trace w' = w_Trace w"
    "sends StatusUnauthorized
       (Header_Set (Header_Set (rw_Header (w_Writer w)) ''WWW-Authenticate'' ''Bearer'') ''Content-Type'' ''application/json'')
       (Encode (errorBody unauthorizedError)) (w_Writer w) (w_Writer w')"
    by (rule writeUnauthorized_sends [OF assms(4)])
  show ?thesis
    using assms w'
    by (cases ep)
      (auto simp: Handler_def routed_def needsToken_def instrumented_def protectedRaw_def counted_def routeLabel_def
        StatusClientClosed_def)
qed


subsection \<open>Chat requests\<close>

lemma validHeaderFieldByte_ASCII: "validHeaderFieldByte c \<Longrightarrow> byte c < 128"
  by (auto simp: validHeaderFieldByte_def isUpper_def isLower_def isDigit_def tokenPunct_def)

lemma checkMediaTypeDisposition_ASCII:
  assumes "checkMediaTypeDisposition s"
  shows "isASCII s"
proof -
  let ?a = "takeWhile validHeaderFieldByte s" and ?r = "dropWhile validHeaderFieldByte s"
  have tok: "isASCII (takeWhile validHeaderFieldByte t)" for t
    using validHeaderFieldByte_ASCII by (auto simp: isASCII_def dest: set_takeWhileD)
  have "isASCII ?r"
  proof (cases ?r)
    case (Cons c cs)
    with assms have "c = CHR ''/''" and "dropWhile validHeaderFieldByte cs = []"
      by (auto simp: checkMediaTypeDisposition_def consumeToken_def)
    then have "takeWhile validHeaderFieldByte cs = cs" by (metis append_Nil2 takeWhile_dropWhile_id)
    with tok [of cs] \<open>c = CHR ''/''\<close> show ?thesis unfolding Cons by (simp add: isASCII_def)
  next
    case Nil
    show ?thesis unfolding Nil by (simp add: isASCII_def)
  qed
  with tok [of s] have "isASCII (?a @ ?r)" unfolding isASCII_def set_append by blast
  then show ?thesis by simp
qed

lemma ParseMediaType_ASCII: "ParseMediaType v = Some m \<Longrightarrow> isASCII m"
  by (auto simp: ParseMediaType_def Let_def checkMediaTypeDisposition_ASCII split: if_splits)

text \<open>The requests that are routed, with the alias they ask for and their members.\<close>

definition wellFormedHeaders :: "Request \<Rightarrow> bool" where
  "wellFormedHeaders r \<longleftrightarrow> TrimSpace (Header_Get (rq_Header r) ''Content-Encoding'') = [] \<and>
     (\<exists>m. ParseMediaType (Header_Get (rq_Header r) ''Content-Type'') = Some m \<and> lowerASCII m = ''application/json'')"

definition acceptable :: "Request \<Rightarrow> string \<Rightarrow> RawObject \<Rightarrow> bool" where
  "acceptable r alias payload \<longleftrightarrow> rq_Method r = ''POST'' \<and> wellFormedHeaders r \<and>
     snd (rq_Body r) = None \<and> length (fst (rq_Body r)) \<le> 4194304 \<and>
     UnmarshalObject (fst (rq_Body r)) = Some (Some payload) \<and>
     (\<exists>raw. map_of payload ''model'' = Some raw \<and> UnmarshalString raw = Some alias) \<and> TrimSpace alias \<noteq> []"

text \<open>The status of a refusal, and the header that goes with it.\<close>

definition refusalStatus :: "Request \<Rightarrow> int" where
  "refusalStatus r =
     (if rq_Method r \<noteq> ''POST'' then 405 else if \<not> wellFormedHeaders r then 415
      else if length (fst (rq_Body r)) > 4194304 then 413 else 400)"

definition refusalHeader :: "Request \<Rightarrow> Header \<Rightarrow> Header" where
  "refusalHeader r h =
     (if refusalStatus r = 405 then Header_Set h ''Allow'' ''POST''
      else if refusalStatus r = 413 then Header_Set h ''Connection'' ''close'' else h)"

lemma json_fold:
  assumes "ParseMediaType v = Some m"
  shows "EqualFoldASCII m ''application/json'' \<longleftrightarrow> lowerASCII m = ''application/json''"
proof -
  have "lowerASCII ''application/json'' = ''application/json''" by (simp add: string_eval)
  then show ?thesis by (simp add: EqualFoldASCII_ASCII [OF ParseMediaType_ASCII [OF assms]])
qed

lemma checkChatHeaders_None: "checkChatHeaders r = None \<longleftrightarrow> wellFormedHeaders r"
  by (auto simp: checkChatHeaders_def wellFormedHeaders_def json_fold Let_def split: option.splits if_splits)

lemma checkChatHeaders_Some: "checkChatHeaders r = Some err \<Longrightarrow> ae_Status err = 415 \<and> ae_Type err = ''invalid_request_error''"
  by (auto simp: checkChatHeaders_def invalidRequest_def Let_def split: option.splits if_splits)

lemma decodeChatBody_Inr:
  "decodeChatBody r w = (Inr payload, w1) \<longleftrightarrow> w1 = w \<and> snd (rq_Body r) = None \<and> length (fst (rq_Body r)) \<le> 4194304 \<and>
     UnmarshalObject (fst (rq_Body r)) = Some (Some payload) \<and> map_of payload ''model'' \<noteq> None"
  by (auto simp: decodeChatBody_def readAllLimited_def MaxChatRequestBytes_def Let_def
      split: sum.splits option.splits readError.splits if_splits)

lemma decodeChatBody_Inl:
  assumes "decodeChatBody r w = (Inl err, w1)"
  shows "ae_Type err = ''invalid_request_error''"
    "if length (fst (rq_Body r)) > 4194304 then ae_Status err = 413 \<and> w1 = setHeader ''Connection'' ''close'' w
     else ae_Status err = 400 \<and> w1 = w"
  using assms
  by (auto simp: decodeChatBody_def readAllLimited_def MaxChatRequestBytes_def Let_def invalidRequest_def
      split: sum.splits option.splits readError.splits if_splits)

text \<open>What a handler makes of the result of the proxy.\<close>

definition conclude :: "apiEnv \<Rightarrow> result \<times> world \<Rightarrow> handled" where
  "conclude e x =
     (case x of
        (Panicked, w) \<Rightarrow> (None, w)
      | (Returned status (Some apiErr), w) \<Rightarrow> writeError e apiErr w
      | (Returned status None, w) \<Rightarrow> (Some status, w))"

lemma handleChat_acceptable:
  assumes "acceptable r alias payload"
  shows "handleChat e r w = conclude e (Serve (api_Proxy e) (rq_Header r) alias payload w)"
proof -
  from assms have "decodeChatBody r w = (Inr payload, w)" by (auto simp: decodeChatBody_Inr acceptable_def)
  moreover from assms have "checkChatHeaders r = None" "rq_Method r = ''POST''"
    by (simp_all add: checkChatHeaders_None acceptable_def)
  moreover from assms have "UnmarshalString (the (map_of payload ''model'')) = Some alias" "TrimSpace alias \<noteq> []"
    by (auto simp: acceptable_def)
  ultimately show ?thesis by (simp add: handleChat_def conclude_def)
qed

lemma handleChat_refused:
  assumes "\<nexists>alias payload. acceptable r alias payload"
  obtains err w1 where "handleChat e r w = writeError e err w1" "ae_Status err = refusalStatus r"
    "ae_Type err = ''invalid_request_error''" "w_State w1 = w_State w" "w_Trace w1 = w_Trace w"
    "rw_Header (w_Writer w1) = refusalHeader r (rw_Header (w_Writer w))" "rw_Status (w_Writer w1) = rw_Status (w_Writer w)"
    "\<And>st h b rw'. sends st h b (w_Writer w1) rw' = sends st h b (w_Writer w) rw'"
proof (cases "rq_Method r = ''POST''")
  case False
  show thesis
    by (rule that [of methodNotAllowed "setHeader ''Allow'' ''POST'' w"])
      (use False in \<open>simp_all add: handleChat_def refusalStatus_def refusalHeader_def methodNotAllowed_def invalidRequest_def\<close>)
next
  case post: True
  show thesis
  proof (cases "checkChatHeaders r")
    case (Some err)
    then have "\<not> wellFormedHeaders r" using checkChatHeaders_None [of r] by simp
    with post Some checkChatHeaders_Some [OF Some] show thesis
      by (intro that [of err w]) (simp_all add: handleChat_def refusalStatus_def refusalHeader_def)
  next
    case None
    then have wf: "wellFormedHeaders r" by (simp add: checkChatHeaders_None)
    obtain x w1 where d: "decodeChatBody r w = (x, w1)" by fastforce
    show thesis
    proof (cases x)
      case (Inl err)
      with d have dl: "decodeChatBody r w = (Inl err, w1)" by simp
      from decodeChatBody_Inl [OF dl] post wf dl None show thesis
        by (intro that [of err w1])
          (auto simp: handleChat_def refusalStatus_def refusalHeader_def split: if_splits)
    next
      case (Inr payload)
      with d have dr: "w1 = w" "snd (rq_Body r) = None" "length (fst (rq_Body r)) \<le> 4194304"
          "UnmarshalObject (fst (rq_Body r)) = Some (Some payload)" "map_of payload ''model'' \<noteq> None"
        using decodeChatBody_Inr [of r w payload w1] by simp_all
      let ?err = "invalidRequest ''model must be a non-empty string'' ''invalid_model'' StatusBadRequest"
      have "UnmarshalString (the (map_of payload ''model'')) = None \<or>
          (\<exists>al. UnmarshalString (the (map_of payload ''model'')) = Some al \<and> TrimSpace al = [])"
      proof (rule ccontr)
        assume "\<not> ?thesis"
        then obtain al where "UnmarshalString (the (map_of payload ''model'')) = Some al" "TrimSpace al \<noteq> []" by auto
        with dr post wf have "acceptable r al payload" by (auto simp: acceptable_def)
        with assms show False by blast
      qed
      then have "handleChat e r w = writeError e ?err w"
        using post None d Inr dr(1) by (auto simp: handleChat_def)
      with post wf dr show thesis
        by (intro that [of ?err w]) (simp_all add: refusalStatus_def refusalHeader_def invalidRequest_def)
    qed
  qed
qed

text \<open>
  C10: which chat requests reach the proxy. A request is handed to \<open>Serve\<close> exactly if it is a POST
  without a content encoding, with media type \<open>application/json\<close>, whose body of at most 4 MiB
  is one JSON object with a member \<open>model\<close> that is a string with something other than white
  space in it; \<open>Serve\<close> gets that string as the alias and all members. Every other request is
  answered with a JSON error and status 405, 415, 413 or 400, in this order of precedence, and
  neither the routing state nor any backend notices it.
\<close>

theorem chat_admission:
  assumes "rw_Status (w_Writer w) = None"
  shows "(\<exists>alias payload. acceptable r alias payload \<and>
       handleChat e r w = conclude e (Serve (api_Proxy e) (rq_Header r) alias payload w)) \<or>
    ((\<nexists>alias payload. acceptable r alias payload) \<and>
      (\<exists>err w'. handleChat e r w = (Some (refusalStatus r), w') \<and> ae_Status err = refusalStatus r \<and>
        ae_Type err = ''invalid_request_error'' \<and> w_State w' = w_State w \<and> w_Trace w' = w_Trace w \<and>
        sends (refusalStatus r) (Header_Set (refusalHeader r (rw_Header (w_Writer w))) ''Content-Type'' ''application/json'')
          (Encode (errorBody err)) (w_Writer w) (w_Writer w')))"
proof (cases "\<exists>alias payload. acceptable r alias payload")
  case True
  with handleChat_acceptable show ?thesis by blast
next
  case False
  then obtain err w1 where h: "handleChat e r w = writeError e err w1" "ae_Status err = refusalStatus r"
    "ae_Type err = ''invalid_request_error''" "w_State w1 = w_State w" "w_Trace w1 = w_Trace w"
    "rw_Header (w_Writer w1) = refusalHeader r (rw_Header (w_Writer w))" "rw_Status (w_Writer w1) = rw_Status (w_Writer w)"
    and sends: "\<And>st h b rw'. sends st h b (w_Writer w1) rw' = sends st h b (w_Writer w) rw'"
    by (rule handleChat_refused [of r e w]) blast
  have "200 \<le> ae_Status err" "ae_Status err \<le> 999" using h(2) by (simp_all add: refusalStatus_def)
  with h(7) assms obtain w' where "writeError e err w1 = (Some (ae_Status err), w')" "w_State w' = w_State w1"
    "w_Trace w' = w_Trace w1"
    "sends (ae_Status err) (Header_Set (rw_Header (w_Writer w1)) ''Content-Type'' ''application/json'')
       (Encode (errorBody err)) (w_Writer w1) (w_Writer w')"
    using writeError_sends [of w1 err e] by auto
  with h sends False show ?thesis by (intro disjI2) auto
qed


subsection \<open>The request counter\<close>

text \<open>The increments of the request counter among the calls on a state's metrics.\<close>

definition httpLog :: "State \<Rightarrow> prom_call list option" where
  "httpLog s = map_option (filter (\<lambda>c. call_instrument c = HttpRequests)) (st_metrics s)"

lemma httpLog_emit [simp]:
  "httpLog (emit cs s) = map_option (\<lambda>l. l @ filter (\<lambda>c. call_instrument c = HttpRequests) cs) (httpLog s)"
  by (cases "st_metrics s") (simp_all add: httpLog_def emit_def)

lemma httpLog_putCell [simp]: "httpLog (putCell p b s) = httpLog s"
  by (simp add: httpLog_def putCell_def)

lemma httpLog_ident [simp]: "map_option (\<lambda>l. l) x = x"
  by (cases x) simp_all

lemma httpLog_silent [simp]:
  "httpLog (Release s r) = httpLog s" "httpLog (SetHealth s n h) = httpLog s"
  by (auto simp: Release_def Release_locked_def SetHealth_def SetHealth_locked_def publish_def Let_def metric_defs
      split: option.splits)

lemma httpLog_Reserve: "Reserve s a att = Some (x, s') \<Longrightarrow> httpLog s' = httpLog s"
  by (auto simp: Reserve_def Let_def metric_defs split: option.splits)

lemma httpLog_Swap: "SwapReservation s a cur att = Some (x, s') \<Longrightarrow> httpLog s' = httpLog s"
  by (auto simp: SwapReservation_def SwapReservation_locked_def publish_def Let_def metric_defs split: option.splits if_splits)

lemma httpLog_observe [simp]: "httpLog (w_State (observe r t el w)) = httpLog (w_State w)"
  by (simp add: metric_defs)

lemma httpLog_attempt: "attempt e h n route payload w = (x, w') \<Longrightarrow> httpLog (w_State w') = httpLog (w_State w)"
  by (auto simp: attempt_def Let_def split: option.splits)

lemma httpLog_countFailover: "countFailover a reason w = Some w' \<Longrightarrow> httpLog (w_State w') = httpLog (w_State w)"
  by (auto simp: countFailover_def metric_defs split: option.splits)

lemma httpLog_serve_failed:
  assumes "serve_failed e a n att route err w = (x, w')"
  shows "httpLog (w_State w') = httpLog (w_State w)"
  using assms
  by (auto simp: serve_failed_def Let_def metric_defs split: if_splits option.splits sum.splits prod.splits
      dest!: httpLog_Reserve httpLog_countFailover)

lemma httpLog_serve_final:
  assumes "serve_final e a n route resp w = (x, w')"
  shows "httpLog (w_State w') = httpLog (w_State w)"
proof -
  obtain res w1 where fw: "forward e n resp route a w = (res, w1)" by fastforce
  then have "w_State w1 = w_State w" by (rule forward_cases) simp_all
  with assms fw show ?thesis by (auto simp: serve_final_def split: result.splits)
qed

lemma httpLog_serve_answered:
  assumes "serve_answered e a n att route resp w = (x, w')"
  shows "httpLog (w_State w') = httpLog (w_State w)"
  using assms
  by (auto simp: serve_answered_def Let_def metric_defs split: option.splits sum.splits prod.splits
      dest!: httpLog_Swap httpLog_countFailover httpLog_serve_final)

lemma httpLog_serve_round:
  "serve_round e h a payload n att route w = (x, w') \<Longrightarrow> httpLog (w_State w') = httpLog (w_State w)"
  by (auto simp: serve_round_def split: prod.splits sum.splits
      dest!: httpLog_attempt httpLog_serve_failed httpLog_serve_answered)

lemma httpLog_Serve_loop:
  "Serve_loop e h a payload n att route w = (r, w') \<Longrightarrow> httpLog (w_State w') = httpLog (w_State w)"
proof (induction e h a payload n att route w rule: Serve_loop.induct)
  case (1 e h a payload n att route w)
  obtain res w1 where rd: "serve_round e h a payload n (insert route att) route w = (res, w1)" by fastforce
  show ?case
  proof (cases res)
    case (Inl x)
    with "1.prems" rd httpLog_serve_round [OF rd] show ?thesis by (simp add: Serve_loop.simps)
  next
    case (Inr nxt)
    with "1.prems" rd have "Serve_loop e h a payload (Suc n) (insert route att) nxt w1 = (r, w')"
      by (simp add: Serve_loop.simps [of e h a payload n])
    from "1.IH" [OF rd [symmetric] Inr this] httpLog_serve_round [OF rd] show ?thesis by simp
  qed
qed

text \<open>The proxy counts attempts and failovers, never requests.\<close>

lemma httpLog_Serve: "Serve e h a payload w = (r, w') \<Longrightarrow> httpLog (w_State w') = httpLog (w_State w)"
  by (auto simp: Serve_def split: option.splits sum.splits prod.splits routeError.splits
      dest!: httpLog_Reserve httpLog_Serve_loop)


subsection \<open>The contract of a handler\<close>

text \<open>
  The status a handler reports is the one it sent, unless it sent nothing because the client left,
  or passes on the status of an upstream response that is informational and so ends nothing.
\<close>

definition reported :: "apiEnv \<Rightarrow> int \<Rightarrow> ResponseWriter \<Rightarrow> ResponseWriter \<Rightarrow> bool" where
  "reported e status rw rw' \<longleftrightarrow> rw_Status rw' = Some status \<or> status = StatusClientClosed \<and> rw' = rw \<or>
     \<not> finalStatus status \<and> (\<exists>n req resp. env_Do (api_Proxy e) n req = Inr resp \<and> up_StatusCode resp = status)"

text \<open>The world a handler starts in: a well-formed state with metrics and a response not yet begun.\<close>

definition ready_world :: "world \<Rightarrow> bool" where
  "ready_world w \<longleftrightarrow> invState (w_State w) \<and> st_metrics (w_State w) \<noteq> None \<and> rw_Status (w_Writer w) = None"

text \<open>
  A request that panicked: it was not counted, and it keeps the slot of the backend that answered
  the request sent to it with a status that is not three digits.
\<close>

definition aborted :: "apiEnv \<Rightarrow> Request \<Rightarrow> world \<Rightarrow> world \<Rightarrow> bool" where
  "aborted e r w w' \<longleftrightarrow> httpLog (w_State w') = httpLog (w_State w) \<and>
     (\<exists>alias payload n route req resp. acceptable r alias payload \<and>
        upstreamRequest (rq_Header r) payload route = Some req \<and> env_Do (api_Proxy e) n req = Inr resp \<and>
        (up_StatusCode resp < 100 \<or> 999 < up_StatusCode resp) \<and> holding (load (w_State w)) route (w_State w'))"

text \<open>What a handler that returns does to the world: it reports the status it sent and restores the loads.\<close>

definition answers :: "apiEnv \<Rightarrow> world \<Rightarrow> handled \<Rightarrow> bool" where
  "answers e w x \<longleftrightarrow>
     (\<exists>status w'. x = (Some status, w') \<and> steady (w_State w) (w_State w') \<and> load (w_State w') = load (w_State w) \<and>
        httpLog (w_State w') = httpLog (w_State w) \<and> reported e status (w_Writer w) (w_Writer w'))"

lemma answersI:
  assumes "ready_world w" and "w_State w' = w_State w" and "rw_Status (w_Writer w') = Some status"
  shows "answers e w (Some status, w')"
  using assms by (auto simp: answers_def ready_world_def reported_def steady_refl)

lemma answers_respond:
  assumes "ready_world w" and "w_State w1 = w_State w" and "rw_Status (w_Writer w1) = None"
    and "200 \<le> status" and "status \<le> 999"
  shows "answers e w (respond e status body w1)"
proof -
  obtain w' where "respond e status body w1 = (Some status, w')" "w_State w' = w_State w1"
    "sends status (rw_Header (w_Writer w1)) body (w_Writer w1) (w_Writer w')"
    by (rule respond_sends [OF assms(3-5), of e body])
  with assms(1,2) show ?thesis by (auto simp: sends_def intro: answersI)
qed

lemma answers_writeError:
  assumes "ready_world w" and "w_State w1 = w_State w" and "rw_Status (w_Writer w1) = None"
    and "200 \<le> ae_Status err" and "ae_Status err \<le> 999"
  shows "answers e w (writeError e err w1)"
  unfolding writeError_def by (rule answers_respond) (use assms in simp_all)

lemma answers_methodNotAllowed:
  "ready_world w \<Longrightarrow> answers e w (writeError e methodNotAllowed (setHeader k v w))"
  by (rule answers_writeError) (simp_all add: ready_world_def methodNotAllowed_def invalidRequest_def)

lemma answers_writeUnauthorized: "ready_world w \<Longrightarrow> answers e w (writeUnauthorized e w)"
  unfolding writeUnauthorized_def
  by (rule answers_writeError) (simp_all add: ready_world_def invalidRequest_def)

text \<open>
  How an instrumented request ends: counted once under the status that was reported, with the
  loads restored, or panicked and not counted.
\<close>

definition accounted :: "apiEnv \<Rightarrow> Request \<Rightarrow> string \<Rightarrow> world \<Rightarrow> bool \<times> world \<Rightarrow> bool" where
  "accounted e r route w x \<longleftrightarrow>
     (case x of
        (True, w') \<Rightarrow> steady (w_State w) (w_State w') \<and> load (w_State w') = load (w_State w) \<and>
          (\<exists>status l. reported e status (w_Writer w) (w_Writer w') \<and> httpLog (w_State w) = Some l \<and>
             httpLog (w_State w') = Some (l @ [CounterInc HttpRequests [route, statusLabel status]]))
      | (False, w') \<Rightarrow> aborted e r w w')"

lemma instrumented_answers:
  assumes "ready_world w" and "answers e w (if \<not> prot \<or> authorized (srv_auth srv) r then handler e r w else writeUnauthorized e w)"
  obtains w' where "instrumented e srv route prot handler r w = (True, w')" "accounted e r route w (True, w')"
proof -
  let ?x = "if \<not> prot \<or> authorized (srv_auth srv) r then handler e r w else writeUnauthorized e w"
  from assms(2) obtain status w1 where x: "?x = (Some status, w1)" "steady (w_State w) (w_State w1)"
      "load (w_State w1) = load (w_State w)" "httpLog (w_State w1) = httpLog (w_State w)"
      "reported e status (w_Writer w) (w_Writer w1)"
    by (auto simp: answers_def)
  let ?w2 = "if status = StatusClientClosed then record_event (EvLog ''client canceled request'') w1 else w1"
  have w2: "w_State ?w2 = w_State w1" "w_Writer ?w2 = w_Writer w1" by simp_all
  from assms(1) obtain l where l: "httpLog (w_State w) = Some l" by (auto simp: ready_world_def httpLog_def)
  with x(4) obtain m where m: "st_metrics (w_State w1) = Some m" by (auto simp: httpLog_def)
  let ?w' = "onState (emit (ObserveHTTP route status (api_Elapsed e))) ?w2"
  from m have "instrumented e srv route prot handler r w = (True, ?w')"
    unfolding instrumented_def x(1) by (simp add: w2 del: if_split)
  moreover have "accounted e r route w (True, ?w')"
    using x l w2 by (auto simp: accounted_def steady_emit ObserveHTTP_def simp del: if_split)
  ultimately show thesis by (rule that)
qed

text \<open>
  The contract of a handler, and that of a handler that never panics.
\<close>

locale api_handler =
  fixes handler :: "apiEnv \<Rightarrow> Request \<Rightarrow> world \<Rightarrow> handled"
  assumes answers_or_aborts: "ready_world w \<Longrightarrow>
    answers e w (handler e r w) \<or> (\<exists>w'. handler e r w = (None, w') \<and> aborted e r w w')"
begin

text \<open>An instrumented handler is accounted for, also when it is not asked because the token is wrong.\<close>

lemma instrumented_accounted:
  assumes "ready_world w"
  shows "accounted e r route w (instrumented e srv route prot handler r w)"
proof (cases "answers e w (if \<not> prot \<or> authorized (srv_auth srv) r then handler e r w else writeUnauthorized e w)")
  case True
  obtain w' where "instrumented e srv route prot handler r w = (True, w')" "accounted e r route w (True, w')"
    by (rule instrumented_answers [where handler = handler, OF assms True])
  then show ?thesis by simp
next
  case False
  then have asked: "\<not> prot \<or> authorized (srv_auth srv) r"
    using answers_writeUnauthorized [OF assms, of e] by (cases "\<not> prot \<or> authorized (srv_auth srv) r") simp_all
  with False answers_or_aborts [OF assms, of e r] show ?thesis by (auto simp: instrumented_def accounted_def)
qed

end

locale total_handler =
  fixes handler :: "apiEnv \<Rightarrow> Request \<Rightarrow> world \<Rightarrow> handled"
  assumes answers: "ready_world w \<Longrightarrow> answers e w (handler e r w)"
begin

lemma instrumented_returns:
  assumes "ready_world w"
  shows "fst (instrumented e srv route prot handler r w)"
proof -
  have "answers e w (if \<not> prot \<or> authorized (srv_auth srv) r then handler e r w else writeUnauthorized e w)"
    using answers [OF assms] answers_writeUnauthorized [OF assms] by simp
  then obtain w' where "instrumented e srv route prot handler r w = (True, w')"
    by (rule instrumented_answers [where handler = handler, OF assms])
  then show ?thesis by simp
qed

end

sublocale total_handler \<subseteq> api_handler handler
  by unfold_locales (simp add: answers)

interpretation healthz: total_handler handleHealthz
  by unfold_locales
    (auto simp: handleHealthz_def ready_world_def intro!: answers_methodNotAllowed answers_respond)

interpretation models: total_handler handleModels
  by unfold_locales
    (auto simp: handleModels_def ready_world_def intro!: answers_methodNotAllowed answers_respond)

interpretation readyz: total_handler handleReadyz
proof unfold_locales
  fix e r w
  assume w: "ready_world w"
  have "answers e w (respond e st b (setHeader k v w))" if "200 \<le> st" "st \<le> 999" for st b k v
    using w that by (intro answers_respond) (simp_all add: ready_world_def)
  with w show "answers e w (handleReadyz e r w)"
    by (auto simp: handleReadyz_def Ready_eq ready_world_def Let_def intro!: answers_methodNotAllowed)
qed

lemma Snapshot_total: "invState s \<Longrightarrow> \<exists>st. Snapshot s = Some st"
  using aliasStatuses_eq [of "st_aliasOrder s" s] by (auto dest!: invState_wf simp: wf_state_def Snapshot_def)

lemma ResponseWrite_status: "rw_Status rw = Some st \<Longrightarrow> rw_Status (fst (ResponseWrite wr rw b)) = Some st"
  by (simp add: ResponseWrite_def Let_def split: prod.splits)

interpretation routerStatus: total_handler handleRouterStatus
proof unfold_locales
  fix e w r
  assume w: "ready_world w"
  then obtain st where st: "Snapshot (w_State w) = Some st" using Snapshot_total by (auto simp: ready_world_def)
  let ?w = "setHeader ''Content-Type'' ''application/json'' w"
  have "WriteHeader (w_Writer ?w) 200 = Some (commitHeader 200 (w_Writer ?w))"
    using w by (simp add: WriteHeader_def ready_world_def)
  with w st show "answers e w (handleRouterStatus e r w)"
    by (auto simp: handleRouterStatus_def Let_def ResponseWrite_status intro!: answers_methodNotAllowed answersI)
qed

lemma apiError_status:
  "ae_Status errUnknownAlias = 404" "ae_Status errNoRoute = 503" "ae_Status errStreamUnsupported = 500"
  "ae_Status (finalError err) \<in> {502, 504}"
  by (simp_all add: errUnknownAlias_def errNoRoute_def errStreamUnsupported_def finalError_def errUpstreamTimeout_def
      errUpstreamUnavailable_def)

lemma answers_later:
  assumes "answers e w1 x" and "steady (w_State w) (w_State w1)" and "load (w_State w1) = load (w_State w)"
    and "httpLog (w_State w1) = httpLog (w_State w)" and "w_Writer w1 = w_Writer w"
  shows "answers e w x"
  using assms by (auto simp: answers_def intro: steady_trans)

lemma answers_Serve:
  assumes w: "ready_world w" and run: "Serve (api_Proxy e) h a payload w = (Returned status apiErr, w')"
  shows "answers e w (conclude e (Returned status apiErr, w'))"
proof -
  from w have inv: "invState (w_State w)" and met: "st_metrics (w_State w) \<noteq> None" and st: "rw_Status (w_Writer w) = None"
    by (simp_all add: ready_world_def)
  have err: "answers e w (writeError e err w')" if "w_Writer w' = w_Writer w" "200 \<le> ae_Status err" "ae_Status err \<le> 999"
      "steady (w_State w) (w_State w')" "load (w_State w') = load (w_State w)" for err
    using that st met httpLog_Serve [OF run] steady_metrics [OF that(4)]
    by (intro answers_later [OF answers_writeError [of w' w']]) (simp_all add: ready_world_def steady_inv)
  from inv met run show ?thesis
  proof (cases rule: Serve_cases)
    case unknown
    with err [of errUnknownAlias] inv show ?thesis by (simp add: conclude_def apiError_status steady_refl)
  next
    case (none al)
    with err [of errNoRoute] inv show ?thesis by (simp add: conclude_def apiError_status steady_refl)
  next
    case (routed route s)
    from routed(2,8) obtain n rt w0 where st': "steady (w_State w) (w_State w')" "load (w_State w') = load (w_State w)"
        and w0: "w_Writer w0 = w_Writer w" "outcome (api_Proxy e) h payload n rt w0 (Returned status apiErr) w'"
      by (auto simp: served_def intro: steady_trans)
    note frame = st' httpLog_Serve [OF run]
    show ?thesis
    proof (cases "fst (attempt (api_Proxy e) h n rt payload w0)")
      case (Inl x)
      show ?thesis
      proof (cases "isCanceled (env_CtxErr (api_Proxy e) n) x")
        case True
        with Inl w0 frame show ?thesis by (auto simp: outcome_def conclude_def answers_def reported_def)
      next
        case False
        with Inl w0 have "apiErr = Some (finalError x)" "w_Writer w' = w_Writer w" by (simp_all add: outcome_def)
        with err [of "finalError x"] frame apiError_status(4) [of x] show ?thesis by (auto simp: conclude_def)
      qed
    next
      case (Inr resp)
      then obtain req where req: "env_Do (api_Proxy e) n req = Inr resp"
        by (metis attempt_answer prod.collapse)
      show ?thesis
      proof (cases "isEventStream (up_Header resp) \<and> \<not> rw_Flusher (w_Writer w0)")
        case True
        with Inr w0 have "apiErr = Some errStreamUnsupported" "w_Writer w' = w_Writer w" by (simp_all add: outcome_def)
        with err [of errStreamUnsupported] frame show ?thesis by (auto simp: conclude_def apiError_status)
      next
        case False
        with Inr w0 have "apiErr = None" "status = up_StatusCode resp" "answered resp (w_Writer w) (w_Writer w')"
          by (auto simp: outcome_def)
        with frame req st show ?thesis by (auto simp: conclude_def answers_def reported_def answered_def)
      qed
    qed
  qed
qed

interpretation chat: api_handler handleChat
proof unfold_locales
  fix e r w
  assume w: "ready_world w"
  show "answers e w (handleChat e r w) \<or> (\<exists>w'. handleChat e r w = (None, w') \<and> aborted e r w w')"
  proof (cases "\<exists>alias payload. acceptable r alias payload")
    case True
    then obtain al payload where ok: "acceptable r al payload" by blast
    obtain res w' where run: "Serve (api_Proxy e) (rq_Header r) al payload w = (res, w')" by fastforce
    show ?thesis
    proof (cases res)
      case (Returned status apiErr)
      with answers_Serve [OF w run [unfolded Returned]] run show ?thesis by (simp add: handleChat_acceptable [OF ok])
    next
      case Panicked
      from w have "invState (w_State w)" "st_metrics (w_State w) \<noteq> None" by (simp_all add: ready_world_def)
      from this run have "aborted e r w w'"
      proof (cases rule: Serve_cases)
        case (routed route s)
        with ok Panicked httpLog_Serve [OF run] show ?thesis unfolding served_def aborted_def by (simp del: not_None_eq) blast
      qed (use Panicked in simp_all)
      with run Panicked show ?thesis by (simp add: handleChat_acceptable [OF ok] conclude_def)
    qed
  next
    case False
    then obtain err w1 where h: "handleChat e r w = writeError e err w1" "ae_Status err = refusalStatus r"
      "w_State w1 = w_State w" "rw_Status (w_Writer w1) = rw_Status (w_Writer w)"
      by (rule handleChat_refused [of r e w]) blast
    then show ?thesis
      unfolding h(1) using w by (intro disjI1 answers_writeError) (simp_all add: ready_world_def refusalStatus_def)
  qed
qed


subsection \<open>The whole server\<close>

lemma Handler_routed:
  assumes "ready_world w" and "routed r ep" and "routeLabel ep = Some route"
  shows "accounted e r route w (Handler e srv r w)" and "ep \<noteq> Chat \<Longrightarrow> fst (Handler e srv r w)"
proof -
  note accounted = chat.instrumented_accounted models.instrumented_accounted routerStatus.instrumented_accounted
    healthz.instrumented_accounted readyz.instrumented_accounted
  note returns = models.instrumented_returns routerStatus.instrumented_returns healthz.instrumented_returns
    readyz.instrumented_returns
  show "accounted e r route w (Handler e srv r w)"
    using assms accounted [OF assms(1)] by (cases ep) (auto simp: Handler_def routed_def routeLabel_def)
  show "fst (Handler e srv r w)" if "ep \<noteq> Chat"
    using assms that returns [OF assms(1)] by (cases ep) (auto simp: Handler_def routed_def routeLabel_def)
qed

text \<open>
  C27: every request to a counted endpoint that is answered is counted once, whatever the upstreams
  do. If the handler returns, the request counter was incremented exactly once, under the label of
  the endpoint and of the status that was sent to the client. The only other labels are 499, with
  nothing sent, when the client left before an answer, and the status of an informational response
  that an upstream gave as its final one. The handler fails to return only on the chat endpoint and
  only when an upstream answered with a status that is not three digits; then nothing is counted.
\<close>

theorem requests_counted_once:
  assumes "ready_world w" and "routed r ep" and "routeLabel ep = Some route"
  shows "\<exists>l. httpLog (w_State w) = Some l \<and>
    (case Handler e srv r w of
       (True, w') \<Rightarrow> \<exists>status. httpLog (w_State w') = Some (l @ [CounterInc HttpRequests [route, statusLabel status]]) \<and>
         (rw_Status (w_Writer w') = Some status \<or> status = 499 \<and> w_Writer w' = w_Writer w \<or>
          status < 200 \<and> status \<noteq> 101 \<and> (\<exists>n req resp. env_Do (api_Proxy e) n req = Inr resp \<and> up_StatusCode resp = status))
     | (False, w') \<Rightarrow> httpLog (w_State w') = Some l \<and> ep = Chat \<and>
         (\<exists>n req resp. env_Do (api_Proxy e) n req = Inr resp \<and> (up_StatusCode resp < 100 \<or> 999 < up_StatusCode resp)))"
proof -
  obtain b w' where h: "Handler e srv r w = (b, w')" by fastforce
  from assms(1) obtain l where l: "httpLog (w_State w) = Some l" by (auto simp: ready_world_def httpLog_def)
  have ret: "b \<or> ep = Chat" using Handler_routed(2) [OF assms, of e srv] h by auto
  have acc: "accounted e r route w (b, w')" using Handler_routed(1) [OF assms, of e srv] h by simp
  show ?thesis
  proof (cases b)
    case True
    with acc l obtain status where "reported e status (w_Writer w) (w_Writer w')"
        "httpLog (w_State w') = Some (l @ [CounterInc HttpRequests [route, statusLabel status]])"
      by (auto simp: accounted_def)
    with True l h show ?thesis
      by (intro exI [of _ l]) (auto simp: reported_def finalStatus_def StatusClientClosed_def not_le intro!: exI [of _ status])
  next
    case False
    with acc l h ret show ?thesis by (auto simp: accounted_def aborted_def)
  qed
qed

lemma respond_frame:
  assumes "rw_Status (w_Writer w) = None" and "200 \<le> status" and "status \<le> 999"
  shows "\<exists>w'. respond e status body w = (Some status, w') \<and> w_State w' = w_State w \<and> w_Trace w' = w_Trace w"
  by (rule respond_sends [OF assms, of e body]) blast

text \<open>
  C32: no request disturbs the shared state for others, unless it panics. Whatever is asked, on
  whichever path and with whichever credential, and whatever the upstreams answer, the routing
  state stays well formed and within capacity, and when the handler returns every backend carries
  the load it carried before. It fails to return only for an acceptable chat request whose
  upstream request was answered with a status that is not three digits; then exactly one slot, of
  the backend that answered, stays taken.
\<close>

theorem Handler_keeps_capacity:
  assumes "ready_world w"
  shows "case Handler e srv r w of
      (True, w') \<Rightarrow> invState (w_State w') \<and> load (w_State w') = load (w_State w)
    | (False, w') \<Rightarrow> invState (w_State w') \<and> routed r Chat \<and>
        (\<exists>alias payload n route req resp. acceptable r alias payload \<and>
           upstreamRequest (rq_Header r) payload route = Some req \<and> env_Do (api_Proxy e) n req = Inr resp \<and>
           (up_StatusCode resp < 100 \<or> 999 < up_StatusCode resp) \<and>
           load (w_State w') = bump (routeBackend route) (load (w_State w)))"
proof -
  from assms have inv: "invState (w_State w)" and st: "rw_Status (w_Writer w) = None" by (simp_all add: ready_world_def)
  consider (redirect) "rq_Method r \<noteq> ''CONNECT''" "cleanPath (rq_Path r) \<noteq> rq_Path r"
    | (missing) "rq_Method r = ''CONNECT'' \<or> cleanPath (rq_Path r) = rq_Path r" "matchPath (rq_Path r) = None"
    | (page) "routed r MetricsPage" | (label) ep route where "routed r ep" "routeLabel ep = Some route"
  proof (cases "matchPath (rq_Path r)")
    case (Some ep)
    then show thesis using that(1,3) that(4) [of ep] routeLabel_None_iff [of ep]
      by (cases "routeLabel ep") (auto simp: routed_def)
  qed (use that(1,2) in blast)
  then show ?thesis
  proof cases
    case redirect
    with inv show ?thesis by (simp add: Handler_def)
  next
    case missing
    let ?w = "setHeader ''X-Content-Type-Options'' ''nosniff'' (setHeader ''Content-Type'' ''text/plain; charset=utf-8'' w)"
    from respond_frame [of ?w 404 e] st obtain w' where
      "respond e 404 (''404 page not found'' @ [CHR 0x0A]) ?w = (Some 404, w')" "w_State w' = w_State ?w" by auto
    with missing inv show ?thesis by (auto simp: Handler_def notFound_def)
  next
    case page
    obtain w' where w': "writeUnauthorized e w = (Some StatusUnauthorized, w')" "w_State w' = w_State w"
      by (rule writeUnauthorized_sends [OF st, of e]) blast
    from page inv w' show ?thesis
      by (cases "authorized (srv_auth srv) r") (auto simp: Handler_def routed_def protectedRaw_def)
  next
    case label
    obtain b w' where h: "Handler e srv r w = (b, w')" by fastforce
    note acc = Handler_routed [OF assms label, of e srv]
    show ?thesis
    proof (cases b)
      case True
      with acc h show ?thesis by (simp add: accounted_def steady_def)
    next
      case False
      with acc(2) h have "ep = Chat" by auto
      with label(1) have "routed r Chat" by simp
      with acc(1) False h show ?thesis unfolding accounted_def aborted_def holding_def by simp blast
    qed
  qed
qed

text \<open>
  Only the documented endpoints exist. A clean path that is not one of the six, segment by
  segment after percent-decoding, is answered with 404, and the request has no other effect.
\<close>

theorem unknown_path_404:
  assumes "cleanPath (rq_Path r) = rq_Path r" and "rw_Status (w_Writer w) = None"
    and "\<forall>ep. pathSegments (rq_Path r) \<noteq> Split (CHR ''/'') (drop 1 (pattern ep))"
  shows "\<exists>w'. Handler e srv r w = (True, w') \<and> w_State w' = w_State w \<and> w_Trace w' = w_Trace w \<and>
    rw_Status (w_Writer w') = Some 404"
proof -
  let ?w = "setHeader ''X-Content-Type-Options'' ''nosniff'' (setHeader ''Content-Type'' ''text/plain; charset=utf-8'' w)"
  have "rw_Status (w_Writer ?w) = None" using assms(2) by simp
  then obtain w' where w': "respond e 404 (''404 page not found'' @ [CHR 0x0A]) ?w = (Some 404, w')"
      "w_State w' = w_State ?w" "w_Trace w' = w_Trace ?w" "sends 404 (rw_Header (w_Writer ?w)) (''404 page not found'' @ [CHR 0x0A]) (w_Writer ?w) (w_Writer w')"
    by (rule respond_sends [where status = 404 and e = e]) simp_all
  from assms(3) have "matchPath (rq_Path r) = None"
    unfolding matchPath_def find_None_iff by metis
  with assms(1) w' show ?thesis by (auto simp: Handler_def notFound_def sends_def)
qed


subsection \<open>Probes and reports\<close>

text \<open>
  C38: the probes. \<open>GET /healthz\<close> is always answered with 200, and \<open>GET /readyz\<close> with 200 exactly if
  every alias has a route on a checked and healthy backend, with 503 otherwise; no token is
  asked for, and how busy the backends are makes no difference.
\<close>

theorem probes_answer:
  assumes "ready_world w" and "rq_Method r = ''GET''" and "routed r Readyz" and "routed r' Healthz" and "rq_Method r' = ''GET''"
  shows "\<exists>w' w''. Handler e srv r w = (True, w') \<and> Handler e srv r' w = (True, w'') \<and>
    rw_Status (w_Writer w') =
      Some (if \<forall>a\<in>set (st_aliasOrder (w_State w)). \<exists>rt\<in>set (as_routes a). usable (w_State w) (routeBackend rt) then 200 else 503) \<and>
    rw_Status (w_Writer w'') = Some 200"
proof -
  let ?w = "setHeader ''Content-Type'' ''text/plain; charset=utf-8'' w"
  from assms(1) have st: "rw_Status (w_Writer ?w) = None" and inv: "invState (w_State w)" and met: "st_metrics (w_State w) \<noteq> None"
    by (simp_all add: ready_world_def)
  have resp: "\<exists>w1. respond e code body ?w = (Some code, w1) \<and> w_State w1 = w_State w \<and> rw_Status (w_Writer w1) = Some code"
    if "200 \<le> code" "code \<le> 999" for code body
    by (rule respond_sends [OF st that, of e body]) (auto simp: sends_def)
  have ins: "\<exists>w2. instrumented e srv route False handler x w = (True, w2) \<and> w_Writer w2 = w_Writer w1"
    if "handler e x w = (Some code, w1)" "w_State w1 = w_State w" for route handler x code w1
    using that met by (auto simp: instrumented_def Let_def)
  define ok where "ok = (\<forall>a\<in>set (st_aliasOrder (w_State w)). \<exists>rt\<in>set (as_routes a). usable (w_State w) (routeBackend rt))"
  have "Ready (w_State w) = Some ok" unfolding ok_def by (rule Ready_eq [OF inv])
  with resp [of 200 "''ready'' @ [CHR 0x0A]"] resp [of 503 "''not ready'' @ [CHR 0x0A]"] assms(2)
  obtain w1 where w1: "handleReadyz e r w = (Some (if ok then 200 else 503), w1)" "w_State w1 = w_State w"
      "rw_Status (w_Writer w1) = Some (if ok then 200 else 503)"
    by (cases ok) (auto simp: handleReadyz_def Let_def)
  from resp [of 200 "''ok'' @ [CHR 0x0A]"] assms(5) obtain v1 where v1: "handleHealthz e r' w = (Some 200, v1)" "w_State v1 = w_State w"
      "rw_Status (w_Writer v1) = Some 200" by (auto simp: handleHealthz_def)
  from ins [where handler = handleReadyz and x = r and route = RouteReadyz, OF w1(1,2)] obtain w' where
    "instrumented e srv RouteReadyz False handleReadyz r w = (True, w')" "w_Writer w' = w_Writer w1" by blast
  moreover from ins [where handler = handleHealthz and x = r' and route = RouteHealthz, OF v1(1,2)] obtain w'' where
    "instrumented e srv RouteHealthz False handleHealthz r' w = (True, w'')" "w_Writer w'' = w_Writer v1" by blast
  ultimately show ?thesis using w1(3) v1(3) assms(3,4) unfolding ok_def [symmetric] by (auto simp: Handler_def routed_def)
qed


text \<open>What the status page must not show: base URLs, credentials, clients, timeouts and upstream models.\<close>

definition redactBackend :: "Backend \<Rightarrow> Backend" where
  "redactBackend b = b\<lparr>b_BaseURL := emptyURL, b_ResponseHeaderTimeout := 0, b_ResponseIdleTimeout := 0, b_token := '''',
     b_client := NewHealthClient\<rparr>"

definition redactRoute :: "Route \<Rightarrow> Route" where
  "redactRoute r = r\<lparr>r_Backend := redactBackend (r_Backend r), r_UpstreamModel := '''', r_Priority := 0\<rparr>"

definition redactAlias :: "aliasState \<Rightarrow> aliasState" where
  "redactAlias a = a\<lparr>as_routes := map redactRoute (as_routes a)\<rparr>"

definition redact :: "State \<Rightarrow> State" where
  "redact s = s\<lparr>st_cells := map (\<lambda>bs. bs\<lparr>bs_backend := redactBackend (bs_backend bs)\<rparr>) (st_cells s),
     st_aliases := \<lambda>n. map_option redactAlias (st_aliases s n), st_aliasOrder := map redactAlias (st_aliasOrder s)\<rparr>"

lemma bsOf_redact:
  assumes "wf_state s"
  shows "bsOf (redact s) n = map_option (\<lambda>bs. bs\<lparr>bs_backend := redactBackend (bs_backend bs)\<rparr>) (bsOf s n)"
  using wf_state_pointer(1) [OF assms] by (cases "st_backends s n") (simp_all add: bsOf_def redact_def)

lemma aliasReadyLoop_redact:
  assumes "wf_state s"
  shows "aliasReadyLoop (redact s) (map redactRoute rs) = aliasReadyLoop s rs"
proof (induction rs)
  case (Cons r rs)
  have "b_Name (r_Backend (redactRoute r)) = b_Name (r_Backend r)" by (simp add: redactRoute_def redactBackend_def)
  with Cons show ?case by (cases "bsOf s (b_Name (r_Backend r))") (simp_all add: bsOf_redact [OF assms])
qed simp

lemma aliasStatuses_redact:
  assumes "wf_state s"
  shows "aliasStatuses (redact s) (map redactAlias as) = aliasStatuses s as"
proof (induction as)
  case (Cons a as)
  have "aliasReadyLocked (redact s) (redactAlias a) = aliasReadyLocked s a"
    by (simp add: aliasReadyLocked_def redactAlias_def aliasReadyLoop_redact [OF assms])
  moreover have "as_name (redactAlias a) = as_name a" "length (as_routes (redactAlias a)) = length (as_routes a)"
    by (simp_all add: redactAlias_def)
  ultimately show ?case using Cons by (simp cong: option.case_cong)
qed simp

lemma Snapshot_redact:
  assumes "wf_state s"
  shows "Snapshot (redact s) = Snapshot s"
proof -
  have "backendStatus (bs\<lparr>bs_backend := redactBackend (bs_backend bs)\<rparr>) = backendStatus bs" for bs
    by (simp add: backendStatus_def redactBackend_def)
  moreover have "st_order s = [0..<length (st_cells s)]" using assms by (simp add: wf_state_def)
  moreover have "st_order (redact s) = st_order s" "st_aliasOrder (redact s) = map redactAlias (st_aliasOrder s)"
    by (simp_all add: redact_def)
  ultimately have "map (\<lambda>p. backendStatus (st_cells (redact s) ! p)) (st_order (redact s)) =
      map (\<lambda>p. backendStatus (st_cells s ! p)) (st_order s)" and "st_aliasOrder (redact s) = map redactAlias (st_aliasOrder s)"
    by (simp_all add: redact_def)
  then show ?thesis by (simp add: Snapshot_def aliasStatuses_redact [OF assms])
qed

text \<open>
  C39: the status page hides the topology. The response to a request for the router's status or
  for the model list is the same, byte for byte, in a state from which all base URLs, tokens,
  timeouts, priorities and upstream model names have been erased.
\<close>

theorem status_hides_topology:
  assumes "invState (w_State w)"
  shows "w_Writer (snd (handleRouterStatus e r (onState redact w))) = w_Writer (snd (handleRouterStatus e r w)) \<and>
    w_Writer (snd (handleModels e r (onState redact w))) = w_Writer (snd (handleModels e r w))"
proof -
  have snap: "Snapshot (redact (w_State w)) = Snapshot (w_State w)" by (rule Snapshot_redact [OF invState_wf [OF assms]])
  have names: "AliasNames (redact (w_State w)) = AliasNames (w_State w)"
    by (simp add: AliasNames_def redact_def redactAlias_def)
  have set: "w_Writer (setHeader k v (onState redact w)) = w_Writer (setHeader k v w)" for k v by (simp add: setHeader_def)
  have resp: "w_Writer (snd (respond e st b x)) = w_Writer (snd (respond e st b y))" if "w_Writer x = w_Writer y" for st b x y
    using that by (simp add: respond_def split: option.splits)
  have err: "w_Writer (snd (writeError e er x)) = w_Writer (snd (writeError e er y))" if "w_Writer x = w_Writer y" for er x y
    unfolding writeError_def using that by (intro resp) (simp add: setHeader_def)
  show ?thesis
    using err [OF set] resp [OF set] set snap
    by (auto simp: handleRouterStatus_def handleModels_def Let_def names split: option.splits)
qed


subsection \<open>Concrete requests\<close>

definition exApi :: apiEnv where
  "exApi = \<lparr>api_Proxy = exEnv 200, api_Elapsed = 7, api_Metrics = \<lambda>_ _ rw. rw, api_Redirect = \<lambda>_ rw. rw\<rparr>"

definition exGet :: "string \<Rightarrow> Request" where
  "exGet path = \<lparr>rq_Method = ''GET'', rq_Path = path, rq_Header = [], rq_Body = ([], None)\<rparr>"

lemma exWorld_ready: "ready_world exWorld"
  using exState_inv exState_metrics by (simp add: ready_world_def newResponseWriter_def)

lemma exRouted:
  "routed (exGet ''/router/status'') RouterStatus" "routed (exGet ''/readyz'') Readyz" "routed (exGet ''/healthz'') Healthz"
  "routed (exGet ''/v1/models'') Models"
  by (simp_all add: routed_def exGet_def cleanPath_def matchPath_def pattern_def pathSegments_def pathUnescape_def Let_def)

lemma exGet_unauthorized: "\<not> authorized (srv_auth (NewServer ''secret'')) (exGet path)"
  by (simp add: authorized_def enabled_def NewServer_def exGet_def Header_Get_def Let_def)

theorem unauthorized_refused_witness:
  "\<exists>w'. Handler exApi (NewServer ''secret'') (exGet ''/router/status'') exWorld = (True, w') \<and>
     rw_Status (w_Writer w') = Some 401 \<and> w_Trace w' = []"
proof -
  have "needsToken RouterStatus" "rw_Status (w_Writer exWorld) = None" "st_metrics (w_State exWorld) \<noteq> None"
    using exState_metrics by (simp_all add: needsToken_def newResponseWriter_def)
  from unauthorized_refused [OF exRouted(1) this(1) exGet_unauthorized this(2,3), of exApi] show ?thesis
    by (auto simp: sends_def)
qed

theorem chat_admission_witness:
  "\<exists>w'. handleChat exApi (exGet ''/v1/chat/completions'') exWorld = (Some 405, w') \<and> w_State w' = exState"
proof -
  have "\<not> acceptable (exGet ''/v1/chat/completions'') al payload" for al payload by (simp add: acceptable_def exGet_def)
  moreover have "refusalStatus (exGet ''/v1/chat/completions'') = 405" by (simp add: refusalStatus_def exGet_def)
  moreover have "rw_Status (w_Writer exWorld) = None" by (simp add: newResponseWriter_def)
  ultimately show ?thesis using chat_admission [of exWorld "exGet ''/v1/chat/completions''" exApi] by auto
qed

theorem requests_counted_once_witness:
  "\<exists>l status w'. Handler exApi (NewServer ''secret'') (exGet ''/readyz'') exWorld = (True, w') \<and>
     httpLog (w_State w') = Some (l @ [CounterInc HttpRequests [''readyz'', statusLabel status]]) \<and>
     (rw_Status (w_Writer w') = Some status \<or> status = 499)"
proof -
  have "routeLabel Readyz = Some ''readyz''" by (simp add: routeLabel_def RouteReadyz_def)
  moreover obtain b w' where h: "Handler exApi (NewServer ''secret'') (exGet ''/readyz'') exWorld = (b, w')" by fastforce
  moreover have "env_Do (api_Proxy exApi) n req = Inr (exResponse 200)" for n req by (simp add: exApi_def exEnv_def)
  moreover have "up_StatusCode (exResponse 200) = 200" by (simp add: exResponse_def)
  ultimately show ?thesis
    using requests_counted_once [OF exWorld_ready exRouted(2), of "''readyz''" exApi "NewServer ''secret''"]
    by (cases b) auto
qed

theorem Handler_keeps_capacity_witness:
  "\<exists>w'. Handler exApi (NewServer '''') (exGet ''/v1/models'') exWorld = (True, w') \<and> load (w_State w') ''a'' = load exState ''a''"
proof -
  obtain b w' where h: "Handler exApi (NewServer '''') (exGet ''/v1/models'') exWorld = (b, w')" by fastforce
  from Handler_keeps_capacity [OF exWorld_ready, where e = exApi and srv = "NewServer ''''" and r = "exGet ''/v1/models''"] h exRouted(4)
  show ?thesis by (cases b) (auto simp: routed_def)
qed

theorem unknown_path_404_witness:
  "\<exists>w'. Handler exApi (NewServer '''') (exGet ''/v1/embeddings'') exWorld = (True, w') \<and> rw_Status (w_Writer w') = Some 404"
proof -
  have "pathSegments (rq_Path (exGet ''/v1/embeddings'')) \<noteq> Split (CHR ''/'') (drop 1 (pattern ep))" for ep
    by (cases ep) (simp_all add: exGet_def pattern_def pathSegments_def pathUnescape_def)
  moreover have "cleanPath (rq_Path (exGet ''/v1/embeddings'')) = rq_Path (exGet ''/v1/embeddings'')"
    by (simp add: cleanPath_def exGet_def Let_def)
  moreover have "rw_Status (w_Writer exWorld) = None" by (simp add: newResponseWriter_def)
  ultimately show ?thesis using unknown_path_404 [of "exGet ''/v1/embeddings''" exWorld exApi] by blast
qed

theorem probes_answer_witness:
  "\<exists>w'. Handler exApi (NewServer ''secret'') (exGet ''/readyz'') exWorld = (True, w') \<and> rw_Status (w_Writer w') = Some 200"
proof -
  have "\<forall>a\<in>set (st_aliasOrder exState). \<exists>rt\<in>set (as_routes a). usable exState (routeBackend rt)"
    by (simp add: exState_simps usable_def exState_bsOf)
  with probes_answer [OF exWorld_ready _ exRouted(2,3), of exApi "NewServer ''secret''"] show ?thesis
    by (fastforce simp: exGet_def)
qed

theorem status_hides_topology_witness:
  "w_Writer (snd (handleRouterStatus exApi (exGet ''/router/status'') (onState redact exWorld))) =
   w_Writer (snd (handleRouterStatus exApi (exGet ''/router/status'') exWorld))"
  using status_hides_topology [of exWorld exApi "exGet ''/router/status''"] exState_inv by simp

end
