(* ===== verification/MetricsTyping.thy ===== *)
theory MetricsTyping
  imports Lifecycle Endpoints
begin

text \<open>
  The types of the metrics. The Prometheus library panics on a call whose number of label
  values is not that of the instrument, and every new label value is a new time series, so
  values must come from small known sets. Here each label has such a domain, read off the
  configured state or a fixed vocabulary, a call is typed if it fits its instrument and every
  label value lies in its label's domain, and every step of the process, whatever clients
  and backends send, makes typed calls only.
\<close>

subsection \<open>Domains\<close>

definition routeVocabulary :: "string list" where
  "routeVocabulary = [RouteChatCompletions, RouteModels, RouteHealthz, RouteReadyz, RouteRouterStatus]"

definition resultVocabulary :: "string list" where
  "resultVocabulary = [ResultResponse, ResultTransportError, ResultTimeout, ResultCanceled]"

definition reasonVocabulary :: "string list" where
  "reasonVocabulary = [ReasonTransportError, ReasonTimeout, ReasonStatus429, ReasonStatus502, ReasonStatus503, ReasonStatus504]"

definition backendNames :: "State \<Rightarrow> string list" where
  "backendNames s = map (\<lambda>bs. b_Name (bs_backend bs)) (st_cells s)"

definition labelDomain :: "State \<Rightarrow> string \<Rightarrow> string list" where
  "labelDomain s label =
     (if label = ''backend'' then backendNames s else if label = ''alias'' then AliasNames s
      else if label = ''route'' then routeVocabulary else if label = ''status'' then statusLabels
      else if label = ''result'' then resultVocabulary else if label = ''reason'' then reasonVocabulary else [])"

text \<open>The value of a gauge: a count, or 0 or 1 for health.\<close>

fun valueOk :: "prom_call \<Rightarrow> bool" where
  "valueOk (GaugeSet Healthy ls v) \<longleftrightarrow> v = 0 \<or> v = 1"
| "valueOk (GaugeSet i ls v) \<longleftrightarrow> 0 \<le> v"
| "valueOk c \<longleftrightarrow> True"

definition typedCall :: "State \<Rightarrow> prom_call \<Rightarrow> bool" where
  "typedCall s c \<longleftrightarrow> call_ok c \<and> valueOk c \<and>
     list_all2 (\<lambda>label v. v \<in> set (labelDomain s label)) (io_Labels (New (call_instrument c))) (call_labels c)"

definition typedLog :: "State \<Rightarrow> bool" where
  "typedLog s \<longleftrightarrow> (\<forall>m. st_metrics s = Some m \<longrightarrow> list_all (typedCall s) m)"

lemma labelDomain_shape: "same_shape s s' \<Longrightarrow> labelDomain s' = labelDomain s"
proof -
  assume sh: "same_shape s s'"
  have "backendNames t = map b_Name (map bs_backend (st_cells t))" for t by (simp add: backendNames_def)
  with same_shapeD(6) [OF sh] have "backendNames s' = backendNames s" by metis
  moreover have "AliasNames s' = AliasNames s" using sh by (simp add: AliasNames_def same_shape_def)
  ultimately show ?thesis by (simp add: labelDomain_def fun_eq_iff)
qed

lemma typedCall_shape: "same_shape s s' \<Longrightarrow> typedCall s' = typedCall s"
  by (simp add: typedCall_def fun_eq_iff labelDomain_shape)

lemma typedLog_emit: "typedLog s \<Longrightarrow> list_all (typedCall s) cs \<Longrightarrow> typedLog (emit cs s)"
  by (auto simp: typedLog_def typedCall_shape [OF same_shape_emit])

lemma typedLog_shape: "typedLog s \<Longrightarrow> same_shape s s' \<Longrightarrow> st_metrics s' = st_metrics s \<Longrightarrow> typedLog s'"
  by (simp add: typedLog_def typedCall_shape)

lemma backendNames_known: "wf_state s \<Longrightarrow> bsOf s n = Some bs \<Longrightarrow> n \<in> set (backendNames s)"
  using bsOf_Some_in_cells bsOf_Some_name by (fastforce simp: backendNames_def)

lemma AliasNames_known: "wf_state s \<Longrightarrow> st_aliases s a = Some al \<Longrightarrow> a \<in> set (AliasNames s)"
  by (force simp: AliasNames_def wf_state_def)

text \<open>The methods of \<open>Metrics\<close>, each with what it wants of its arguments.\<close>

lemma typed_methods:
  "b \<in> set (backendNames s) \<Longrightarrow> 0 \<le> v \<Longrightarrow> list_all (typedCall s) (SetInflight b v)"
  "b \<in> set (backendNames s) \<Longrightarrow> list_all (typedCall s) (SetHealthy b h)"
  "b \<in> set (backendNames s) \<Longrightarrow> list_all (typedCall s) (InitBackend b)"
  "b \<in> set (backendNames s) \<Longrightarrow> a \<in> set (AliasNames s) \<Longrightarrow> res \<in> set resultVocabulary \<Longrightarrow>
     list_all (typedCall s) (ObserveAttempt b a res t)"
  "a \<in> set (AliasNames s) \<Longrightarrow> reason \<in> set reasonVocabulary \<Longrightarrow> list_all (typedCall s) (Failover a reason)"
  "route \<in> set routeVocabulary \<Longrightarrow> list_all (typedCall s) (ObserveHTTP route status t)"
  using statusLabel_vocabulary [of status]
  by (auto simp: metric_defs typedCall_def call_ok_def labelDomain_def split: if_splits)


subsection \<open>The routing state\<close>

text \<open>A route whose names are known, used for an alias that is.\<close>

definition knownRoute :: "State \<Rightarrow> string \<Rightarrow> Route \<Rightarrow> bool" where
  "knownRoute s a r \<longleftrightarrow> routeBackend r \<in> set (backendNames s) \<and> r_Alias r \<in> set (AliasNames s) \<and> a \<in> set (AliasNames s)"

lemma knownRoute_alias:
  assumes "wf_state s" and "st_aliases s a = Some al" and "r \<in> set (as_routes al)"
  shows "knownRoute s a r"
proof -
  note al = wf_alias_ok [OF assms(1,2)]
  then obtain bs where "bsOf s (routeBackend r) = Some bs" using assms(3) by (auto simp: alias_ok_def)
  moreover have "r_Alias r = a" using al assms(3) by (auto simp: alias_ok_def)
  ultimately show ?thesis
    using backendNames_known [OF assms(1)] AliasNames_known [OF assms(1,2)] by (simp add: knownRoute_def)
qed

lemma inflight_nonneg: "invState s \<Longrightarrow> bsOf s n = Some bs \<Longrightarrow> 0 \<le> bs_inflight bs"
  using capacity_ok_bsOf by (auto simp: invState_def)

lemma Reserve_typed:
  assumes inv: "invState s" and log: "typedLog s" and res: "Reserve s a att = Some (x, s')"
  shows "typedLog s' \<and> same_shape s s' \<and> (\<forall>r. x = Inr r \<longrightarrow> knownRoute s a r)"
  using invState_wf [OF inv]
proof (cases rule: Reserve_cases [of s a att])
  case (granted al r bs t)
  from granted(8) res have eq: "x = Inr r" "s' = t" by simp_all
  let ?calls = "SetInflight (routeBackend r) (bs_inflight bs + 1)"
  from first_min_in_set [OF granted(2)] have known: "knownRoute s a r"
    by (intro knownRoute_alias [OF invState_wf [OF inv] granted(1)]) simp
  then have calls: "list_all (typedCall s) ?calls"
    using inflight_nonneg [OF inv granted(3)] by (simp add: knownRoute_def typed_methods)
  have "typedLog t"
    using log calls granted(6) by (auto simp: typedLog_def typedCall_shape [OF granted(4)])
  with known granted(4) eq show ?thesis by simp
qed (use log res in auto)

lemma Release_typed:
  assumes inv: "invState s" and log: "typedLog s" and rel: "Release_locked s route = (s', calls)"
  shows "typedLog s' \<and> same_shape s s' \<and> list_all (typedCall s) calls"
  using invState_wf [OF inv]
proof (cases rule: Release_locked_cases [of s route])
  case (idle r bs)
  with rel log inflight_nonneg [OF inv idle(2)] backendNames_known [OF invState_wf [OF inv] idle(2)]
  show ?thesis by (simp add: typed_methods)
next
  case (freed r bs t)
  with rel have "s' = t" "calls = SetInflight (routeBackend r) (bs_inflight bs - 1)" by simp_all
  with freed typedLog_shape [OF log freed(4,6)] backendNames_known [OF invState_wf [OF inv] freed(2)]
  show ?thesis by (simp add: typed_methods)
qed (use log rel in auto)

lemma SetHealth_typed:
  assumes inv: "invState s" and log: "typedLog s" and set: "SetHealth_locked s n h = (s', calls)"
  shows "typedLog s' \<and> same_shape s s' \<and> list_all (typedCall s) calls"
  using invState_wf [OF inv]
proof (cases rule: SetHealth_locked_cases [of s n h])
  case (recorded bs t)
  with set have "s' = t" "calls = SetHealthy n h" by simp_all
  with recorded typedLog_shape [OF log recorded(2,4)] backendNames_known [OF invState_wf [OF inv] recorded(1)]
  show ?thesis by (simp add: typed_methods)
qed (use log set in auto)

lemma Swap_typed:
  assumes inv: "invState s" and log: "typedLog s" and swap: "SwapReservation_locked s a current att = Some (x, s', calls)"
  shows "typedLog s' \<and> same_shape s s' \<and> list_all (typedCall s) calls \<and> (\<forall>r. x = Inr r \<longrightarrow> knownRoute s a r)"
  using invState_wf [OF inv]
proof (cases rule: SwapReservation_locked_cases [of s a current att])
  case (moved cur cbs al freed r sbs t)
  from moved(12) swap have eq: "x = Inr r" "s' = t" and calls: "calls =
      (if routeBackend cur \<noteq> routeBackend r then SetInflight (routeBackend cur) (load t (routeBackend cur)) else [])
         @ SetInflight (routeBackend r) (load t (routeBackend r))" by simp_all
  from first_min_in_set [OF moved(6)] have known: "knownRoute s a r"
    by (intro knownRoute_alias [OF invState_wf [OF inv] moved(2)]) simp
  have "invState t" using inv same_shape_wf [OF moved(8)] moved(11) by (simp add: invState_def)
  then have "0 \<le> load t b" for b by (rule load_nonneg)
  with known backendNames_known [OF invState_wf [OF inv] moved(3)] have "list_all (typedCall s) calls"
    unfolding calls by (simp add: knownRoute_def typed_methods)
  with typedLog_shape [OF log moved(8,10)] moved(8) known eq show ?thesis by simp
qed (use log swap in auto)

text \<open>The state \<open>serve\<close> starts with.\<close>

lemma initLog:
  "st_metrics (newState_backends bs s) = map_option (\<lambda>m. m @ concat (map (\<lambda>b. InitBackend (b_Name b)) bs)) (st_metrics s)"
proof (induction bs arbitrary: s)
  case (Cons b bs)
  then show ?case by (cases "st_metrics s") (simp_all add: addBackend_def)
qed (simp add: option.map_ident)

lemma newState_aliases_log: "newState_aliases acs s = Inr s' \<Longrightarrow> st_metrics s' = st_metrics s"
  by (induction acs arbitrary: s) (auto simp: addAlias_def Let_def split: sum.splits)

lemma NewState_typed:
  assumes "NewState cfg bs (Some []) = Inr s"
  shows "typedLog s"
proof -
  have "st_metrics s = Some (concat (map (\<lambda>b. InitBackend (b_Name b)) bs))"
    using assms newState_aliases_log by (fastforce simp: NewState_def initLog emptyState_def)
  moreover have "backendNames s = map b_Name bs" using NewState_Inr(3) [OF assms] by (simp add: backendNames_def)
  moreover from this have "list_all (typedCall s) (InitBackend (b_Name b))" if "b \<in> set bs" for b
    using that by (intro typed_methods(3)) simp
  ultimately show ?thesis by (auto simp: typedLog_def list_all_iff)
qed


subsection \<open>Requests and probes\<close>

text \<open>
  What a request may hold at each control point: a known route, a known alias once it has had a
  route, and a reason of the vocabulary.
\<close>

fun typedCtl :: "State \<Rightarrow> string \<Rightarrow> ctl \<Rightarrow> bool" where
  "typedCtl s a (Attempting r att) = knownRoute s a r"
| "typedCtl s a (Canceling r) = knownRoute s a r"
| "typedCtl s a (Failing r att err) = knownRoute s a r"
| "typedCtl s a (Releasing r att err) = knownRoute s a r"
| "typedCtl s a (Retrying att err) = (a \<in> set (AliasNames s))"
| "typedCtl s a (Swapping r att reason resp) = (knownRoute s a r \<and> reason \<in> set reasonVocabulary)"
| "typedCtl s a (Forwarding r resp) = knownRoute s a r"
| "typedCtl s a (Finishing r res) = knownRoute s a r"
| "typedCtl s a c = True"

definition typedThread :: "State \<Rightarrow> thread \<Rightarrow> bool" where
  "typedThread s t \<longleftrightarrow> typedCtl s (th_alias t) (th_ctl t) \<and> list_all (typedCall s) (th_pending t)"

lemma knownRoute_shape: "same_shape s s' \<Longrightarrow> knownRoute s' = knownRoute s"
proof -
  assume "same_shape s s'"
  from labelDomain_shape [OF this] have "labelDomain s' ''backend'' = labelDomain s ''backend''"
    "labelDomain s' ''alias'' = labelDomain s ''alias''" by simp_all
  then show ?thesis by (simp add: labelDomain_def knownRoute_def fun_eq_iff)
qed

lemma AliasNames_shape: "same_shape s s' \<Longrightarrow> AliasNames s' = AliasNames s"
  by (simp add: AliasNames_def same_shape_def)

lemma typedThread_shape: "same_shape s s' \<Longrightarrow> typedThread s' t = typedThread s t"
  by (cases "th_ctl t") (simp_all add: typedThread_def knownRoute_shape AliasNames_shape typedCall_shape)

lemma knownRoute_attempt:
  "knownRoute s a r \<Longrightarrow> res \<in> set resultVocabulary \<Longrightarrow> list_all (typedCall s) (attemptCalls r res t)"
  by (simp add: knownRoute_def attemptCalls_def typed_methods)

lemma vocabularies [simp]:
  "ResultResponse \<in> set resultVocabulary" "ResultCanceled \<in> set resultVocabulary"
  "ResultTimeout \<in> set resultVocabulary" "ResultTransportError \<in> set resultVocabulary"
  "ReasonTimeout \<in> set reasonVocabulary" "ReasonTransportError \<in> set reasonVocabulary"
  by (simp_all add: resultVocabulary_def reasonVocabulary_def)

lemma retryableStatus_vocabulary: "retryableStatus st = Some reason \<Longrightarrow> reason \<in> set reasonVocabulary"
  by (auto simp: retryableStatus_def reasonVocabulary_def split: if_splits)

lemma typed_failover: "a \<in> set (AliasNames s) \<Longrightarrow>
    list_all (typedCall s) (Failover a (if isTimeout err then ReasonTimeout else ReasonTransportError))"
  by (simp add: typed_methods)

lemma knownRoute_aliasD: "knownRoute s a r \<Longrightarrow> a \<in> set (AliasNames s)"
  by (simp add: knownRoute_def)

text \<open>Subject reduction: a step of a typed request on a typed state leaves both typed.\<close>

lemma req_step_typed:
  assumes "req_step t s t' s'" and "invState s" and "typedLog s" and "typedThread s t"
  shows "invState s' \<and> same_shape s s' \<and> typedLog s' \<and> typedThread s' t'"
proof -
  have "invState s' \<and> same_shape s s' \<and> typedLog s' \<and> typedThread s t'"
    using assms
  proof (induction rule: req_step.induct)
    case (publishes a c call calls s)
    then show ?case by (simp add: typedThread_def typedLog_emit)
  next
    case (starts s a res s')
    with Reserve_typed [OF starts(2,3,1)] Reserve_inv [OF starts(2,1)] show ?case
      by (auto simp: typedThread_def afterStart_def split: sum.splits routeError.splits)
  next
    case (attempt_answers a r att s resp elapsed)
    then show ?case using retryableStatus_vocabulary
      by (auto simp: typedThread_def knownRoute_attempt split: option.splits)
  next
    case (cancel_releases s r s' calls a elapsed)
    with Release_typed [OF cancel_releases(2,3,1)] Release_locked_inv [OF cancel_releases(2,1)] show ?case
      by (simp add: typedThread_def knownRoute_attempt)
  next
    case (fail_quarantines s r s' calls a att err)
    with SetHealth_typed [OF fail_quarantines(2,3,1)] SetHealth_locked_inv [OF fail_quarantines(2,1)] show ?case
      by (simp add: typedThread_def)
  next
    case (fail_releases s r s' calls a att err elapsed)
    with Release_typed [OF fail_releases(2,3,1)] Release_locked_inv [OF fail_releases(2,1)] show ?case
      by (simp add: typedThread_def knownRoute_attempt knownRoute_aliasD)
  next
    case (gives_up s a att e s' err)
    with Reserve_typed [OF gives_up(2,3,1)] Reserve_inv [OF gives_up(2,1)] show ?case by (simp add: typedThread_def)
  next
    case (fails_over s a att nxt s' err)
    with Reserve_typed [OF fails_over(2,3,1)] Reserve_inv [OF fails_over(2,1)] show ?case
      by (simp add: typedThread_def typed_failover)
  next
    case (swaps s a r att nxt s' calls reason resp)
    with Swap_typed [OF swaps(2,3,1)] SwapReservation_locked_inv [OF swaps(2,1)] knownRoute_aliasD [of s a r] show ?case
      by (simp add: typedThread_def typed_methods)
  next
    case (swap_refused s a r att e s' calls reason resp)
    with Swap_typed [OF swap_refused(2,3,1)] SwapReservation_locked_inv [OF swap_refused(2,1)] show ?case
      by (simp add: typedThread_def)
  next
    case (finishes s r s' calls a res)
    with Release_typed [OF finishes(2,3,1)] Release_locked_inv [OF finishes(2,1)] show ?case
      by (simp add: typedThread_def)
  qed (simp_all add: typedThread_def)
  then show ?thesis using typedThread_shape [of s s' t'] by simp
qed

definition typedPool :: "pool \<Rightarrow> bool" where
  "typedPool p \<longleftrightarrow> invState (po_State p) \<and> typedLog (po_State p) \<and>
     (\<forall>t\<in>set (po_Requests p). typedThread (po_State p) t) \<and>
     (\<forall>calls\<in>set (po_Probes p). list_all (typedCall (po_State p)) calls)"

text \<open>The state of the pool changes, and one element of a list that is typed with it.\<close>

lemma typedPool_step:
  assumes "typedPool p" and "pool_step p p'"
  shows "typedPool p' \<and> same_shape (po_State p) (po_State p')"
  using assms(2,1)
proof (induction rule: pool_step.induct)
  case (request i p t' s')
  then have "typedThread (po_State p) (po_Requests p ! i)" by (simp add: typedPool_def)
  with request req_step_typed [OF request(2)] have s: "invState s'" "same_shape (po_State p) s'" "typedLog s'" "typedThread s' t'"
    by (simp_all add: typedPool_def)
  with request(3) show ?case
    by (auto simp: typedPool_def typedThread_shape [OF s(2)] typedCall_shape [OF s(2)] dest!: set_update_subset_insert [THEN subsetD])
next
  case (arrival p a)
  then show ?case by (auto simp: typedPool_def typedThread_def)
next
  case (probe i p b healthy s' calls)
  then have inv: "invState (po_State p)" "typedLog (po_State p)" by (simp_all add: typedPool_def)
  note s = SetHealth_typed [OF inv probe(3)] SetHealth_locked_inv [OF inv(1) probe(3)]
  then have sh: "same_shape (po_State p) s'" by simp
  with s probe(4) show ?case
    by (auto simp: typedPool_def typedThread_shape [OF sh] typedCall_shape [OF sh] dest!: set_update_subset_insert [THEN subsetD])
next
  case (probe_publishes i p call calls)
  then have "call # calls \<in> set (po_Probes p)" by (metis nth_mem)
  with probe_publishes(3) have c: "typedCall (po_State p) call" "list_all (typedCall (po_State p)) calls"
    by (auto simp: typedPool_def)
  have sh: "same_shape (po_State p) (emit [call] (po_State p))" by simp
  from probe_publishes(3) c show ?case
    by (auto simp: typedPool_def typedThread_shape [OF sh] typedCall_shape [OF sh] typedLog_emit dest!: set_update_subset_insert [THEN subsetD])
qed

lemma reachable_typed:
  assumes "reachable s0 n p" and "invState s0" and "typedLog s0"
  shows "typedPool p \<and> same_shape s0 (po_State p)"
  using assms
proof (induction rule: reachable.induct)
  case initial
  then show ?case by (auto simp: typedPool_def initialPool_def)
next
  case (step p p')
  with typedPool_step [OF _ step(2)] show ?case by (blast intro: same_shape_trans)
qed


subsection \<open>The endpoints\<close>

text \<open>What a request alone does is what \<open>Serve\<close> does, so \<open>Serve\<close> makes typed calls.\<close>

lemma alone_typed:
  assumes "alone x y" and "invState (snd x)" and "typedLog (snd x)" and "typedThread (snd x) (fst x)"
  shows "invState (snd y) \<and> same_shape (snd x) (snd y) \<and> typedLog (snd y) \<and> typedThread (snd y) (fst y)"
  using assms(1) unfolding alone_def
proof (induction rule: rtranclp_induct)
  case (step y z)
  with req_step_typed [OF step(2)] show ?case by (auto intro: same_shape_trans)
qed (use assms(2-4) in simp)

lemma Serve_typed:
  assumes "Serve e h a payload w = (res, w')" and "invState (w_State w)" and "typedLog (w_State w)"
    and "st_metrics (w_State w) \<noteq> None"
  shows "same_shape (w_State w) (w_State w') \<and> typedLog (w_State w')"
proof -
  obtain c where "alone (at a Start [], w_State w) (at a c [], w_State w')"
    using assms alone_Serve alone_Serve_panics by (cases res) blast+
  from alone_typed [OF this] assms(2,3) show ?thesis by (simp add: typedThread_def)
qed

lemma respond_state: "respond e st body w = (x, w') \<Longrightarrow> w_State w' = w_State w"
  by (auto simp: respond_def split: option.splits)

lemma writeError_state: "writeError e err w = (x, w') \<Longrightarrow> w_State w' = w_State w"
  unfolding writeError_def by (drule respond_state) simp

lemma writeUnauthorized_state: "writeUnauthorized e w = (x, w') \<Longrightarrow> w_State w' = w_State w"
  unfolding writeUnauthorized_def by (drule writeError_state) simp

lemmas response_states = respond_state writeError_state writeUnauthorized_state

text \<open>
  The contract of a handler: whether it returns or panics, it makes typed calls and keeps the
  configuration.
\<close>

locale recording_handler =
  fixes handler :: "apiEnv \<Rightarrow> Request \<Rightarrow> world \<Rightarrow> handled"
  assumes records: "handler e r w = (x, w') \<Longrightarrow> invState (w_State w) \<Longrightarrow> typedLog (w_State w) \<Longrightarrow>
    st_metrics (w_State w) \<noteq> None \<Longrightarrow> same_shape (w_State w) (w_State w') \<and> typedLog (w_State w')"
begin

lemma instrumented_typed:
  assumes "instrumented e srv route prot handler r w = (ok, w')" and "invState (w_State w)" and "typedLog (w_State w)"
    and "st_metrics (w_State w) \<noteq> None" and "route \<in> set routeVocabulary"
  shows "same_shape (w_State w) (w_State w') \<and> typedLog (w_State w')"
proof -
  obtain x w1 where x: "(if \<not> prot \<or> authorized (srv_auth srv) r then handler e r w else writeUnauthorized e w) = (x, w1)"
    by fastforce
  then have w1: "same_shape (w_State w) (w_State w1) \<and> typedLog (w_State w1)"
    using records [OF _ assms(2-4)] writeUnauthorized_state assms(3) by (auto split: if_splits)
  show ?thesis
  proof (cases x)
    case None
    with assms(1) x w1 show ?thesis by (simp add: instrumented_def)
  next
    case (Some status)
    from w1 assms(4) have "st_metrics (w_State w1) \<noteq> None" by (simp add: same_shape_def)
    with assms(1) x Some have "w_State w' = emit (ObserveHTTP route status (api_Elapsed e)) (w_State w1)"
      by (auto simp: instrumented_def Let_def split: option.splits if_splits)
    with w1 typedLog_emit [OF _ typed_methods(6) [OF assms(5)]] show ?thesis by (simp add: same_shape_emitI)
  qed
qed

end

lemma quiet_handler:
  "(\<And>e r w x w'. handler e r w = (x, w') \<Longrightarrow> w_State w' = w_State w) \<Longrightarrow> recording_handler handler"
  by unfold_locales simp

interpretation typed_healthz: recording_handler handleHealthz
  by (rule quiet_handler) (auto simp: handleHealthz_def dest!: response_states split: if_splits)

interpretation typed_models: recording_handler handleModels
  by (rule quiet_handler) (auto simp: handleModels_def dest!: response_states split: if_splits)

interpretation typed_readyz: recording_handler handleReadyz
  by (rule quiet_handler) (auto simp: handleReadyz_def Let_def dest!: response_states split: if_splits option.splits)

interpretation typed_routerStatus: recording_handler handleRouterStatus
  by (rule quiet_handler) (auto simp: handleRouterStatus_def Let_def dest!: response_states split: if_splits option.splits)

lemma decodeChatBody_state: "decodeChatBody r w = (x, w') \<Longrightarrow> w_State w' = w_State w"
  by (auto simp: decodeChatBody_def Let_def split: sum.splits readError.splits option.splits if_splits)

interpretation typed_chat: recording_handler handleChat
proof unfold_locales
  fix e r w x w'
  assume h: "handleChat e r w = (x, w')"
    and s: "invState (w_State w)" "typedLog (w_State w)" "st_metrics (w_State w) \<noteq> None"
  show "same_shape (w_State w) (w_State w') \<and> typedLog (w_State w')"
  proof (cases "\<exists>al payload. acceptable r al payload")
    case True
    then obtain al payload where "handleChat e r w = conclude e (Serve (api_Proxy e) (rq_Header r) al payload w)"
      using handleChat_acceptable by blast
    moreover obtain res w1 where run: "Serve (api_Proxy e) (rq_Header r) al payload w = (res, w1)" by fastforce
    ultimately have "w_State w' = w_State w1"
      using h by (cases res) (auto simp: conclude_def dest!: response_states response_states [OF sym] split: option.splits)
    with Serve_typed [OF run s] show ?thesis by simp
  next
    case False
    then obtain err w1 where "handleChat e r w = writeError e err w1" "w_State w1 = w_State w"
      by (rule handleChat_refused [of r e w]) blast
    with h s show ?thesis by (auto dest!: response_states)
  qed
qed


subsection \<open>The whole server\<close>

text \<open>
  The requests of the API are typed. Whatever request a client sends to whichever path, all calls
  made on the instruments are typed, the count of the request included, and the configuration that
  the labels come from is as before, also when the handler panics.
\<close>

lemma Handler_typed:
  assumes "invState (w_State w)" and "typedLog (w_State w)" and "st_metrics (w_State w) \<noteq> None"
    and "Handler e srv r w = (ok, w')"
  shows "same_shape (w_State w) (w_State w') \<and> typedLog (w_State w')"
proof -
  have voc: "RouteChatCompletions \<in> set routeVocabulary" "RouteModels \<in> set routeVocabulary" "RouteHealthz \<in> set routeVocabulary"
    "RouteReadyz \<in> set routeVocabulary" "RouteRouterStatus \<in> set routeVocabulary" by (simp_all add: routeVocabulary_def)
  note typed = typed_chat.instrumented_typed [OF _ assms(1-3) voc(1)] typed_models.instrumented_typed [OF _ assms(1-3) voc(2)]
    typed_healthz.instrumented_typed [OF _ assms(1-3) voc(3)] typed_readyz.instrumented_typed [OF _ assms(1-3) voc(4)]
    typed_routerStatus.instrumented_typed [OF _ assms(1-3) voc(5)]
  show ?thesis
  proof (cases "rq_Method r \<noteq> ''CONNECT'' \<and> cleanPath (rq_Path r) \<noteq> rq_Path r")
    case True
    with assms show ?thesis by (auto simp: Handler_def)
  next
    case False
    show ?thesis
    proof (cases "matchPath (rq_Path r)")
      case None
      with False assms show ?thesis by (auto simp: Handler_def notFound_def dest!: response_states split: prod.splits option.splits)
    next
      case (Some ep)
      show ?thesis
        using False assms Some typed
        by (cases ep) (auto simp: Handler_def protectedRaw_def dest!: writeUnauthorized_state split: prod.splits option.splits if_splits)
    qed
  qed
qed

lemma counted_typed: "list_all (typedCall s) (counted e ep status)"
  by (auto simp: counted_def routeLabel_def routeVocabulary_def intro!: typed_methods(6) split: endpoint.split option.split)


subsection \<open>Properties\<close>

text \<open>
  C13: the metrics are typed. Throughout the life of a process started from a configuration, every
  call made on an instrument, and every one still to be made, has the kind and the number of
  labels the instrument was created with; a count is not negative and a health gauge is 0 or 1;
  and a backend label is a configured backend, an alias label a configured alias, and every other
  label a word of its fixed vocabulary, however requests, probes, failures and signals interleave
  and whatever clients and backends send. The same holds of the HTTP layer: the calls that count
  a request of any endpoint under any status are typed at every moment, and from every state of
  the process a request to any path makes typed calls only, whether it returns or panics.
\<close>

theorem serve_metrics_typed:
  assumes "Load (pr_Files pr) (pr_Yaml pr) path = Inr cfg" and "serveStart pr path = Inr l0" and "life_run l0 l"
    and "s = po_State (li_Pool l)"
  shows "(\<exists>m. st_metrics s = Some m \<and> list_all (typedCall s) m) \<and>
    (\<forall>t\<in>set (po_Requests (li_Pool l)). list_all (typedCall s) (th_pending t)) \<and>
    (\<forall>calls\<in>set (po_Probes (li_Pool l)). list_all (typedCall s) calls) \<and>
    (\<forall>e ep status. list_all (typedCall s) (counted e ep status)) \<and>
    (\<forall>e srv r w ok w'. w_State w = s \<and> Handler e srv r w = (ok, w') \<longrightarrow>
       labelDomain (w_State w') = labelDomain s \<and> (\<exists>m. st_metrics (w_State w') = Some m \<and> list_all (typedCall s) m)) \<and>
    labelDomain s ''backend'' = map bc_Name (cfg_Backends cfg) \<and> labelDomain s ''alias'' = map ac_Name (cfg_Aliases cfg)"
proof -
  from serveStart_Inr [OF assms(2)] assms(1) obtain bs s0 where bs: "Build (cfg_Backends cfg) (pr_Env pr) = Inr bs"
    and s0: "NewState cfg bs (Some []) = Inr s0" "invState s0" and l0: "l0 = startLife cfg bs s0" by auto
  have "reachable s0 (length bs) (li_Pool l)" using assms(3) unfolding l0 by (rule life_run_reachable(2))
  from reachable_typed [OF this s0(2) NewState_typed [OF s0(1)]] have p: "typedPool (li_Pool l)" and sh: "same_shape s0 s"
    by (simp_all add: assms(4))
  have log0: "st_metrics s0 \<noteq> None"
    using s0(1) newState_aliases_log by (fastforce simp: NewState_def initLog emptyState_def)
  have "list_all2 describes (cfg_Backends cfg) bs"
    using Build_describes [OF bs] assms(1) by (auto simp: Load_Inr valid_config_def)
  then have names: "map b_Name bs = map bc_Name (cfg_Backends cfg)"
    by (induction rule: list_all2_induct) (auto simp: describes_def)
  have "labelDomain s0 ''backend'' = map b_Name bs"
    using NewState_Inr(3) [OF s0(1)] by (simp add: labelDomain_def backendNames_def)
  moreover have "labelDomain s0 ''alias'' = map ac_Name (cfg_Aliases cfg)"
    using NewState_Inr(2) [OF s0(1)] by (simp add: labelDomain_def)
  moreover from log0 sh obtain m where m: "st_metrics s = Some m" by (auto simp: same_shape_def)
  moreover have "labelDomain (w_State w') = labelDomain s \<and> (\<exists>m. st_metrics (w_State w') = Some m \<and> list_all (typedCall s) m)"
    if "w_State w = s" and "Handler e srv r w = (ok, w')" for e srv r w ok w'
  proof -
    from p m that(1) have "invState (w_State w)" "typedLog (w_State w)" "st_metrics (w_State w) \<noteq> None"
      by (simp_all add: typedPool_def assms(4))
    from Handler_typed [OF this that(2)] have sh': "same_shape s w2 \<and> typedLog w2" if "w2 = w_State w'" for w2
      using \<open>w_State w = s\<close> that by simp
    from sh' [OF refl] m show ?thesis
      using labelDomain_shape typedCall_shape by (fastforce simp: typedLog_def same_shape_def)
  qed
  ultimately show ?thesis
    using p names labelDomain_shape [OF sh] counted_typed by (auto simp: typedPool_def typedThread_def typedLog_def assms(4))
qed

theorem serve_metrics_typed_witness:
  "\<exists>l0 l. serveStart exProcess ''router.yaml'' = Inr l0 \<and> life_run l0 l \<and>
     labelDomain (po_State (li_Pool l)) ''backend'' = [''a''] \<and> labelDomain (po_State (li_Pool l)) ''alias'' = [''chat'']"
proof -
  obtain l0 l where l: "serveStart exProcess ''router.yaml'' = Inr l0" "life_run l0 l" by (rule exLife)
  from serve_metrics_typed [OF exProcess_load(1) l refl] have
    "labelDomain (po_State (li_Pool l)) ''backend'' = map bc_Name (cfg_Backends exCfg)"
    "labelDomain (po_State (li_Pool l)) ''alias'' = map ac_Name (cfg_Aliases exCfg)" by simp_all
  with l show ?thesis by (auto simp: exCfg_def)
qed

end
