(* ===== verification/Balancer.thy ===== *)
theory Balancer
  imports Serving
begin

text \<open>
  The specification of the routing state: what the router promises about capacity, health and
  selection, without cells, pointers, positions or metrics. A balancer is a load and a usable
  flag per backend name; limits and routes are fixed. \<open>RouterState\<close> implements it.
\<close>

record balancer =
  bl_Known :: "string \<Rightarrow> bool"
  bl_Limit :: "string \<Rightarrow> int"
  bl_Routes :: "string \<Rightarrow> Route list option"
  bl_Aliases :: "Route list list"
  bl_Load :: "string \<Rightarrow> int"
  bl_Usable :: "string \<Rightarrow> bool"

subsection \<open>The operations of the specification\<close>

definition bl_add :: "string \<Rightarrow> int \<Rightarrow> balancer \<Rightarrow> balancer" where
  "bl_add n d b = b\<lparr>bl_Load := (bl_Load b)(n := bl_Load b n + d)\<rparr>"

definition bl_free :: "balancer \<Rightarrow> Route set \<Rightarrow> Route \<Rightarrow> bool" where
  "bl_free b att r \<longleftrightarrow> r \<notin> att \<and> bl_Usable b (routeBackend r) \<and> bl_Load b (routeBackend r) < bl_Limit b (routeBackend r)"

text \<open>The first of the free routes with the least priority and, among those, the least load.\<close>

definition bl_select :: "balancer \<Rightarrow> Route set \<Rightarrow> Route list \<Rightarrow> Route option" where
  "bl_select b att rs = first_min (\<lambda>r. (r_Priority r, bl_Load b (routeBackend r))) (filter (bl_free b att) rs) None"

definition bl_Reserve :: "balancer \<Rightarrow> string \<Rightarrow> Route set \<Rightarrow> (routeError + Route) \<times> balancer" where
  "bl_Reserve b a att =
     (case bl_Routes b a of
        None \<Rightarrow> (Inl ErrUnknownAlias, b)
      | Some rs \<Rightarrow>
         (case bl_select b att rs of
            None \<Rightarrow> (Inl ErrNoRoute, b)
          | Some r \<Rightarrow> (Inr r, bl_add (routeBackend r) 1 b)))"

definition bl_Swap :: "balancer \<Rightarrow> string \<Rightarrow> Route option \<Rightarrow> Route set \<Rightarrow> (routeError + Route) \<times> balancer" where
  "bl_Swap b a current att =
     (case current of
        None \<Rightarrow> (Inl ErrNoRoute, b)
      | Some cur \<Rightarrow>
         (case bl_Routes b a of
            None \<Rightarrow> (Inl ErrUnknownAlias, b)
          | Some rs \<Rightarrow>
              if bl_Load b (routeBackend cur) \<le> 0 then (Inl ErrNoRoute, b)
              else
               (let freed = bl_add (routeBackend cur) (- 1) b
                in case bl_select freed att rs of
                     None \<Rightarrow> (Inl ErrNoRoute, b)
                   | Some r \<Rightarrow> (Inr r, bl_add (routeBackend r) 1 freed))))"

definition bl_Release :: "balancer \<Rightarrow> Route option \<Rightarrow> balancer" where
  "bl_Release b route =
     (case route of
        None \<Rightarrow> b
      | Some r \<Rightarrow> if 0 < bl_Load b (routeBackend r) then bl_add (routeBackend r) (- 1) b else b)"

definition bl_SetHealth :: "balancer \<Rightarrow> string \<Rightarrow> bool \<Rightarrow> balancer" where
  "bl_SetHealth b n h = (if bl_Known b n then b\<lparr>bl_Usable := (bl_Usable b)(n := h)\<rparr> else b)"

definition bl_Ready :: "balancer \<Rightarrow> bool" where
  "bl_Ready b \<longleftrightarrow> (\<forall>rs\<in>set (bl_Aliases b). \<exists>r\<in>set rs. bl_Usable b (routeBackend r))"


subsection \<open>The balancer a state implements\<close>

definition balancerOf :: "State \<Rightarrow> balancer" where
  "balancerOf s = \<lparr>bl_Known = \<lambda>n. bsOf s n \<noteq> None, bl_Limit = limit s,
     bl_Routes = \<lambda>a. map_option as_routes (st_aliases s a), bl_Aliases = map as_routes (st_aliasOrder s),
     bl_Load = load s, bl_Usable = usable s\<rparr>"

lemma balancerOf_simps [simp]:
  "bl_Known (balancerOf s) n = (bsOf s n \<noteq> None)" "bl_Limit (balancerOf s) = limit s"
  "bl_Routes (balancerOf s) a = map_option as_routes (st_aliases s a)" "bl_Load (balancerOf s) = load s"
  "bl_Usable (balancerOf s) = usable s"
  by (simp_all add: balancerOf_def)

lemma balancerOf_emit [simp]: "balancerOf (emit cs s) = balancerOf s"
  by (simp add: balancerOf_def)

lemma balancerOf_shape:
  assumes "wf_state s" and "same_shape s s'"
  shows "balancerOf s' = balancerOf s\<lparr>bl_Load := load s', bl_Usable := usable s'\<rparr>"
proof -
  have "(bsOf s' n = None) = (bsOf s n = None)" for n
    using same_shape_bsOf_backend [OF assms(2,1), of n] by (metis option.map_disc_iff)
  then show ?thesis
    using limit_same_shape [OF assms(2,1)] same_shapeD [OF assms(2)] by (simp add: balancerOf_def)
qed

lemma usable_upd:
  "bsOf s' = (bsOf s)(n \<mapsto> bs') \<Longrightarrow> bsOf s n = Some bs \<Longrightarrow> bs_checked bs' = bs_checked bs \<Longrightarrow> bs_healthy bs' = bs_healthy bs \<Longrightarrow>
     usable s' = usable s"
  by (auto simp: usable_def fun_eq_iff)

text \<open>Taking or giving back a slot is adding to a load.\<close>

lemma balancerOf_slot:
  assumes "wf_state s" and "same_shape s s'" and "bsOf s n = Some bs" and "bsOf s' = (bsOf s)(n \<mapsto> addInflight d bs)"
  shows "balancerOf s' = bl_add n d (balancerOf s)"
  using balancerOf_shape [OF assms(1,2)] load_upd [OF assms(4)] usable_upd [OF assms(4,3)] load_eq [OF assms(3)]
  by (simp add: bl_add_def balancerOf_def)

lemma eligible_free: "eligible s att r = bl_free (balancerOf s) att r"
  by (auto simp: eligible_def bl_free_def usable_def load_def limit_def split: option.splits)

lemma select_balancer: "first_min (routeKey s) (filter (eligible s att) rs) None = bl_select (balancerOf s) att rs"
  unfolding bl_select_def routeKey_def eligible_free [abs_def] by simp


lemma select_balancer_upd:
  assumes "bsOf s n = Some bs" and "bsOf t = (bsOf s)(n \<mapsto> addInflight d bs)"
  shows "first_min (routeKey t) (filter (eligible t att) rs) None = bl_select (bl_add n d (balancerOf s)) att rs"
proof -
  have "limit t = limit s" using assms by (auto simp: limit_def fun_eq_iff)
  then have "bl_free (balancerOf t) att = bl_free (bl_add n d (balancerOf s)) att"
    using load_upd [OF assms(2)] load_eq [OF assms(1)] usable_upd [OF assms(2,1)]
    by (simp add: bl_free_def bl_add_def fun_eq_iff)
  then show ?thesis
    unfolding select_balancer using load_upd [OF assms(2)] load_eq [OF assms(1)]
    by (simp add: bl_select_def bl_add_def)
qed

subsection \<open>Refinement\<close>

text \<open>One commuting diagram per operation.\<close>

lemma Reserve_refines:
  assumes "wf_state s"
  shows "map_option (apsnd balancerOf) (Reserve s a att) = Some (bl_Reserve (balancerOf s) a att)"
  using assms
proof (cases rule: Reserve_cases [of s a att])
  case (none al)
  then have "bl_select (balancerOf s) att (as_routes al) = None"
    by (simp add: bl_select_def eligible_free [abs_def] flip: select_balancer)
  with none show ?thesis by (simp add: bl_Reserve_def)
next
  case (granted al r bs s')
  with balancerOf_slot [OF assms granted(4,3,5)] show ?thesis by (simp add: bl_Reserve_def select_balancer)
qed (simp add: bl_Reserve_def)

lemma Release_refines:
  assumes "wf_state s"
  shows "balancerOf (Release s route) = bl_Release (balancerOf s) route"
  using assms
proof (cases rule: Release_locked_cases [of s route])
  case absent
  then show ?thesis by (auto simp: Release_def bl_Release_def load_def split: option.split)
next
  case (idle r bs)
  with load_eq [OF idle(2)] show ?thesis by (simp add: Release_def bl_Release_def)
next
  case (freed r bs s')
  with balancerOf_slot [OF assms freed(4,2,5)] load_eq [OF freed(2)] show ?thesis
    by (simp add: Release_def bl_Release_def)
qed

lemma SetHealth_refines:
  assumes "wf_state s"
  shows "balancerOf (SetHealth s n h) = bl_SetHealth (balancerOf s) n h"
  using assms
proof (cases rule: SetHealth_locked_cases [of s n h])
  case (recorded bs s')
  have "load s' = load s" using load_upd [OF recorded(3)] load_eq [OF recorded(1)] by (simp add: fun_eq_iff)
  moreover have "usable s' = (usable s)(n := h)" using recorded(3) by (auto simp: usable_def fun_eq_iff)
  ultimately show ?thesis
    using recorded balancerOf_shape [OF assms recorded(2)] by (simp add: SetHealth_def bl_SetHealth_def balancerOf_def)
qed (simp add: SetHealth_def bl_SetHealth_def)

lemma Swap_refines:
  assumes "wf_state s"
  shows "map_option (apsnd balancerOf) (SwapReservation s a current att) = Some (bl_Swap (balancerOf s) a current att)"
  using assms
proof (cases rule: SwapReservation_locked_cases [of s a current att])
  case (refused e)
  have l: "load s n = (case st_backends s n of None \<Rightarrow> 0 | Some p \<Rightarrow> bs_inflight (st_cells s ! p))" for n
    by (simp add: load_def bsOf_def split: option.split)
  from refused(2) have "SwapReservation_locked s a current att = Some (fst (bl_Swap (balancerOf s) a current att), s, []) \<and>
      snd (bl_Swap (balancerOf s) a current att) = balancerOf s"
    by (auto simp: SwapReservation_locked_def bl_Swap_def l split: option.splits)
  then show ?thesis by (simp add: SwapReservation_def prod_eq_iff)
next
  case (kept cur cbs al freed)
  from select_balancer_upd [OF kept(3,5), of att "as_routes al"] kept(6)
  have "bl_select (bl_add (routeBackend cur) (- 1) (balancerOf s)) att (as_routes al) = None" by simp
  with kept load_eq [OF kept(3)] show ?thesis by (simp add: SwapReservation_def bl_Swap_def Let_def)
next
  case (moved cur cbs al freed r sbs s')
  from select_balancer_upd [OF moved(3,5), of att "as_routes al"] moved(6)
  have sel: "bl_select (bl_add (routeBackend cur) (- 1) (balancerOf s)) att (as_routes al) = Some r" by simp
  have "load s' = bl_Load (bl_add (routeBackend r) 1 (bl_add (routeBackend cur) (- 1) (balancerOf s)))"
    using load_upd [OF moved(9)] load_eq [OF moved(7)] load_upd [OF moved(5)] load_eq [OF moved(3)] by (simp add: bl_add_def)
  moreover have "usable s' = usable s" using usable_upd [OF moved(9,7)] usable_upd [OF moved(5,3)] by simp
  ultimately have "balancerOf s' = bl_add (routeBackend r) 1 (bl_add (routeBackend cur) (- 1) (balancerOf s))"
    using balancerOf_shape [OF assms moved(8)] by (simp add: bl_add_def balancerOf_def)
  with moved sel load_eq [OF moved(3)] show ?thesis by (simp add: SwapReservation_def bl_Swap_def Let_def)
qed

text \<open>
  C4: the routing state implements the balancer. On a well-formed state every operation never
  panics and does exactly what the specification says: it returns the specification's result,
  and the state it leaves implements the balancer the specification leaves. Cells, pointers,
  list positions and published metrics make no difference to what a caller can observe.
\<close>

theorem RouterState_refines_balancer:
  assumes "invState s"
  shows "map_option (apsnd balancerOf) (Reserve s a att) = Some (bl_Reserve (balancerOf s) a att) \<and>
    map_option (apsnd balancerOf) (SwapReservation s a current att) = Some (bl_Swap (balancerOf s) a current att) \<and>
    balancerOf (Release s route) = bl_Release (balancerOf s) route \<and>
    balancerOf (SetHealth s n h) = bl_SetHealth (balancerOf s) n h \<and>
    Ready s = Some (bl_Ready (balancerOf s))"
  using assms Reserve_refines Swap_refines Release_refines SetHealth_refines Ready_eq [OF assms] invState_wf [OF assms]
  by (simp add: bl_Ready_def balancerOf_def)

theorem RouterState_refines_balancer_witness:
  "bl_Load (snd (bl_Reserve (balancerOf exState) ''chat'' {})) ''a'' = 1 \<and>
   map_option (apsnd balancerOf) (Reserve exState ''chat'' {}) = Some (bl_Reserve (balancerOf exState) ''chat'' {})"
proof -
  have eq: "map_option (apsnd balancerOf) (Reserve exState ''chat'' {}) = Some (bl_Reserve (balancerOf exState) ''chat'' {})"
    using RouterState_refines_balancer [OF exState_inv] by blast
  then have "snd (bl_Reserve (balancerOf exState) ''chat'' {}) = balancerOf exBusy" using exBusy_Reserve by (cases "bl_Reserve (balancerOf exState) ''chat'' {}") simp
  with eq show ?thesis by (simp add: load_def exBusy_bsOf)
qed

end
