(* ===== verification/JsonStrings.thy ===== *)
theory JsonStrings
  imports JsonDecode
begin

text \<open>
  Quoting and unquoting of JSON strings fit together: \<open>unquote\<close> inverts \<open>MarshalString\<close> up to the
  replacement of invalid bytes, and everything \<open>unquote\<close> produces is valid UTF-8.
\<close>

subsection \<open>Strings\<close>

text \<open>\<open>strings.ToValidUTF8\<close>, byte by byte: every invalid byte becomes U+FFFD.\<close>

function toValidUTF8 :: "string \<Rightarrow> string" where
  "toValidUTF8 [] = []"
| "toValidUTF8 (c # cs) =
     (if runeLen (c # cs) = 0 then encodeRune replacementChar @ toValidUTF8 cs
      else take (runeLen (c # cs)) (c # cs) @ toValidUTF8 (drop (runeLen (c # cs)) (c # cs)))"
  by pat_completeness auto
termination
  by (relation "measure length") (auto simp: drop_Cons')

declare toValidUTF8.simps(2) [simp del]

text \<open>Whether a rune starts a string is decided by its own bytes.\<close>

lemma runeLen_take_append:
  assumes "runeLen xs = n" and "n \<noteq> 0"
  shows "runeLen (take n xs @ ys) = n"
proof -
  from assms obtain c cs where xs: "xs = c # cs" by (cases xs) (simp_all add: runeLen.simps)
  consider "byte c < 128" | "194 \<le> byte c" "byte c \<le> 223" | "224 \<le> byte c" "byte c \<le> 239" | "240 \<le> byte c" "byte c \<le> 244"
    using assms xs by (fastforce simp: runeLen.simps split: if_splits)
  then show ?thesis
  proof cases
    case 1
    with assms(1) xs have "n = 1" by (simp add: runeLen.simps)
    with 1 xs show ?thesis by (simp add: runeLen.simps)
  next
    case 2
    with assms xs obtain c1 cs1 where "cs = c1 # cs1" "contByte c1" "n = 2"
      by (auto simp: runeLen.simps split: list.splits if_splits)
    with 2 xs show ?thesis by (simp add: runeLen.simps)
  next
    case 3
    with assms xs obtain c1 c2 cs2 where "cs = c1 # c2 # cs2" "n = 3" and
        "contByte c1 \<and> contByte c2 \<and> (byte c = 224 \<longrightarrow> 160 \<le> byte c1) \<and> (byte c = 237 \<longrightarrow> byte c1 < 160)"
      by (auto simp: runeLen.simps split: list.splits if_splits)
    with 3 xs show ?thesis by (simp add: runeLen.simps numeral_3_eq_3)
  next
    case 4
    with assms xs obtain c1 c2 c3 cs3 where "cs = c1 # c2 # c3 # cs3" "n = 4" and
        "contByte c1 \<and> contByte c2 \<and> contByte c3 \<and> (byte c = 240 \<longrightarrow> 144 \<le> byte c1) \<and> (byte c = 244 \<longrightarrow> byte c1 < 144)"
      by (auto simp: runeLen.simps split: list.splits if_splits)
    with 4 xs show ?thesis by (simp add: runeLen.simps)
  qed
qed

lemma runeLen_ascii: "byte c < 128 \<Longrightarrow> runeLen (c # cs) = 1"
  by (simp add: runeLen.simps)

lemma toValidUTF8_ascii: "byte c < 128 \<Longrightarrow> toValidUTF8 (c # cs) = c # toValidUTF8 cs"
  by (simp add: toValidUTF8.simps runeLen_ascii)

lemma toValidUTF8_rune:
  assumes "runeLen xs = n" and "n \<noteq> 0"
  shows "toValidUTF8 (take n xs @ ys) = take n xs @ toValidUTF8 ys"
proof -
  have "n \<le> length xs" using runeLen_le [of xs] assms(1) by simp
  moreover from this assms(2) obtain c cs where "take n xs @ ys = c # cs" by (cases xs) (auto simp: take_Cons')
  then have "toValidUTF8 (take n xs @ ys) = take n (take n xs @ ys) @ toValidUTF8 (drop n (take n xs @ ys))"
    using runeLen_take_append [OF assms, of ys] assms(2) by (simp add: toValidUTF8.simps)
  ultimately show ?thesis by simp
qed

text \<open>The encoding of a code point is one rune.\<close>

lemma byte_char_of_small: "n < 256 \<Longrightarrow> byte (char_of n) = n"
  by simp

lemma runeLen_three:
  fixes a b c :: nat
  assumes "a \<le> 15" "b < 64" "c < 64" "a = 0 \<Longrightarrow> 32 \<le> b" "a = 13 \<Longrightarrow> b < 32"
  shows "runeLen (char_of (224 + a) # char_of (128 + b) # char_of (128 + c) # ys) = 3"
proof -
  have "byte (char_of (224 + a)) = 224 + a" "byte (char_of (128 + b)) = 128 + b" "byte (char_of (128 + c)) = 128 + c"
    using assms(1-3) by simp_all
  with assms show ?thesis by (simp only: runeLen.simps contByte_def list.case) simp
qed

lemma runeLen_four:
  fixes a b c d :: nat
  assumes "a \<le> 4" "b < 64" "c < 64" "d < 64" "a = 0 \<Longrightarrow> 16 \<le> b" "a = 4 \<Longrightarrow> b < 16"
  shows "runeLen (char_of (240 + a) # char_of (128 + b) # char_of (128 + c) # char_of (128 + d) # ys) = 4"
proof -
  have "byte (char_of (240 + a)) = 240 + a" "byte (char_of (128 + b)) = 128 + b" "byte (char_of (128 + c)) = 128 + c"
      "byte (char_of (128 + d)) = 128 + d"
    using assms(1-4) by simp_all
  with assms show ?thesis by (simp only: runeLen.simps contByte_def list.case) simp
qed

lemma runeLen_encodeRune:
  assumes "r < 1114112" and "\<not> isSurrogate r"
  shows "runeLen (encodeRune r @ ys) = length (encodeRune r)"
proof -
  consider "r < 128" | "128 \<le> r" "r < 2048" | "2048 \<le> r" "r < 65536" | "65536 \<le> r" by linarith
  then show ?thesis
  proof cases
    case 1
    then show ?thesis by (simp add: encodeRune_def runeLen.simps)
  next
    case 2
    then have "r div 64 \<le> 31" "2 \<le> r div 64" by simp_all
    with 2 show ?thesis by (simp add: encodeRune_def runeLen.simps contByte_def)
  next
    case 3
    then have "r div 4096 \<le> 15" by simp
    moreover have "r div 4096 = 0 \<Longrightarrow> 32 \<le> r div 64 mod 64" using 3 by simp
    moreover have "r div 4096 = 13 \<Longrightarrow> r div 64 mod 64 < 32"
    proof -
      assume d: "r div 4096 = 13"
      then have "53248 \<le> r" "r < 57344" by linarith+
      with assms(2) have "r < 55296" by (simp add: isSurrogate_def)
      then have "r div 64 < 864" by simp
      moreover have "r div 64 div 64 = 13" using d by (simp add: div_mult2_eq [symmetric])
      moreover have "r div 64 = 64 * (r div 64 div 64) + r div 64 mod 64" by simp
      ultimately show "r div 64 mod 64 < 32" by linarith
    qed
    moreover have "encodeRune r = [char_of (224 + r div 4096), char_of (128 + r div 64 mod 64), char_of (128 + r mod 64)]"
      using 3 by (simp add: encodeRune_def)
    ultimately show ?thesis using runeLen_three [of "r div 4096" "r div 64 mod 64" "r mod 64"] by simp
  next
    case 4
    then have "r div 262144 \<le> 4" using assms(1) by simp
    moreover have "r div 262144 = 0 \<Longrightarrow> 16 \<le> r div 4096 mod 64" using 4 by simp
    moreover have "r div 4096 mod 64 < 16" if "r div 262144 = 4"
    proof -
      have "r div 4096 < 272" using assms(1) by simp
      moreover have "r div 4096 div 64 = 4" using that by (simp add: div_mult2_eq [symmetric])
      moreover have "r div 4096 = 64 * (r div 4096 div 64) + r div 4096 mod 64" by simp
      ultimately show ?thesis by linarith
    qed
    moreover have "encodeRune r = [char_of (240 + r div 262144), char_of (128 + r div 4096 mod 64), char_of (128 + r div 64 mod 64),
        char_of (128 + r mod 64)]"
      using 4 by (simp add: encodeRune_def)
    ultimately show ?thesis using runeLen_four [of "r div 262144" "r div 4096 mod 64" "r div 64 mod 64" "r mod 64"] by simp
  qed
qed

lemma encodeRune_nonempty: "encodeRune r \<noteq> []"
  by (simp add: encodeRune_def)

lemma toValidUTF8_encodeRune:
  assumes "r < 1114112" and "\<not> isSurrogate r"
  shows "toValidUTF8 (encodeRune r @ ys) = encodeRune r @ toValidUTF8 ys"
  using toValidUTF8_rune [of "encodeRune r" "length (encodeRune r)" ys] runeLen_encodeRune [OF assms, of "[]"] encodeRune_nonempty [of r]
  by simp


lemma jsonHex_hexDigit: "jsonHex (hexDigit n) = Some (n mod 16)"
proof -
  have "n mod 16 < 16" by simp
  moreover have "\<forall>i<16. jsonHex (''0123456789abcdef'' ! i) = Some i"
    by (simp add: All_less_Suc jsonHex_def isDigit_def numeral_eq_Suc)
  ultimately show ?thesis by (simp add: hexDigit_def)
qed

lemma getu4_escapeU00: "getu4 (escapeU00 c @ t) = Some (byte c)"
proof -
  have "byte c div 16 < 16" using byte_less [of c] by linarith
  then have "jsonHex (hexDigit (byte c div 16)) = Some (byte c div 16)" "jsonHex (hexDigit (byte c)) = Some (byte c mod 16)"
    by (simp_all add: jsonHex_hexDigit)
  moreover have "jsonHex (CHR ''0'') = Some 0" by (simp add: jsonHex_def isDigit_def)
  ultimately show ?thesis by (simp add: escapeU00_def mult.commute [of _ 16])
qed

lemma unquoteRest_u:
  assumes "getu4 (x @ t) = Some r" and "length x = 6" and "\<not> isSurrogate r"
  shows "unquoteRest (x @ t) = map_option (\<lambda>out. encodeRune r @ out) (unquoteRest t)"
proof -
  from assms(2) obtain b u h1 h2 h3 h4 where x: "x = [b, u, h1, h2, h3, h4]"
    by (auto simp: length_Suc_conv numeral_eq_Suc)
  with assms(1) have "byte b = 92" "u = CHR ''u''" by (auto split: if_splits)
  with assms x show ?thesis by (simp add: unquoteRest.simps(2) [of b])
qed

lemma encodeRune_ascii: "byte c < 128 \<Longrightarrow> encodeRune (byte c) = [c]"
  by (simp add: encodeRune_def)

lemma unquoteRest_escape:
  "simpleEscape e = Some d \<Longrightarrow> e \<noteq> CHR ''u'' \<Longrightarrow> unquoteRest (CHR 0x5C # e # t) = map_option (\<lambda>out. d # out) (unquoteRest t)"
  by (simp add: unquoteRest.simps(2) [of "CHR 0x5C"])

lemma unquoteRest_quoteByte:
  assumes "byte c < 128"
  shows "unquoteRest (quoteByte c @ t) = map_option (\<lambda>out. c # out) (unquoteRest t)"
proof -
  consider "byte c = 92 \<or> byte c = 34" | "byte c = 8" | "byte c = 12" | "byte c = 10" | "byte c = 13" | "byte c = 9"
    | "byte c \<notin> {92, 34, 8, 12, 10, 13, 9}" "byte c < 32 \<or> htmlUnsafe c"
    | "byte c \<notin> {92, 34, 8, 12, 10, 13, 9}" "\<not> (byte c < 32 \<or> htmlUnsafe c)" by blast
  then show ?thesis
  proof cases
    case 1
    then have "simpleEscape c = Some c" "c \<noteq> CHR ''u''" by (auto simp: simpleEscape_def)
    with 1 show ?thesis by (simp add: quoteByte_def unquoteRest_escape)
  next
    case 7
    have "\<not> isSurrogate (byte c)" "length (escapeU00 c) = 6" using assms by (simp_all add: isSurrogate_def escapeU00_def)
    with 7 unquoteRest_u [OF getu4_escapeU00 this(2,1), of t] show ?thesis
      by (simp add: quoteByte_def encodeRune_ascii [OF assms])
  next
    case 8
    with assms show ?thesis by (simp add: quoteByte_def unquoteRest.simps(2) [of c])
  qed (simp_all add: quoteByte_def unquoteRest_escape simpleEscape_def byte_inject [symmetric] del: of_char_eq_iff)
qed


lemma lineSep_take:
  assumes "lineSep (c # cs)"
  obtains d where "c # take 2 cs = [char_of (226 :: nat), char_of (128 :: nat), d]" "byte d = 168 \<or> byte d = 169" "cs = char_of (128 :: nat) # d # drop 2 cs"
proof -
  from assms obtain b d rest where cs: "cs = b # d # rest" and "byte c = 226" "byte b = 128" "byte d = 168 \<or> byte d = 169"
    by (cases cs; cases "tl cs") (auto simp: lineSep_def numeral_eq_Suc)
  moreover from this have "c = char_of (226 :: nat)" "b = char_of (128 :: nat)"
    by (simp_all add: byte_inject [symmetric] del: of_char_eq_iff)
  ultimately show thesis by (intro that [of d]) simp_all
qed

lemma unquoteRest_sep:
  assumes "lineSep (c # cs)"
  shows "unquoteRest (escapeSep (c # cs) @ t) = map_option (\<lambda>out. c # take 2 cs @ out) (unquoteRest t)"
proof -
  obtain d where d: "c # take 2 cs = [char_of (226 :: nat), char_of (128 :: nat), d]" "byte d = 168 \<or> byte d = 169"
      "cs = char_of (128 :: nat) # d # drop 2 cs" by (rule lineSep_take [OF assms])
  have "(c # cs) ! 2 = d" by (subst d(3)) simp
  then have esc: "escapeSep (c # cs) = [CHR 0x5C] @ ''u202'' @ [hexDigit (byte d)]" by (simp add: escapeSep_def)
  define r where "r = 8224 + byte d mod 16"
  have "jsonHex (CHR ''2'') = Some 2" "jsonHex (CHR ''0'') = Some 0" by (simp_all add: jsonHex_def isDigit_def)
  then have "getu4 (escapeSep (c # cs) @ t) = Some r" by (simp add: esc jsonHex_hexDigit r_def)
  moreover have "encodeRune r = c # take 2 cs" unfolding d(1) using d(2)
    by (auto simp: r_def encodeRune_def byte_inject [symmetric] simp del: of_char_eq_iff)
  moreover have "\<not> isSurrogate r" using d(2) by (auto simp: r_def isSurrogate_def)
  ultimately show ?thesis using unquoteRest_u [of "escapeSep (c # cs)" t r] by (simp add: esc)
qed

lemma unquoteRest_rune:
  assumes "runeLen (c # cs) = n" and "n \<noteq> 0" and "128 \<le> byte c"
  shows "unquoteRest (take n (c # cs) @ t) = map_option (\<lambda>out. take n (c # cs) @ out) (unquoteRest t)"
proof -
  have le: "n \<le> length (c # cs)" using runeLen_le [of "c # cs"] assms(1) by simp
  obtain m where m: "n = Suc m" using assms(2) by (cases n) auto
  let ?xs = "c # (take m cs @ t)"
  have xs: "take n (c # cs) @ t = ?xs" by (simp add: m)
  have "runeLen ?xs = n" using runeLen_take_append [OF assms(1,2), of t] by (simp add: m)
  then have "unquoteRest ?xs = map_option (\<lambda>out. take n ?xs @ out) (unquoteRest (drop n ?xs))"
    using assms(2,3) by (simp add: unquoteRest.simps(2))
  moreover have "take n ?xs = take n (c # cs)" "drop n ?xs = t" using le by (simp_all add: m)
  ultimately show ?thesis unfolding xs by simp
qed

lemma unquoteRest_fffd: "unquoteRest ([CHR 0x5C] @ ''ufffd'' @ t) = map_option (\<lambda>out. encodeRune replacementChar @ out) (unquoteRest t)"
proof -
  have "jsonHex (CHR ''f'') = Some 15" "jsonHex (CHR ''d'') = Some 13" by (simp_all add: jsonHex_def isDigit_def)
  then have "getu4 (([CHR 0x5C] @ ''ufffd'') @ t) = Some replacementChar" by (simp add: replacementChar_def)
  from unquoteRest_u [OF this] show ?thesis by (simp add: isSurrogate_def replacementChar_def)
qed

lemma runeLen_lineSep: "lineSep (c # cs) \<Longrightarrow> runeLen (c # cs) = 3"
proof -
  assume "lineSep (c # cs)"
  then obtain d where d: "c # take 2 cs = [char_of (226 :: nat), char_of (128 :: nat), d]" "byte d = 168 \<or> byte d = 169"
      "cs = char_of (128 :: nat) # d # drop 2 cs" by (rule lineSep_take)
  from d(1) have c: "c = char_of (226 :: nat)" by simp
  obtain rest where cs: "cs = char_of (128 :: nat) # d # rest" using d(3) by blast
  show ?thesis unfolding c cs using d(2) by (auto simp: runeLen.simps contByte_def)
qed

text \<open>Unquoting a quoted string gives the string back, with invalid bytes replaced.\<close>

lemma unquote_quote: "unquoteRest (quoteRest s) = Some (toValidUTF8 s)"
proof (induction s rule: quoteRest.induct)
  case 1
  then show ?case by (simp add: unquoteRest.simps)
next
  case (2 c cs)
  consider "byte c < 128" | "128 \<le> byte c" "runeLen (c # cs) = 0"
    | "128 \<le> byte c" "runeLen (c # cs) \<noteq> 0" "lineSep (c # cs)"
    | "128 \<le> byte c" "runeLen (c # cs) \<noteq> 0" "\<not> lineSep (c # cs)" by linarith
  then show ?case
  proof cases
    case 1
    with 2 show ?thesis by (simp add: unquoteRest_quoteByte toValidUTF8_ascii)
  next
    case 2
    with "2.IH"(2) show ?thesis using unquoteRest_fffd [of "quoteRest cs"] by (simp add: toValidUTF8.simps)
  next
    case 3
    with "2.IH"(3) show ?thesis
      by (simp add: unquoteRest_sep [OF 3(3)] toValidUTF8.simps runeLen_lineSep [OF 3(3)] numeral_3_eq_3 numeral_2_eq_2)
  next
    case 4
    with "2.IH"(4) show ?thesis
      by (simp add: unquoteRest_rune [OF refl 4(2,1)] toValidUTF8.simps)
  qed
qed

lemma unquote_MarshalString: "unquote (MarshalString s) = Some (toValidUTF8 s)"
  using unquote_quote [of s] by (simp add: unquote_def MarshalString_def butlast_append)


text \<open>What unquoting produces is valid UTF-8.\<close>

lemma jsonHex_less: "jsonHex c = Some a \<Longrightarrow> a < 16"
  by (auto simp: jsonHex_def isDigit_def split: if_splits)

lemma getu4_less: "getu4 s = Some r \<Longrightarrow> r < 65536"
proof (induction s rule: getu4.induct)
  case (1 b u h1 h2 h3 h4 rest)
  then obtain p q x y where h: "jsonHex h1 = Some p" "jsonHex h2 = Some q" "jsonHex h3 = Some x" "jsonHex h4 = Some y"
      "r = p * 4096 + q * 256 + x * 16 + y"
    by (auto split: if_splits option.splits)
  have "p < 16" "q < 16" "x < 16" "y < 16" using jsonHex_less h(1-4) by blast+
  with h(5) show ?case by linarith
qed auto

lemma surrogatePair_range:
  "isSurrogate r \<Longrightarrow> surrogatePair r x = Some p \<Longrightarrow> 65536 \<le> p \<and> p < 1114112"
  by (auto simp: surrogatePair_def isSurrogate_def split: option.splits if_splits)

lemma unquoteRest_validUTF8: "unquoteRest s = Some t \<Longrightarrow> toValidUTF8 t = t"
proof (induction s arbitrary: t rule: unquoteRest.induct)
  case 1
  then show ?case by (simp add: unquoteRest.simps)
next
  case (2 c cs)
  have repl: "replacementChar < 1114112" "\<not> isSurrogate replacementChar" by (simp_all add: replacementChar_def isSurrogate_def)
  show ?case
  proof (cases "byte c = 92")
    case esc: True
    with "2.prems" obtain e es where cs: "cs = e # es" by (cases cs) (simp_all add: unquoteRest.simps(2))
    show ?thesis
    proof (cases "e = CHR ''u''")
      case u: True
      with "2.prems" esc cs obtain r where r: "getu4 (c # cs) = Some r"
        by (cases "getu4 (c # cs)") (simp_all add: unquoteRest.simps(2) [of c])
      let ?rest = "drop 6 (c # cs)"
      show ?thesis
      proof (cases "isSurrogate r")
        case sur: True
        show ?thesis
        proof (cases "surrogatePair r (getu4 ?rest)")
          case None
          with "2.prems" esc cs u r sur obtain t' where "unquoteRest ?rest = Some t'" "t = encodeRune replacementChar @ t'"
            by (auto simp: unquoteRest.simps(2) [of c] Let_def)
          with "2.IH"(1) [OF esc cs u r refl sur None] toValidUTF8_encodeRune [OF repl] show ?thesis by simp
        next
          case (Some p)
          with "2.prems" esc cs u r sur obtain t' where "unquoteRest (drop 6 ?rest) = Some t'" "t = encodeRune p @ t'"
            by (auto simp: unquoteRest.simps(2) [of c] Let_def)
          moreover have "p < 1114112" "\<not> isSurrogate p" using surrogatePair_range [OF sur Some] by (auto simp: isSurrogate_def)
          ultimately show ?thesis using "2.IH"(2) [OF esc cs u r refl sur Some] toValidUTF8_encodeRune by simp
        qed
      next
        case False
        with "2.prems" esc cs u r obtain t' where "unquoteRest ?rest = Some t'" "t = encodeRune r @ t'"
          by (auto simp: unquoteRest.simps(2) [of c] Let_def)
        moreover have "r < 1114112" using getu4_less [OF r] by simp
        ultimately show ?thesis using "2.IH"(3) [OF esc cs u r refl False] toValidUTF8_encodeRune False by simp
      qed
    next
      case nu: False
      with "2.prems" esc cs obtain d t' where d: "simpleEscape e = Some d" "unquoteRest es = Some t'" "t = d # t'"
        by (auto simp: unquoteRest.simps(2) [of c] split: option.splits)
      then have "byte d < 128" by (auto simp: simpleEscape_def split: if_splits)
      with "2.IH"(4) [OF esc cs nu d(1)] d show ?thesis by (simp add: toValidUTF8_ascii)
    qed
  next
    case plain: False
    with "2.prems" have q: "\<not> (byte c = 34 \<or> byte c < 32)" by (auto simp: unquoteRest.simps(2) [of c])
    show ?thesis
    proof (cases "byte c < 128")
      case True
      with "2.prems" plain q obtain t' where "unquoteRest cs = Some t'" "t = c # t'"
        by (auto simp: unquoteRest.simps(2) [of c])
      with "2.IH"(5) [OF plain q True] True show ?thesis by (simp add: toValidUTF8_ascii)
    next
      case high: False
      show ?thesis
      proof (cases "runeLen (c # cs) = 0")
        case True
        with "2.prems" plain q high obtain t' where "unquoteRest cs = Some t'" "t = encodeRune replacementChar @ t'"
          by (auto simp: unquoteRest.simps(2) [of c])
        with "2.IH"(6) [OF plain q high True] toValidUTF8_encodeRune [OF repl] show ?thesis by simp
      next
        case False
        with "2.prems" plain q high obtain t' where
          "unquoteRest (drop (runeLen (c # cs)) (c # cs)) = Some t'" "t = take (runeLen (c # cs)) (c # cs) @ t'"
          by (auto simp: unquoteRest.simps(2) [of c])
        with "2.IH"(7) [OF plain q high False] toValidUTF8_rune [OF refl False] show ?thesis by simp
      qed
    qed
  qed
qed

lemma unquote_validUTF8: "unquote item = Some t \<Longrightarrow> toValidUTF8 t = t"
  by (auto simp: unquote_def dest: unquoteRest_validUTF8 split: if_splits)

end
