(* ===== verification/JsonValues.thy ===== *)
theory JsonValues
  imports JsonStrings
begin

text \<open>
  Properties of the scanner of \<open>encoding/json\<close>: what a larger bound on brackets changes, what compaction
  writes, and that scanning a value gives the same value whatever surrounds it.
\<close>

subsection \<open>Steps of the scanner\<close>

lemma isSpace_literals [simp]:
  "isSpace (CHR '' '')" "\<not> isSpace (CHR '']'')" "\<not> isSpace (CHR ''}'')" "\<not> isSpace (CHR ''.'')" "\<not> isSpace (CHR ''e'')"
  "\<not> isSpace (CHR ''E'')" "\<not> isSpace (CHR '','')" "\<not> isSpace (CHR '':'')" "\<not> isSpace (CHR ''{'')" "\<not> isSpace (CHR ''['')"
  by (simp_all add: isSpace_def)

lemma isSpace_not_digit [simp]: "isSpace c \<Longrightarrow> \<not> isDigit c"
  by (auto simp: isSpace_def isDigit_def)

text \<open>A larger bound on open brackets changes nothing where the smaller one was enough.\<close>

abbreviation raise :: "nat \<Rightarrow> scanner \<Rightarrow> scanner" where
  "raise L s \<equiv> s\<lparr>sc_limit := L\<rparr>"

abbreviation raised :: "nat \<Rightarrow> scanResult \<Rightarrow> scanResult" where
  "raised L \<equiv> map_option (\<lambda>(s, f). (raise L s, f))"

lemma raise_step [simp]:
  "goTo st (raise L s) = raised L (goTo st s)" "popParseState (raise L s) = raised L (popParseState s)"
  "stateEndTop (raise L s) c = raised L (stateEndTop s c)" "stateBeginString (raise L s) c = raised L (stateBeginString s c)"
  "stateESign (raise L s) c = raised L (stateESign s c)"
  by (simp_all add: goTo_def popParseState_def stateEndTop_def stateBeginString_def stateESign_def split: list.split)

lemma raise_stateEndValue [simp]: "stateEndValue (raise L s) c = raised L (stateEndValue s c)"
  by (cases s) (simp add: stateEndValue_def stateEndTop_def goTo_def popParseState_def split: list.split parseState.split)

lemma raise_state0 [simp]: "state0 (raise L s) c = raised L (state0 s c)"
  by (simp add: state0_def)

lemma raise_stateEndValue_at: "stateEndValue (s\<lparr>sc_limit := L, sc_parseState := p\<rparr>) c = raised L (stateEndValue (s\<lparr>sc_parseState := p\<rparr>) c)"
  by (cases s) (simp add: stateEndValue_def stateEndTop_def goTo_def popParseState_def split: list.split parseState.split)

lemma raised_if: "raised L (if b then x else y) = (if b then raised L x else raised L y)"
  by simp

lemma stateBeginValue_brackets [simp]:
  "stateBeginValue s (CHR ''{'') = pushParseState BeginStringOrEmpty parseObjectKey s"
  "stateBeginValue s (CHR ''['') = pushParseState BeginValueOrEmpty parseArrayValue s"
  by (simp_all add: stateBeginValue_def)

lemma raise_stateBeginValue:
  assumes "stateBeginValue s c = Some (s', f)" and "sc_limit s \<le> L"
  shows "stateBeginValue (raise L s) c = Some (raise L s', f)"
proof (cases "c = CHR ''{'' \<or> c = CHR ''[''")
  case True
  with assms show ?thesis by (elim disjE) (auto simp: pushParseState_def split: if_splits)
next
  case False
  then have "stateBeginValue (raise L s) c = raised L (stateBeginValue s c)"
    by (simp add: stateBeginValue_def raised_if split del: if_split cong: if_cong)
  with assms(1) show ?thesis by simp
qed

lemma scan_step_raise_eq:
  "sc_step s \<noteq> BeginValueOrEmpty \<Longrightarrow> sc_step s \<noteq> BeginValue \<Longrightarrow> scan_step (raise L s) c = raised L (scan_step s c)"
  by (cases "sc_step s")
    (simp_all add: scan_step_def raised_if raise_stateEndValue_at split del: if_split split: list.split cong: if_cong)

lemma scan_step_orEmpty:
  "sc_step t = BeginValueOrEmpty \<Longrightarrow> scan_step t d =
     (if isSpace d then Some (t, True) else if d = CHR '']'' then stateEndValue t d else stateBeginValue t d)"
  by (simp add: scan_step_def)

lemma scan_step_raise:
  assumes "scan_step s c = Some (s', f)" and "sc_limit s \<le> L"
  shows "scan_step (raise L s) c = Some (raise L s', f)"
proof -
  consider "sc_step s = BeginValueOrEmpty" | "sc_step s = BeginValue" | "sc_step s \<noteq> BeginValueOrEmpty" "sc_step s \<noteq> BeginValue"
    by blast
  then show ?thesis
  proof cases
    case 1
    then have "sc_step (raise L s) = BeginValueOrEmpty" by simp
    from scan_step_orEmpty [OF 1] scan_step_orEmpty [OF this] assms raise_stateBeginValue [of s c s' f L] show ?thesis
      by (auto split: if_splits)
  next
    case 2
    with assms raise_stateBeginValue [of s c s' f L] show ?thesis by (simp add: scan_step_def)
  next
    case 3
    with assms(1) show ?thesis by (simp add: scan_step_raise_eq)
  qed
qed

text \<open>Insignificant space is space, and where one space may stand others may follow.\<close>

definition endSpace :: "scanner \<Rightarrow> scanner" where
  "endSpace s = (if sc_parseState s = [] then s\<lparr>sc_step := EndTop, sc_endTop := True\<rparr> else s\<lparr>sc_step := EndValue\<rparr>)"

definition endSteps :: "scanStep set" where
  "endSteps = {EndValue, Num1, Num0, Dot0, Exp0}"

definition beginSteps :: "scanStep set" where
  "beginSteps = {BeginValueOrEmpty, BeginValue, BeginStringOrEmpty, BeginString, EndTop}"

lemma goTo_flag [simp]: "goTo st s \<noteq> Some (s', True)" "goTo st s = Some (s', False) \<longleftrightarrow> s' = s\<lparr>sc_step := st\<rparr>"
  by (auto simp: goTo_def)

lemma push_flag [simp]: "pushParseState st p s \<noteq> Some (s', True)"
  by (simp add: pushParseState_def)

lemma pop_flag [simp]: "popParseState s \<noteq> Some (s', True)"
  by (simp add: popParseState_def split: list.split)

lemma stateEndValue_space: "stateEndValue s c = Some (s', True) \<longleftrightarrow> isSpace c \<and> s' = endSpace s"
  by (cases "sc_parseState s") (auto simp: stateEndValue_def stateEndTop_def endSpace_def split: parseState.splits if_splits)

lemma stateBeginValue_space: "stateBeginValue s c = Some (s', True) \<longleftrightarrow> isSpace c \<and> s' = s"
  by (auto simp: stateBeginValue_def split: if_splits)

lemma stateBeginString_space: "stateBeginString s c = Some (s', True) \<longleftrightarrow> isSpace c \<and> s' = s"
  by (auto simp: stateBeginString_def)

lemma state0_space: "state0 s c = Some (s', True) \<longleftrightarrow> isSpace c \<and> s' = endSpace s"
  by (auto simp: state0_def stateEndValue_space)

lemma scan_step_space_iff:
  "scan_step s c = Some (s', True) \<longleftrightarrow>
     isSpace c \<and> (sc_step s \<in> beginSteps \<and> s' = s \<or> sc_step s \<in> endSteps \<and> s' = endSpace s)"
  by (cases "sc_step s")
    (auto simp: scan_step_def beginSteps_def endSteps_def stateBeginValue_space stateBeginString_space stateEndValue_space
      state0_space stateEndTop_def stateESign_def split: list.split)


subsection \<open>Compaction\<close>

text \<open>A scanner \<open>t\<close> that has not seen the insignificant space a scanner \<open>s\<close> has just seen.\<close>

definition lag :: "scanner \<Rightarrow> scanner \<Rightarrow> bool" where
  "lag t s \<longleftrightarrow> t = s \<or> sc_step t \<in> endSteps \<and> s = endSpace t"

lemma endSpace_simps [simp]:
  "sc_parseState (endSpace s) = sc_parseState s" "sc_limit (endSpace s) = sc_limit s"
  "sc_step (endSpace s) = (if sc_parseState s = [] then EndTop else EndValue)"
  "sc_endTop (endSpace s) = (sc_parseState s = [] \<or> sc_endTop s)" "endSpace (endSpace s) = endSpace s"
  by (cases s; simp add: endSpace_def)+

lemma lag_space:
  assumes "lag t s" and "scan_step s c = Some (s', True)"
  shows "lag t s'"
proof (cases "t = s")
  case True
  with assms(2) show ?thesis by (auto simp: scan_step_space_iff lag_def)
next
  case False
  with assms(1) have s: "s = endSpace t" "sc_step t \<in> endSteps" by (auto simp: lag_def)
  with assms(2) have "s' = s" by (auto simp: scan_step_space_iff)
  with assms(1) show ?thesis by simp
qed

lemma endValue_step: "sc_step s = EndValue \<Longrightarrow> scan_step s c = stateEndValue s c"
  "sc_step s = EndTop \<Longrightarrow> scan_step s c = stateEndTop s c"
  by (simp_all add: scan_step_def)

lemma stateEndValue_significant:
  assumes "stateEndValue s c = Some (s', False)"
  shows "c \<in> {CHR '','', CHR '':'', CHR ''}'', CHR '']''}" and "sc_parseState s \<noteq> []"
  using assms by (auto simp: stateEndValue_def stateEndTop_def split: list.splits if_splits parseState.splits)

lemma stateEndValue_step: "sc_parseState s \<noteq> [] \<Longrightarrow> stateEndValue (s\<lparr>sc_step := st\<rparr>) c = stateEndValue s c"
  by (cases s) (auto simp: stateEndValue_def goTo_def popParseState_def split: list.splits parseState.splits)

lemma endSteps_significant:
  assumes "sc_step t \<in> endSteps" and "c \<in> {CHR '','', CHR '':'', CHR ''}'', CHR '']''}"
  shows "scan_step t c = stateEndValue t c"
proof -
  have c: "\<not> isDigit c" "c \<noteq> CHR ''.''" "c \<noteq> CHR ''e''" "c \<noteq> CHR ''E''" using assms(2) by (auto simp: isDigit_def)
  from assms(1) consider "sc_step t = EndValue" | "sc_step t = Num1" | "sc_step t = Num0" | "sc_step t = Dot0" | "sc_step t = Exp0"
    by (auto simp: endSteps_def)
  then show ?thesis by cases (simp_all add: scan_step_def state0_def c)
qed

lemma lag_step:
  assumes "lag t s" and "scan_step s c = Some (s', False)"
  shows "scan_step t c = Some (s', False)"
proof (cases "t = s")
  case True
  with assms(2) show ?thesis by simp
next
  case False
  with assms(1) have s: "s = endSpace t" "sc_step t \<in> endSteps" by (auto simp: lag_def)
  have ne: "sc_parseState t \<noteq> []"
    using assms(2) s by (auto simp: endValue_step stateEndTop_def split: if_splits)
  with s have "s = t\<lparr>sc_step := EndValue\<rparr>" by (simp add: endSpace_def)
  with assms(2) ne have ev: "stateEndValue t c = Some (s', False)"
    by (simp add: endValue_step stateEndValue_step)
  from endSteps_significant [OF s(2) stateEndValue_significant(1) [OF this]] ev show ?thesis by simp
qed

lemma endSteps_space: "sc_step t \<in> endSteps \<Longrightarrow> scan_step t (CHR '' '') = Some (endSpace t, True)"
  by (simp add: scan_step_space_iff)

lemma lag_eof:
  assumes "lag t s" and "scan_eof s"
  shows "scan_eof t"
proof (cases "t = s")
  case False
  with assms(1) have s: "s = endSpace t" "sc_step t \<in> endSteps" by (auto simp: lag_def)
  have "sc_endTop s"
  proof (cases "sc_parseState t = []")
    case False
    then have "sc_step s \<in> endSteps" using s by (simp add: endSteps_def)
    from endSteps_space [OF this] assms(2) s(1) show ?thesis by (simp add: scan_eof_def)
  qed (simp add: s(1))
  with endSteps_space [OF s(2)] s(1) show ?thesis by (simp add: scan_eof_def)
qed (use assms(2) in simp)

text \<open>Bytes that are escaped in the output occur inside strings only.\<close>

definition significantBytes :: string where
  "significantBytes = ''{}[]:,-+0123456789.eEtfnbru/als ''"

definition litOk :: "scanner \<Rightarrow> bool" where
  "litOk s \<longleftrightarrow> (\<forall>l. sc_step s = Lit l \<longrightarrow> set l \<subseteq> set significantBytes)"

lemma insignificant:
  assumes "128 \<le> byte c \<or> htmlUnsafe c"
  shows "c \<notin> set significantBytes" and "byte c \<noteq> 34" and "byte c \<noteq> 92" and "\<not> byte c < 32"
proof -
  have "list_all (\<lambda>x. byte x < 128 \<and> \<not> htmlUnsafe x) significantBytes" by (simp add: significantBytes_def htmlUnsafe_def)
  with assms show "c \<notin> set significantBytes" by (auto simp: list_all_iff)
  from assms show "byte c \<noteq> 34" "byte c \<noteq> 92" "\<not> byte c < 32" by (auto simp: htmlUnsafe_def)
qed

lemma significant_literals:
  "c \<notin> set significantBytes \<Longrightarrow> c \<noteq> CHR ''{'' \<and> c \<noteq> CHR ''}'' \<and> c \<noteq> CHR ''['' \<and> c \<noteq> CHR '']'' \<and> c \<noteq> CHR '':'' \<and> c \<noteq> CHR '','' \<and>
     c \<noteq> CHR ''-'' \<and> c \<noteq> CHR ''+'' \<and> c \<noteq> CHR ''0'' \<and> c \<noteq> CHR ''.'' \<and> c \<noteq> CHR ''e'' \<and> c \<noteq> CHR ''E'' \<and> c \<noteq> CHR ''t'' \<and> c \<noteq> CHR ''f'' \<and>
     c \<noteq> CHR ''n'' \<and> c \<noteq> CHR ''b'' \<and> c \<noteq> CHR ''r'' \<and> c \<noteq> CHR ''u'' \<and> c \<noteq> CHR ''/''"
  by (simp add: significantBytes_def)

lemma high_in_string:
  assumes "scan_step s c = Some (s', f)" and "128 \<le> byte c \<or> htmlUnsafe c" and "litOk s"
  shows "sc_step s = InString" and "s' = s" and "\<not> f"
proof -
  note ne = significant_literals [OF insignificant(1) [OF assms(2)]] insignificant(2-4) [OF assms(2)]
  have "\<not> isSpace c" "\<not> isDigit c" "\<not> isHex c"
    using assms(2) by (auto simp: isSpace_def isDigit_def isHex_def htmlUnsafe_def)
  note cls = this
  have fin: "stateEndValue x c = None" for x
    using ne cls(1) by (simp add: stateEndValue_def stateEndTop_def split: list.split parseState.split)
  have no: "stateBeginValue x c = None" "stateBeginString x c = None" "state0 x c = None" "stateESign x c = None" "stateEndTop x c = None" for x
    using ne cls fin by (simp_all add: stateBeginValue_def stateBeginString_def state0_def stateESign_def stateEndTop_def)
  show st: "sc_step s = InString"
  proof (cases "sc_step s")
    case (Lit l)
    show ?thesis
    proof (cases l)
      case (Cons d ds)
      with assms(1) Lit have "d = c" by (simp add: scan_step_def split: if_splits)
      with Lit Cons assms(3) insignificant(1) [OF assms(2)] show ?thesis by (simp add: litOk_def)
    qed (use assms(1) Lit in \<open>simp add: scan_step_def\<close>)
  qed (use assms(1) ne cls fin no in \<open>simp_all add: scan_step_def\<close>)
  from assms(1) ne st show "s' = s" "\<not> f" by (simp_all add: scan_step_def)
qed


definition keepsLit :: "scanResult \<Rightarrow> bool" where
  "keepsLit r \<longleftrightarrow> (\<forall>s' f. r = Some (s', f) \<longrightarrow> litOk s')"

lemma keepsLit_if: "(b \<Longrightarrow> keepsLit x) \<Longrightarrow> (\<not> b \<Longrightarrow> keepsLit y) \<Longrightarrow> keepsLit (if b then x else y)"
  by simp

lemma keepsLit_basic:
  "keepsLit None" "litOk s \<Longrightarrow> keepsLit (Some (s, f))" "\<forall>l. st \<noteq> Lit l \<Longrightarrow> keepsLit (goTo st s)"
  "set l \<subseteq> set significantBytes \<Longrightarrow> keepsLit (goTo (Lit l) s)" "\<forall>l. st \<noteq> Lit l \<Longrightarrow> keepsLit (pushParseState st p s)"
  "keepsLit (popParseState s)"
  by (auto simp: keepsLit_def litOk_def goTo_def pushParseState_def popParseState_def split: list.split)

lemma keepsLit_stateEndValue: "keepsLit (stateEndValue s c)"
  by (auto simp: stateEndValue_def stateEndTop_def keepsLit_basic litOk_def intro!: keepsLit_basic keepsLit_if split: list.split parseState.split)

lemma keepsLit_state0: "keepsLit (state0 s c)"
  unfolding state0_def by (intro keepsLit_if keepsLit_stateEndValue keepsLit_basic) simp_all

lemma keepsLit_stateBeginValue: "litOk s \<Longrightarrow> keepsLit (stateBeginValue s c)"
  unfolding stateBeginValue_def
  by (intro keepsLit_if) (simp_all add: keepsLit_basic significantBytes_def)

lemma keepsLit_stateBeginString: "litOk s \<Longrightarrow> keepsLit (stateBeginString s c)"
  unfolding stateBeginString_def by (intro keepsLit_if) (simp_all add: keepsLit_basic)

lemma keepsLit_stateESign: "keepsLit (stateESign s c)"
  unfolding stateESign_def by (intro keepsLit_if) (simp_all add: keepsLit_basic)

lemmas keepsLit_rules = keepsLit_basic keepsLit_stateEndValue keepsLit_state0 keepsLit_stateBeginValue
  keepsLit_stateBeginString keepsLit_stateESign

lemma keepsLit_scan_step:
  assumes "litOk s"
  shows "keepsLit (scan_step s c)"
proof (cases "sc_step s")
  case (Lit l)
  show ?thesis
  proof (cases l)
    case (Cons d ds)
    with assms Lit have "set ds \<subseteq> set significantBytes" by (simp add: litOk_def)
    with Lit Cons show ?thesis by (auto simp: scan_step_def intro!: keepsLit_if keepsLit_basic)
  qed (use Lit in \<open>simp add: scan_step_def keepsLit_basic\<close>)
next
  case EndTop
  with assms show ?thesis by (simp add: scan_step_def stateEndTop_def keepsLit_basic)
qed (use assms in \<open>simp_all add: scan_step_def keepsLit_rules split: nat.split\<close>)

lemma litOk_step: "scan_step s c = Some (s', f) \<Longrightarrow> litOk s \<Longrightarrow> litOk s'"
  using keepsLit_scan_step by (auto simp: keepsLit_def)

lemma tight_escapeU00:
  assumes "sc_step t = InString"
  shows "tightRun t (escapeU00 c) = Some t"
proof -
  obtain ps e L where t: "t = inString ps e L" using assms by (cases t) simp
  have "isHex CHR ''0''" by (simp add: isHex_def isDigit_def)
  then show ?thesis unfolding t by (simp add: escapeU00_def tight_escape_u hexDigit_isHex del: tightRun.simps(2))
qed

lemma tight_escapeSep:
  assumes "sc_step t = InString"
  shows "tightRun t (escapeSep x) = Some t"
proof -
  obtain ps e L where t: "t = inString ps e L" using assms by (cases t) simp
  have "isHex CHR ''0''" "isHex CHR ''2''" by (simp_all add: isHex_def isDigit_def)
  then show ?thesis unfolding t by (simp add: escapeSep_def tight_escape_u hexDigit_isHex del: tightRun.simps(2))
qed

lemma lag_inString: "lag t s \<Longrightarrow> sc_step s = InString \<Longrightarrow> t = s"
  by (auto simp: lag_def split: if_splits)

lemma lineSep_high: "lineSep (c # cs) \<Longrightarrow> byte c = 226 \<and> (\<forall>x\<in>set (take 2 cs). 128 \<le> byte x)"
  by (cases cs; cases "tl cs") (auto simp: lineSep_def numeral_eq_Suc)

text \<open>What compaction writes is accepted by the scanner without a single insignificant byte.\<close>

lemma compactLoop_tight:
  assumes "compactLoop s k cs = Some out" and "\<forall>x\<in>set (take k cs). 128 \<le> byte x" and "lag t s" and "litOk s"
  shows "\<exists>t'. tightRun t out = Some t' \<and> scan_eof t'"
  using assms
proof (induction cs arbitrary: s k out t)
  case Nil
  then show ?case by (auto simp: lag_eof split: if_splits)
next
  case (Cons c cs)
  from Cons.prems(1) obtain s' sp where st: "scan_step s c = Some (s', sp)"
    by (cases "scan_step s c") auto
  define sep where "sep = (k = 0 \<and> lineSep (c # cs))"
  define piece where "piece = (if sp \<or> k > 0 then [] else if htmlUnsafe c then escapeU00 c
     else if sep then escapeSep (c # cs) else [c])"
  from Cons.prems(1) st obtain rest where rest: "compactLoop s' (if sep then 2 else k - 1) cs = Some rest" "out = piece @ rest"
    by (auto simp: Let_def sep_def piece_def)
  have lit': "litOk s'" by (rule litOk_step [OF st Cons.prems(4)])
  have high: "sc_step s = InString \<and> s' = s \<and> \<not> sp \<and> t = s" if "128 \<le> byte c \<or> htmlUnsafe c"
    using high_in_string [OF st that Cons.prems(4)] lag_inString [OF Cons.prems(3)] by blast
  have tail: "\<forall>x\<in>set (take (if sep then 2 else k - 1) cs). 128 \<le> byte x"
    using Cons.prems(2) lineSep_high [of c cs] by (cases k) (auto simp: sep_def)
  show ?case
  proof (cases "tightRun t piece")
    case None
    have False
    proof -
      from None have "piece \<noteq> []" by auto
      then have k: "\<not> sp" "k = 0" by (auto simp: piece_def split: if_splits)
      consider "htmlUnsafe c" | "\<not> htmlUnsafe c" "sep" | "\<not> htmlUnsafe c" "\<not> sep" by blast
      then show False
      proof cases
        case 1
        with k None high tight_escapeU00 [of t c] show False by (simp add: piece_def)
      next
        case 2
        then have "128 \<le> byte c" using lineSep_high by (auto simp: sep_def)
        with 2 k None high tight_escapeSep [of t "c # cs"] show False by (simp add: piece_def)
      next
        case 3
        with k None st lag_step [OF Cons.prems(3)] show False by (simp add: piece_def)
      qed
    qed
    then show ?thesis ..
  next
    case (Some t1)
    have "lag t1 s'"
    proof (cases "piece = []")
      case True
      with Some have t1: "t1 = t" by simp
      show ?thesis
      proof (cases sp)
        case True
        with st Cons.prems(3) t1 show ?thesis by (auto intro: lag_space)
      next
        case False
        with True have "k > 0" by (auto simp: piece_def escapeU00_def escapeSep_def split: if_splits)
        then have "128 \<le> byte c" using Cons.prems(2) by (cases k) auto
        with high t1 Cons.prems(3) show ?thesis by simp
      qed
    next
      case False
      then have k: "\<not> sp" "k = 0" by (auto simp: piece_def split: if_splits)
      consider "htmlUnsafe c" | "\<not> htmlUnsafe c" "sep" | "\<not> htmlUnsafe c" "\<not> sep" by blast
      then show ?thesis
      proof cases
        case 1
        with k Some high tight_escapeU00 [of t c] show ?thesis by (simp add: piece_def lag_def)
      next
        case 2
        then have "128 \<le> byte c" using lineSep_high by (auto simp: sep_def)
        with 2 k Some high tight_escapeSep [of t "c # cs"] show ?thesis by (simp add: piece_def lag_def)
      next
        case 3
        with k Some st lag_step [OF Cons.prems(3)] show ?thesis by (simp add: piece_def lag_def)
      qed
    qed
    from Cons.IH [OF rest(1) tail this lit'] Some rest(2) show ?thesis by (auto simp: tightRun_append)
  qed
qed

lemma litOk_new: "litOk (newScanner\<lparr>sc_limit := L\<rparr>)"
  by (simp add: litOk_def newScanner_def)


subsection \<open>Values\<close>

text \<open>Where a scan has to be when the input ends after a complete value.\<close>

abbreviation complete :: "scanner \<Rightarrow> bool" where
  "complete s \<equiv> sc_step s = EndTop \<or> sc_step s \<in> endSteps"

abbreviation at :: "scanStep \<Rightarrow> parseState list \<Rightarrow> bool \<Rightarrow> nat \<Rightarrow> scanner" where
  "at st ps e L \<equiv> \<lparr>sc_step = st, sc_parseState = ps, sc_endTop = e, sc_limit = L\<rparr>"

lemma scan_all_step: "scan_all s (c # cs) = Some send \<Longrightarrow> scan_step s c \<noteq> None"
  by (cases "scan_step s c") simp_all

definition stringSteps :: "scanStep set" where
  "stringSteps = insert InString (range InStringEscU)"

lemma string_step:
  "scan_step (at InString ps e L) c =
     (if byte c = 34 then Some (at EndValue ps e L, False)
      else if byte c = 92 then Some (at InStringEsc ps e L, False)
      else if byte c < 32 then None else Some (at InString ps e L, False))"
  "scan_step (at (InStringEscU n) ps e L) c =
     (if isHex c then Some (at (case n of 0 \<Rightarrow> InString | Suc m \<Rightarrow> InStringEscU m) ps e L, False) else None)"
  "scan_step (at InStringEsc ps e L) c =
     (if c \<in> set ''bfnrt/'' \<or> byte c = 92 \<or> byte c = 34 then Some (at InString ps e L, False)
      else if c = CHR ''u'' then Some (at (InStringEscU 3) ps e L, False) else None)"
  by (simp_all add: scan_step_def goTo_def)

lemma string_step_plain:
  assumes "st \<in> stringSteps" and "byte c \<noteq> 34" and "byte c \<noteq> 92" and "scan_step (at st ps e L) c \<noteq> None"
  shows "\<exists>st'\<in>stringSteps. \<forall>qs d M. scan_step (at st qs d M) c = Some (at st' qs d M, False)"
  using assms by (auto simp: stringSteps_def string_step split: if_splits nat.split)

lemma string_step_escape:
  assumes "st \<in> stringSteps" and "byte c = 92" and "scan_all (at st ps e L) (c # cs) = Some send" and "complete send"
  obtains c' cs' st' where "cs = c' # cs'" "st' \<in> stringSteps"
    "\<And>qs d M. scan_step (at st qs d M) c = Some (at InStringEsc qs d M, False)"
    "\<And>qs d M. scan_step (at InStringEsc qs d M) c' = Some (at st' qs d M, False)"
proof -
  have hex: "\<not> isHex c" using assms(2) by (auto simp: isHex_def isDigit_def)
  with assms(1,3) have st: "st = InString" by (auto simp: stringSteps_def string_step)
  with assms(2-4) obtain c' cs' where cs: "cs = c' # cs'" by (cases cs) (auto simp: string_step endSteps_def)
  have "scan_all (at InStringEsc ps e L) cs = Some send" using assms(2,3) st by (simp add: string_step)
  then have "scan_step (at InStringEsc ps e L) c' \<noteq> None" unfolding cs by (rule scan_all_step)
  then have "c' \<in> set ''bfnrt/'' \<or> byte c' = 92 \<or> byte c' = 34 \<or> c' = CHR ''u''"
    unfolding string_step by (metis (no_types))
  then obtain st' where "st' \<in> stringSteps" "\<And>qs d M. scan_step (at InStringEsc qs d M) c' = Some (at st' qs d M, False)"
    unfolding string_step stringSteps_def by (cases "c' \<in> set ''bfnrt/'' \<or> byte c' = 92 \<or> byte c' = 34") auto
  with that cs st assms(2) show thesis by (simp add: string_step)
qed

text \<open>A quoted string: the reader and the scanner agree on where it ends, whatever surrounds it.\<close>

lemma string_scan:
  assumes "scan_all (at st ps e L) cs = Some send" and "st \<in> stringSteps" and "complete send"
  shows "\<exists>item rest. (\<forall>r. rescanString (cs @ r) = (item, rest @ r)) \<and> cs = item @ rest \<and>
    (\<forall>qs d M. scan_all (at st qs d M) item = Some (at EndValue qs d M)) \<and> scan_all (at EndValue ps e L) rest = Some send"
  using assms
proof (induction cs arbitrary: st rule: length_induct)
  case (1 cs)
  show ?case
  proof (cases cs)
    case Nil
    with "1.prems" show ?thesis by (auto simp: stringSteps_def endSteps_def)
  next
    case (Cons c cs')
    have quote: ?thesis if "byte c = 34"
    proof -
      have "\<not> isHex c" using that by (auto simp: isHex_def isDigit_def)
      with that "1.prems"(1,2) Cons have "st = InString" by (auto simp: stringSteps_def string_step)
      with that "1.prems"(1) Cons show ?thesis
        by (intro exI [of _ "[c]"] exI [of _ cs']) (simp add: string_step)
    qed
    have escape: ?thesis if c: "byte c = 92"
    proof -
      obtain c' cs2 st' where s: "cs' = c' # cs2" "st' \<in> stringSteps"
        "\<And>qs d M. scan_step (at st qs d M) c = Some (at InStringEsc qs d M, False)"
        "\<And>qs d M. scan_step (at InStringEsc qs d M) c' = Some (at st' qs d M, False)"
        using string_step_escape [OF "1.prems"(2) c "1.prems"(1) [unfolded Cons] "1.prems"(3)] by blast
      have "scan_all (at st' ps e L) cs2 = Some send" using "1.prems"(1) Cons s(1,3,4) by simp
      with "1.IH" s(1,2) Cons "1.prems"(3) obtain item rest where
        "\<forall>r. rescanString (cs2 @ r) = (item, rest @ r)" "cs2 = item @ rest"
        "\<forall>qs d M. scan_all (at st' qs d M) item = Some (at EndValue qs d M)" "scan_all (at EndValue ps e L) rest = Some send"
        by (metis length_Cons less_Suc_eq)
      with c Cons s show ?thesis
        by (intro exI [of _ "c # c' # item"] exI [of _ rest]) auto
    qed
    have plain: ?thesis if c: "byte c \<noteq> 34" "byte c \<noteq> 92"
    proof -
      have "scan_step (at st ps e L) c \<noteq> None" using "1.prems"(1) unfolding Cons by (rule scan_all_step)
      from string_step_plain [OF "1.prems"(2) c this] obtain st' where s: "st' \<in> stringSteps"
        "\<forall>qs d M. scan_step (at st qs d M) c = Some (at st' qs d M, False)" by blast
      have "scan_all (at st' ps e L) cs' = Some send" using "1.prems"(1) Cons s by simp
      with "1.IH" s(1) Cons "1.prems"(3) obtain item rest where
        "\<forall>r. rescanString (cs' @ r) = (item, rest @ r)" "cs' = item @ rest"
        "\<forall>qs d M. scan_all (at st' qs d M) item = Some (at EndValue qs d M)" "scan_all (at EndValue ps e L) rest = Some send"
        by (metis length_Cons lessI)
      with c Cons s show ?thesis
        by (intro exI [of _ "c # item"] exI [of _ rest]) auto
    qed
    from quote escape plain show ?thesis by blast
  qed
qed


definition numberSteps :: "scanStep set" where
  "numberSteps = {Neg, Num1, Num0, Dot, Dot0, ExpE, ExpSign, Exp0}"

lemma number_stop:
  assumes "isNumByte c"
  shows "stateEndValue s c = None"
proof -
  have "\<not> isSpace c" "c \<noteq> CHR '',''" "c \<noteq> CHR '':''" "c \<noteq> CHR ''}''" "c \<noteq> CHR '']''"
    using assms by (auto simp: isNumByte_def isSpace_def isDigit_def)
  then show ?thesis by (simp add: stateEndValue_def stateEndTop_def split: list.split parseState.split)
qed

text \<open>How a number goes on.\<close>

definition numberNext :: "scanStep \<Rightarrow> char \<Rightarrow> scanStep option" where
  "numberNext st c =
     (if st = Neg then (if c = CHR ''0'' then Some Num0 else if isDigit c then Some Num1 else None)
      else if st = Num1 \<and> isDigit c then Some Num1
      else if st = Num1 \<or> st = Num0 then
        (if c = CHR ''.'' then Some Dot else if c = CHR ''e'' \<or> c = CHR ''E'' then Some ExpE else None)
      else if st = Dot then (if isDigit c then Some Dot0 else None)
      else if st = Dot0 then
        (if isDigit c then Some Dot0 else if c = CHR ''e'' \<or> c = CHR ''E'' then Some ExpE else None)
      else if st = ExpE \<and> (c = CHR ''+'' \<or> c = CHR ''-'') then Some ExpSign
      else if isDigit c then Some Exp0 else None)"

lemma numberNext_number: "numberNext st c = Some st' \<Longrightarrow> st' \<in> numberSteps"
  by (auto simp: numberNext_def numberSteps_def split: if_splits)

lemma number_next:
  assumes "st \<in> numberSteps" and "isNumByte c"
  shows "scan_step (at st ps e L) c = map_option (\<lambda>st'. (at st' ps e L, False)) (numberNext st c)"
proof -
  note stop = number_stop [OF assms(2)]
  from assms(1) consider "st = Neg" | "st = Num1" | "st = Num0" | "st = Dot" | "st = Dot0" | "st = ExpE" | "st = ExpSign" | "st = Exp0"
    by (auto simp: numberSteps_def)
  then show ?thesis
    by cases (simp_all add: numberNext_def scan_step_def goTo_def state0_def stateESign_def stop)
qed

lemma number_step:
  assumes "st \<in> numberSteps" and "isNumByte c" and "scan_step (at st ps e L) c \<noteq> None"
  shows "\<exists>st'\<in>numberSteps. \<forall>qs d M. scan_step (at st qs d M) c = Some (at st' qs d M, False)"
  using assms(3) numberNext_number [of st c] unfolding number_next [OF assms(1,2)] by auto

lemma number_end:
  assumes "st \<in> numberSteps" and "\<not> isNumByte c"
  shows "scan_step (at st ps e L) c = (if st \<in> endSteps then stateEndValue (at st ps e L) c else None)"
proof -
  from assms(2) have c: "\<not> isDigit c" "c \<noteq> CHR ''.''" "c \<noteq> CHR ''e''" "c \<noteq> CHR ''E''" "c \<noteq> CHR ''+''" "c \<noteq> CHR ''-''"
    by (simp_all add: isNumByte_def)
  have z: "c \<noteq> CHR ''0''" using c(1) by (rule contrapos_nn) (simp add: isDigit_def)
  from assms(1) consider "st = Neg" | "st = Num1" | "st = Num0" | "st = Dot" | "st = Dot0" | "st = ExpE" | "st = ExpSign" | "st = Exp0"
    by (auto simp: numberSteps_def)
  then show ?thesis
    by cases (simp_all add: scan_step_def state0_def stateESign_def endSteps_def c z)
qed

lemma number_scan:
  assumes "scan_all (at st ps e L) cs = Some send" and "st \<in> numberSteps" and "complete send"
  shows "\<exists>st'\<in>numberSteps \<inter> endSteps. (\<forall>qs d M. scan_all (at st qs d M) (takeWhile isNumByte cs) = Some (at st' qs d M)) \<and>
    scan_all (at st' ps e L) (dropWhile isNumByte cs) = Some send"
  using assms
proof (induction cs arbitrary: st)
  case Nil
  then show ?case by (auto simp: numberSteps_def endSteps_def)
next
  case (Cons c cs)
  show ?case
  proof (cases "isNumByte c")
    case True
    from number_step [OF Cons.prems(2) True scan_all_step [OF Cons.prems(1)]] obtain st1 where s: "st1 \<in> numberSteps"
      "\<forall>qs d M. scan_step (at st qs d M) c = Some (at st1 qs d M, False)" by blast
    with Cons.prems(1) have "scan_all (at st1 ps e L) cs = Some send" by simp
    from Cons.IH [OF this s(1) Cons.prems(3)] s(2) True show ?thesis by auto
  next
    case False
    with number_end [OF Cons.prems(2) False] scan_all_step [OF Cons.prems(1)] have "st \<in> endSteps" by (auto split: if_splits)
    with False Cons.prems show ?thesis by auto
  qed
qed

lemma literal_scan:
  assumes "scan_all (at (Lit l) ps e L) cs = Some send" and "l \<noteq> []" and "complete send"
  shows "take (length l) cs = l \<and> (\<forall>qs d M. scan_all (at (Lit l) qs d M) l = Some (at EndValue qs d M)) \<and>
    scan_all (at EndValue ps e L) (drop (length l) cs) = Some send"
  using assms
proof (induction l arbitrary: cs)
  case (Cons a l)
  from Cons.prems(1,3) obtain c cs' where cs: "cs = c # cs'" by (cases cs) (auto simp: endSteps_def)
  with Cons.prems(1) have c: "c = a" by (auto simp: scan_step_def split: if_splits)
  have step: "scan_step (at (Lit (a # l)) qs d M) a = Some (at (if l = [] then EndValue else Lit l) qs d M, False)" for qs d M
    by (simp add: scan_step_def goTo_def)
  show ?case
  proof (cases "l = []")
    case True
    with Cons.prems(1) cs c step show ?thesis by simp
  next
    case False
    with Cons.prems(1) cs c step have "scan_all (at (Lit l) ps e L) cs' = Some send" by simp
    from Cons.IH [OF this False Cons.prems(3)] cs c step False show ?thesis by simp
  qed
qed simp

end
