(* ===== verification/JsonRoundtrip.thy ===== *)
theory JsonRoundtrip
  imports JsonValues
begin

text \<open>
  The encoding of a map of raw values followed by its decoding. The results carry the claim that
  the router passes the members of a chat request on unchanged.
\<close>

subsection \<open>Larger bounds\<close>

lemma scan_step_limit:
  assumes "scan_step s c = Some (s', f)"
  shows "sc_limit s' = sc_limit s"
proof -
  have "scan_step s c = Some (raise (sc_limit s) s', f)" using scan_step_raise [OF assms order_refl] by simp
  with assms have "s' = raise (sc_limit s) s'" by simp
  then show ?thesis by (metis scanner.select_convs(4) scanner.surjective scanner.update_convs(4))
qed

lemma scan_all_raise: "scan_all s cs = Some s' \<Longrightarrow> sc_limit s \<le> M \<Longrightarrow> scan_all (raise M s) cs = Some (raise M s')"
proof (induction cs arbitrary: s)
  case (Cons c cs)
  then obtain s1 f where "scan_step s c = Some (s1, f)" by (cases "scan_step s c") auto
  with Cons scan_step_raise [OF this Cons.prems(2)] scan_step_limit [OF this] show ?case by simp
qed simp

lemma scan_eof_raise: "scan_eof s \<Longrightarrow> sc_limit s \<le> M \<Longrightarrow> scan_eof (raise M s)"
proof (cases "scan_step s (CHR '' '')")
  case (Some sf)
  assume "scan_eof s" "sc_limit s \<le> M"
  with Some scan_step_raise [of s "CHR '' ''" "fst sf" "snd sf" M] show ?thesis
    by (auto simp: scan_eof_def split: prod.splits)
qed (simp add: scan_eof_def)

lemma compactLoop_raise:
  "compactLoop s k cs = Some out \<Longrightarrow> sc_limit s \<le> M \<Longrightarrow> compactLoop (raise M s) k cs = Some out"
proof (induction cs arbitrary: s k out)
  case Nil
  then show ?case by (auto simp: scan_eof_raise split: if_splits)
next
  case (Cons c cs)
  from Cons.prems(1) obtain s1 f where st: "scan_step s c = Some (s1, f)" by (cases "scan_step s c") auto
  from scan_step_raise [OF this Cons.prems(2)] scan_step_limit [OF st] Cons.prems st Cons.IH [of s1] show ?case
    by (fastforce simp: Let_def)
qed

text \<open>A value with at most \<open>L\<close> open brackets.\<close>

definition validAt :: "nat \<Rightarrow> string \<Rightarrow> bool" where
  "validAt L v \<longleftrightarrow> (case scan_all (newScanner\<lparr>sc_limit := L\<rparr>) v of None \<Rightarrow> False | Some s \<Rightarrow> scan_eof s)"

lemma validAt_max: "validAt maxNestingDepth v \<longleftrightarrow> checkValid v"
  by (simp add: validAt_def checkValid_def newScanner_def)

lemma compact_tight:
  assumes "validAt L raw" and "L \<le> maxNestingDepth"
  shows "\<exists>out. compact raw = Some out \<and> tight L out"
proof -
  let ?s = "newScanner\<lparr>sc_limit := L\<rparr>"
  have "compactLoop ?s 0 raw \<noteq> None" using assms(1) unfolding compactLoop_Some_iff validAt_def .
  then obtain out where out: "compactLoop ?s 0 raw = Some out" by blast
  have "raise maxNestingDepth ?s = newScanner" by (simp add: newScanner_def)
  with compactLoop_raise [OF out, of maxNestingDepth] assms(2) have "compact raw = Some out" by (simp add: compact_def)
  moreover have "tight L out"
    using compactLoop_tight [OF out, of ?s] by (auto simp: lag_def litOk_new tight_def)
  ultimately show ?thesis by blast
qed

lemma skipComposite_raise:
  "skipComposite s cs = Some x \<Longrightarrow> sc_limit s \<le> M \<Longrightarrow> skipComposite (raise M s) cs = Some x"
proof (induction cs arbitrary: s x)
  case (Cons c cs)
  from Cons.prems(1) obtain s1 f where st: "scan_step s c = Some (s1, f)" by (cases "scan_step s c") auto
  from scan_step_raise [OF this Cons.prems(2)] scan_step_limit [OF st] Cons.prems st Cons.IH [of s1] show ?case
    by (auto split: if_splits)
qed simp


subsection \<open>Values inside a composite\<close>

text \<open>A scanner inside one more composite, whose part of the stack is \<open>p\<close>.\<close>

definition nest :: "parseState \<Rightarrow> scanner \<Rightarrow> scanner" where
  "nest p s = at (if sc_step s = EndTop then EndValue else sc_step s) (sc_parseState s @ [p]) False (Suc (sc_limit s))"

lemma nest_simps [simp]:
  "sc_parseState (nest p s) = sc_parseState s @ [p]" "sc_limit (nest p s) = Suc (sc_limit s)"
  "sc_step (nest p s) = (if sc_step s = EndTop then EndValue else sc_step s)" "\<not> sc_endTop (nest p s)"
  by (simp_all add: nest_def)

abbreviation nested :: "parseState \<Rightarrow> scanResult \<Rightarrow> scanResult" where
  "nested p \<equiv> map_option (\<lambda>(s, f). (nest p s, f))"

lemma nested_if: "nested p (if b then x else y) = (if b then nested p x else nested p y)"
  by simp

lemma nest_goTo: "st \<noteq> EndTop \<Longrightarrow> goTo st (nest p s) = nested p (goTo st s)"
  by (cases s) (simp add: goTo_def nest_def)

lemma nest_pop: "sc_parseState s \<noteq> [] \<Longrightarrow> popParseState (nest p s) = nested p (popParseState s)"
  by (cases s; cases "sc_parseState s") (auto simp: popParseState_def nest_def split: list.split)

lemma nest_parseState:
  "(nest p s)\<lparr>sc_parseState := ps @ [p]\<rparr> = nest p (s\<lparr>sc_parseState := ps\<rparr>)"
  "sc_step s \<noteq> EndTop \<Longrightarrow> st \<noteq> EndTop \<Longrightarrow> (nest p s)\<lparr>sc_step := st\<rparr> = nest p (s\<lparr>sc_step := st\<rparr>)"
  by (simp_all add: nest_def)

lemma nest_stateEndValue:
  assumes "sc_parseState s \<noteq> []" and "sc_step s \<noteq> EndTop"
  shows "stateEndValue (nest p s) c = nested p (stateEndValue s c)"
proof -
  obtain q qs where ps: "sc_parseState s = q # qs" using assms(1) by (cases "sc_parseState s") auto
  have upd: "(nest p s)\<lparr>sc_parseState := x # qs @ [p]\<rparr> = nest p (s\<lparr>sc_parseState := x # qs\<rparr>)" for x
    using nest_parseState(1) [of "x # qs" p s] by simp
  from ps assms show ?thesis
    by (cases q) (simp_all add: stateEndValue_def upd nest_goTo nest_pop nest_parseState(2) nested_if split del: if_split cong: if_cong)
qed

text \<open>An open composite is not done; a done one is at the end.\<close>

definition openScan :: "scanner \<Rightarrow> bool" where
  "openScan s \<longleftrightarrow> sc_parseState s \<noteq> [] \<and> sc_step s \<noteq> EndTop \<and> \<not> sc_endTop s"

lemma nest_step:
  assumes "openScan s"
  shows "scan_step (nest p s) c = nested p (scan_step s c)"
proof -
  from assms have ne: "sc_parseState s \<noteq> []" "sc_step s \<noteq> EndTop" by (simp_all add: openScan_def)
  note ev = nest_stateEndValue [OF ne]
  have other: "stateESign (nest p s) c = nested p (stateESign s c)" "state0 (nest p s) c = nested p (state0 s c)"
    "stateBeginString (nest p s) c = nested p (stateBeginString s c)"
    by (simp_all add: stateESign_def state0_def stateBeginString_def nest_goTo ev nested_if split del: if_split cong: if_cong)
  have push: "pushParseState st q (nest p s) = nested p (pushParseState st q s)" if "st \<noteq> EndTop" for st q
    using ne that by (cases s) (simp add: pushParseState_def nest_def)
  have val: "stateBeginValue (nest p s) c = nested p (stateBeginValue s c)"
    by (simp add: stateBeginValue_def nest_goTo push nested_if split del: if_split cong: if_cong)
  have upd: "(nest p s)\<lparr>sc_parseState := parseObjectValue # tl (sc_parseState s) @ [p]\<rparr> =
      nest p (s\<lparr>sc_parseState := parseObjectValue # tl (sc_parseState s)\<rparr>)"
    using nest_parseState(1) [of "parseObjectValue # tl (sc_parseState s)" p s] by simp
  have object: "stateEndValue ((nest p s)\<lparr>sc_parseState := parseObjectValue # tl (sc_parseState s) @ [p]\<rparr>) d =
      nested p (stateEndValue (s\<lparr>sc_parseState := parseObjectValue # tl (sc_parseState s)\<rparr>) d)" for d
    using nest_stateEndValue [of "s\<lparr>sc_parseState := parseObjectValue # tl (sc_parseState s)\<rparr>" p d] ne
    unfolding upd by simp
  have lit: "nested p (goTo (if b then EndValue else Lit l) s) = goTo (if b then EndValue else Lit l) (nest p s)" for b l
    by (simp add: nest_goTo)
  show ?thesis
    by (cases "sc_step s")
      (use ne in \<open>simp_all add: lit scan_step_def ev other val object nest_goTo nested_if split del: if_split split: list.split nat.split cong: if_cong\<close>)
qed

lemma open_step:
  assumes "openScan s" and "scan_step s c = Some (s', f)"
  shows "sc_parseState s' \<noteq> [] \<and> openScan s' \<or>
    sc_parseState s' = [] \<and> s' = at EndTop [] True (sc_limit s)"
proof -
  define good where "good r = (\<forall>s' f. r = Some (s', f) \<longrightarrow> openScan s' \<or> s' = at EndTop [] True (sc_limit s))" for r :: scanResult
  have if_good: "good (if b then x else y)" if "good x" "good y" for b x y using that by simp
  have basic: "good None" "good (Some (s, g))" "st \<noteq> EndTop \<Longrightarrow> good (goTo st s)" "st \<noteq> EndTop \<Longrightarrow> good (pushParseState st q s)" for g st q
    using assms(1) by (auto simp: good_def openScan_def goTo_def pushParseState_def)
  have fin: "good (stateEndValue x d)" if "sc_parseState x \<noteq> []" "sc_step x \<noteq> EndTop \<and> \<not> sc_endTop x" "sc_limit x = sc_limit s" for x d
  proof -
    from that(1) obtain q qs where "sc_parseState x = q # qs" by (cases "sc_parseState x") auto
    with that(2,3) show ?thesis
      by (cases x) (auto simp: good_def openScan_def stateEndValue_def goTo_def popParseState_def split: parseState.splits list.splits if_splits)
  qed
  have ne: "sc_parseState s \<noteq> []" "sc_step s \<noteq> EndTop \<and> \<not> sc_endTop s" using assms(1) by (simp_all add: openScan_def)
  note fin_s = fin [OF ne refl]
  have other: "good (stateESign s c)" "good (state0 s c)" "good (stateBeginString s c)" "good (stateBeginValue s c)"
    unfolding stateESign_def state0_def stateBeginString_def stateBeginValue_def by (intro if_good basic fin_s; simp)+
  have "good (scan_step s c)"
    by (cases "sc_step s")
      (use ne in \<open>auto simp: scan_step_def intro!: if_good basic fin_s fin other split: list.split nat.split\<close>)
  with assms(2) show ?thesis by (auto simp: good_def openScan_def)
qed

lemma composite_scan:
  assumes "scan_all (nest p s) cs = Some send" and "sc_parseState send = []" and "openScan s"
  shows "\<exists>item rest. skipComposite s cs = Some (item, rest) \<and> cs = item @ rest \<and>
    scan_all s item = Some (at EndTop [] True (sc_limit s)) \<and>
    scan_all (nest p s) item = Some (at EndValue [p] False (Suc (sc_limit s))) \<and> scan_all (at EndValue [p] False (Suc (sc_limit s))) rest = Some send"
  using assms
proof (induction cs arbitrary: s)
  case Nil
  then show ?case by auto
next
  case (Cons c cs)
  from Cons.prems(1) nest_step [OF Cons.prems(3), of p c] obtain s1 f where st: "scan_step s c = Some (s1, f)"
      "scan_all (nest p s1) cs = Some send"
    by (cases "scan_step s c") auto
  from open_step [OF Cons.prems(3) st(1)] show ?case
  proof (elim disjE conjE)
    assume "sc_parseState s1 \<noteq> []" "openScan s1"
    with Cons.IH [OF st(2) Cons.prems(2)] st(1) scan_step_limit [OF st(1)] nest_step [OF Cons.prems(3), of p c] show ?thesis
      by fastforce
  next
    assume "sc_parseState s1 = []" "s1 = at EndTop [] True (sc_limit s)"
    with st nest_step [OF Cons.prems(3), of p c] show ?thesis
      by - (rule exI [of _ "[c]"], rule exI [of _ cs], simp add: nest_def)
  qed
qed

lemma scan_eof_endSteps: "st \<in> endSteps \<Longrightarrow> scan_eof (at st [] e L)"
  using endSteps_space [of "at st [] e L"] by (simp add: scan_eof_def)

text \<open>Reading a value off the front of the input of a scan that goes on after it.\<close>

lemma takeValue_scan:
  assumes "scan_all (at BeginValue [p] False (Suc L)) (c # cs) = Some send" and "sc_parseState send = []" and "complete send"
    and "\<not> isSpace c" and "L \<le> maxNestingDepth"
  shows "\<exists>raw rest st. takeValue (c # cs) = Some (raw, rest) \<and> c # cs = raw @ rest \<and> raw \<noteq> [] \<and> st \<in> endSteps \<and> validAt L raw \<and>
    (st = EndValue \<or> rest = [] \<or> \<not> isNumByte (hd rest)) \<and>
    scan_all (at BeginValue [p] False (Suc L)) raw = Some (at st [p] False (Suc L)) \<and> scan_all (at st [p] False (Suc L)) rest = Some send"
proof -
  have step: "scan_step (at BeginValue qs d M) c = stateBeginValue (at BeginValue qs d M) c" for qs d M by (simp add: scan_step_def)
  have new: "newScanner\<lparr>sc_limit := L\<rparr> = at BeginValue [] False L" by (simp add: newScanner_def)
  have composite: ?thesis if c: "c = CHR ''{'' \<or> c = CHR ''[''" and st0: "st0 \<noteq> EndTop"
    and st: "\<And>s. sc_step s = BeginValue \<Longrightarrow> scan_step s c = pushParseState st0 q s" for st0 q
  proof -
    from scan_all_step [OF assms(1)] have L: "1 < Suc L" by (auto simp: st pushParseState_def split: if_splits)
    have n: "at st0 [q, p] False (Suc L) = nest p (at st0 [q] False L)" using st0 by (simp add: nest_def)
    have "scan_all (nest p (at st0 [q] False L)) cs = Some send"
      using assms(1) L by (simp add: st pushParseState_def flip: n)
    from composite_scan [OF this assms(2)] st0 obtain item rest where r: "skipComposite (at st0 [q] False L) cs = Some (item, rest)"
      "cs = item @ rest" "scan_all (at st0 [q] False L) item = Some (at EndTop [] True L)"
      "scan_all (at EndValue [p] False (Suc L)) rest = Some send"
      "scan_all (at st0 [q, p] False (Suc L)) item = Some (at EndValue [p] False (Suc L))"
      by (auto simp: openScan_def n)
    from skipComposite_raise [OF r(1), of maxNestingDepth] assms(5) have
      "skipComposite newScanner (c # cs) = Some (c # item, rest)"
      by (simp add: newScanner_def st pushParseState_def maxNestingDepth_def)
    moreover have "validAt L (c # item)" using r(3) L by (simp add: validAt_def new st pushParseState_def scan_eof_def)
    moreover have "EndValue \<in> endSteps" by (simp add: endSteps_def)
    moreover have "scan_all (at BeginValue [p] False (Suc L)) (c # item) = Some (at EndValue [p] False (Suc L))"
      using r(5) L by (simp add: st pushParseState_def)
    moreover have "takeValue (c # cs) = skipComposite newScanner (c # cs)" using c by (auto simp: takeValue_def)
    ultimately show ?thesis using r(2,4)
      by - (rule exI [of _ "c # item"], rule exI [of _ rest], rule exI [of _ EndValue], simp)
  qed
  from scan_all_step [OF assms(1)] assms(4)
  consider "c = CHR ''{''" | "c = CHR ''[''" | "byte c = 34" | "c = CHR ''-'' \<or> isDigit c"
    | l where "c \<in> set ''tfn''" "l = (if c = CHR ''t'' then ''rue'' else if c = CHR ''f'' then ''alse'' else ''ull'')"
    unfolding step stateBeginValue_def by (auto simp: isDigit_def split: if_splits)
  then show ?thesis
  proof cases
    case 3
    then have "scan_step (at BeginValue qs d M) c = Some (at InString qs d M, False)" for qs d M
      using assms(4) by (auto simp: step stateBeginValue_def goTo_def)
    note st = this
    from assms(1) st have "scan_all (at InString [p] False (Suc L)) cs = Some send" by simp
    from string_scan [OF this _ assms(3)] obtain item rest where r: "rescanString (cs @ []) = (item, rest @ [])" "cs = item @ rest"
      "\<forall>qs d M. scan_all (at InString qs d M) item = Some (at EndValue qs d M)" "scan_all (at EndValue [p] False (Suc L)) rest = Some send"
      unfolding stringSteps_def by blast
    have "validAt L (c # item)" using r(3) st by (simp add: validAt_def new scan_eof_endSteps endSteps_def)
    with r 3 show ?thesis
      by - (rule exI [of _ "c # item"], rule exI [of _ rest], rule exI [of _ EndValue], auto simp: st takeValue_def endSteps_def)
  next
    case 4
    have num: "c \<noteq> CHR ''{''" "c \<noteq> CHR ''[''" "byte c \<noteq> 34" "c \<noteq> CHR ''t''" "c \<noteq> CHR ''f''" "c \<noteq> CHR ''n''"
      using 4 by (auto simp: isDigit_def)
    define st0 where "st0 = (if c = CHR ''-'' then Neg else if c = CHR ''0'' then Num0 else Num1)"
    have st: "scan_step (at BeginValue qs d M) c = Some (at st0 qs d M, False)" for qs d M
      using assms(4) num 4 by (auto simp: step stateBeginValue_def goTo_def st0_def)
    from assms(1) st have "scan_all (at st0 [p] False (Suc L)) cs = Some send" by simp
    moreover have "st0 \<in> numberSteps" by (simp add: st0_def numberSteps_def)
    ultimately obtain st1 where r: "st1 \<in> endSteps"
      "\<And>qs d M. scan_all (at st0 qs d M) (takeWhile isNumByte cs) = Some (at st1 qs d M)"
      "scan_all (at st1 [p] False (Suc L)) (dropWhile isNumByte cs) = Some send"
      using number_scan [OF _ _ assms(3)] by blast
    have "validAt L (c # takeWhile isNumByte cs)" using r(1,2) st by (simp add: validAt_def new scan_eof_endSteps)
    moreover have "takeValue (c # cs) = Some (c # takeWhile isNumByte cs, dropWhile isNumByte cs)" using num 4 by (simp add: takeValue_def disj_commute)
    moreover have "dropWhile isNumByte cs = [] \<or> \<not> isNumByte (hd (dropWhile isNumByte cs))" using hd_dropWhile by blast
    ultimately show ?thesis using r(1,3) by - (rule exI [of _ "c # takeWhile isNumByte cs"], rule exI [of _ "dropWhile isNumByte cs"], rule exI [of _ st1], simp add: st r(2))
  next
    case 5
    then have l: "l \<noteq> []" and c: "c = CHR ''t'' \<or> c = CHR ''f'' \<or> c = CHR ''n''" by (auto split: if_splits)
    have st: "scan_step (at BeginValue qs d M) c = Some (at (Lit l) qs d M, False)" for qs d M
      using 5(2) c by (auto simp: step stateBeginValue_def goTo_def isSpace_def isDigit_def)
    from assms(1) st have "scan_all (at (Lit l) [p] False (Suc L)) cs = Some send" by simp
    from literal_scan [OF this l assms(3)] have r: "take (length l) cs = l"
      "\<And>qs d M. scan_all (at (Lit l) qs d M) l = Some (at EndValue qs d M)"
      "scan_all (at EndValue [p] False (Suc L)) (drop (length l) cs) = Some send" by blast+
    have "validAt L (c # l)" using r(2) st by (simp add: validAt_def new scan_eof_endSteps endSteps_def)
    moreover have "takeValue (c # cs) = Some (c # l, drop (length l) cs)"
      using r(1) c 5(2) by (auto simp: takeValue_def isDigit_def numeral_eq_Suc)
    moreover have "c # cs = (c # l) @ drop (length l) cs" using append_take_drop_id [of "length l" cs] r(1) by simp
    ultimately show ?thesis using r(3)
      by - (rule exI [of _ "c # l"], rule exI [of _ "drop (length l) cs"], rule exI [of _ EndValue], simp add: endSteps_def st r(2))
  qed (use composite [of BeginStringOrEmpty parseObjectKey] composite [of BeginValueOrEmpty parseArrayValue] in
      \<open>simp_all add: scan_step_def\<close>)
qed


subsection \<open>The members of an object\<close>

lemma open_space: "openScan s \<Longrightarrow> scan_step s (CHR '' '') = Some (s', f) \<Longrightarrow> sc_parseState s' = sc_parseState s"
proof -
  assume o: "openScan s" and st: "scan_step s (CHR '' '') = Some (s', f)"
  have sp: "\<not> isDigit (CHR '' '')" "\<not> isHex (CHR '' '')" by (simp_all add: isDigit_def isHex_def)
  have ev: "stateEndValue s (CHR '' '') = Some (s\<lparr>sc_step := EndValue\<rparr>, True)"
    using o by (cases "sc_parseState s") (simp_all add: openScan_def stateEndValue_def)
  from o st show ?thesis
    by (cases "sc_step s")
      (auto simp: openScan_def scan_step_def stateBeginValue_def stateBeginString_def state0_def stateESign_def stateEndTop_def goTo_def sp ev
        split: list.splits if_splits)
qed

lemma open_not_eof: "openScan s \<Longrightarrow> \<not> scan_eof s"
proof
  assume o: "openScan s" and "scan_eof s"
  then obtain s' f where st: "scan_step s (CHR '' '') = Some (s', f)" "sc_endTop s'"
    by (auto simp: openScan_def scan_eof_def split: option.splits)
  from open_step [OF o st(1)] open_space [OF o st(1)] st(2) o show False by (auto simp: openScan_def)
qed

lemma top_stays: "scan_all s cs = Some s' \<Longrightarrow> sc_step s = EndTop \<Longrightarrow> s' = s"
proof (induction cs arbitrary: s)
  case (Cons c cs)
  then show ?case by (auto simp: scan_step_def stateEndTop_def split: if_splits)
qed simp

text \<open>A composite that is complete at the end of the input has been closed.\<close>

lemma open_closed:
  "openScan s \<Longrightarrow> scan_all s cs = Some send \<Longrightarrow> scan_eof send \<Longrightarrow> send = at EndTop [] True (sc_limit s)"
proof (induction cs arbitrary: s)
  case Nil
  with open_not_eof show ?case by auto
next
  case (Cons c cs)
  then obtain s1 f where st: "scan_step s c = Some (s1, f)" "scan_all s1 cs = Some send"
    by (cases "scan_step s c") auto
  from open_step [OF Cons.prems(1) st(1)] Cons.IH [OF _ st(2) Cons.prems(3)] top_stays [OF st(2)] scan_step_limit [OF st(1)]
  show ?case by auto
qed

text \<open>Insignificant space before a value, and after one inside a composite.\<close>

lemma skipSpace_Cons: "skipSpace (c # cs) = (if isSpace c then skipSpace cs else c # cs)"
  by (simp add: skipSpace_def)

lemma begin_skip:
  assumes "scan_all s cs = Some send" and "sc_step s \<in> beginSteps" and "sc_parseState s \<noteq> []" and "sc_parseState send = []"
  shows "\<exists>d ds. skipSpace cs = d # ds \<and> \<not> isSpace d \<and> scan_all s (d # ds) = Some send"
  using assms
proof (induction cs)
  case (Cons c cs)
  show ?case
  proof (cases "isSpace c")
    case True
    with Cons.prems(2) have "scan_step s c = Some (s, True)" by (simp add: scan_step_space_iff)
    with Cons True show ?thesis by (auto simp: skipSpace_Cons)
  qed (use Cons.prems in \<open>simp add: skipSpace_Cons\<close>)
qed simp

lemma end_skip:
  assumes "scan_all (at st (q # qs) e L) cs = Some send" and "st \<in> endSteps" and "sc_parseState send = []"
    and "st = EndValue \<or> cs = [] \<or> \<not> isNumByte (hd cs)"
  shows "\<exists>d ds s1. skipSpace cs = d # ds \<and> stateEndValue (at EndValue (q # qs) e L) d = Some (s1, False) \<and> scan_all s1 ds = Some send"
  using assms
proof (induction cs arbitrary: st)
  case (Cons c cs)
  from Cons.prems(1) obtain s1 f where st: "scan_step (at st (q # qs) e L) c = Some (s1, f)" "scan_all s1 cs = Some send"
    by (cases "scan_step (at st (q # qs) e L) c") auto
  show ?case
  proof (cases "isSpace c")
    case True
    with st(1) Cons.prems(2) have "s1 = at EndValue (q # qs) e L"
      using scan_step_space_iff [of "at st (q # qs) e L" c] by (auto simp: endSpace_def)
    with Cons.IH [of EndValue] st(2) Cons.prems(3) True show ?thesis by (simp add: skipSpace_Cons endSteps_def)
  next
    case False
    have "scan_step (at st (q # qs) e L) c = stateEndValue (at st (q # qs) e L) c"
    proof (cases "st = EndValue")
      case False
      with Cons.prems(2,4) show ?thesis using number_end [of st c "q # qs" e L] by (auto simp: endSteps_def numberSteps_def)
    qed (simp add: scan_step_def)
    with stateEndValue_step [of "at EndValue (q # qs) e L" st c] st(1) have "stateEndValue (at EndValue (q # qs) e L) c = Some (s1, f)"
      by simp
    moreover have "\<not> f" using False st(1) scan_step_space_iff by (cases f) auto
    ultimately show ?thesis using False st(2) by (simp add: skipSpace_Cons)
  qed
qed auto

text \<open>One member, read by the decoder and by the scanner.\<close>

lemma takeKey_scan:
  assumes "scan_all (at BeginString [parseObjectKey] False L) data = Some send" and "sc_parseState send = []" and "complete send"
  shows "\<exists>item rest afterColon. takeValue (skipSpace data) = Some (item, rest) \<and> skipSpace rest = CHR '':'' # afterColon \<and>
    scan_all (at BeginValue [parseObjectValue] False L) afterColon = Some send"
proof -
  from begin_skip [OF assms(1) _ _ assms(2)] obtain d ds where d: "skipSpace data = d # ds" "\<not> isSpace d"
      "scan_all (at BeginString [parseObjectKey] False L) (d # ds) = Some send"
    by (auto simp: beginSteps_def)
  from scan_all_step [OF d(3)] d(2) have q: "byte d = 34" by (auto simp: scan_step_def stateBeginString_def split: if_splits)
  with d have "scan_all (at InString [parseObjectKey] False L) ds = Some send"
    by (simp add: scan_step_def stateBeginString_def goTo_def)
  from string_scan [OF this _ assms(3)] obtain item rest where r: "rescanString (ds @ []) = (item, rest @ [])"
    "scan_all (at EndValue [parseObjectKey] False L) rest = Some send"
    unfolding stringSteps_def by blast
  have "takeValue (skipSpace data) = Some (d # item, rest)" using r(1) q d(1) by (auto simp: takeValue_def)
  moreover have "\<exists>e ds s1. skipSpace rest = e # ds \<and> stateEndValue (at EndValue [parseObjectKey] False L) e = Some (s1, False) \<and>
      scan_all s1 ds = Some send"
    by (rule end_skip [OF r(2) _ assms(2)]) (simp_all add: endSteps_def)
  ultimately show ?thesis by (auto simp: stateEndValue_def goTo_def split: if_splits)
qed

lemma takeMember_scan:
  assumes "scan_all (at BeginValue [parseObjectValue] False (Suc L)) data = Some send" and "sc_parseState send = []" and "complete send"
    and "L \<le> maxNestingDepth"
  shows "\<exists>raw rest d ds. takeValue (skipSpace data) = Some (raw, rest) \<and> validAt L raw \<and> skipSpace rest = d # ds \<and>
    (d = CHR '','' \<and> scan_all (at BeginString [parseObjectKey] False (Suc L)) ds = Some send \<or> d = CHR ''}'')"
proof -
  from begin_skip [OF assms(1) _ _ assms(2)] obtain c cs where c: "skipSpace data = c # cs" "\<not> isSpace c"
      "scan_all (at BeginValue [parseObjectValue] False (Suc L)) (c # cs) = Some send"
    by (auto simp: beginSteps_def)
  from takeValue_scan [OF c(3) assms(2,3) c(2) assms(4)] obtain raw rest st where r: "takeValue (c # cs) = Some (raw, rest)"
    "validAt L raw" "st \<in> endSteps" "st = EndValue \<or> rest = [] \<or> \<not> isNumByte (hd rest)"
    "scan_all (at st [parseObjectValue] False (Suc L)) rest = Some send" by blast
  from end_skip [OF r(5,3) assms(2) r(4)] r(1,2) c(1) show ?thesis
    by (auto simp: stateEndValue_def goTo_def split: if_splits)
qed

definition goodMembers :: "nat \<Rightarrow> RawObject \<Rightarrow> bool" where
  "goodMembers L m \<longleftrightarrow> distinct (map fst m) \<and> (\<forall>(k, raw)\<in>set m. toValidUTF8 k = k \<and> validAt L raw)"

lemma goodMembers_update: "goodMembers L m \<Longrightarrow> toValidUTF8 k = k \<Longrightarrow> validAt L raw \<Longrightarrow> goodMembers L (AList.update k raw m)"
proof -
  assume a: "goodMembers L m" "toValidUTF8 k = k" "validAt L raw"
  have "set (AList.update k raw m) \<subseteq> insert (k, raw) (set m)"
    by (induction m) auto
  with a show ?thesis by (auto simp: goodMembers_def distinct_update)
qed

text \<open>The members a valid object decodes to: distinct keys in valid UTF-8, values that are JSON values.\<close>

lemma decodeMembers_good:
  assumes "scan_all (at BeginString [parseObjectKey] False (Suc L)) data = Some send" and "sc_parseState send = []" and "complete send"
    and "L \<le> maxNestingDepth" and "decodeMembers data m = Some payload" and "goodMembers L m"
  shows "goodMembers L payload"
  using assms
proof (induction data m rule: decodeMembers.induct)
  case (1 data m)
  from takeKey_scan [OF 1(2-4)] obtain item rest afterColon where k: "takeValue (skipSpace data) = Some (item, rest)"
    "skipSpace rest = CHR '':'' # afterColon" "scan_all (at BeginValue [parseObjectValue] False (Suc L)) afterColon = Some send" by blast
  from "1.prems"(5) k(1,2) obtain key where key: "unquote item = Some key"
    by (auto simp: decodeMembers.simps [of data] split: option.splits)
  from takeMember_scan [OF k(3) "1.prems"(2-4)] obtain raw rest' d ds where r: "takeValue (skipSpace afterColon) = Some (raw, rest')"
    "validAt L raw" "skipSpace rest' = d # ds"
    "d = CHR '','' \<and> scan_all (at BeginString [parseObjectKey] False (Suc L)) ds = Some send \<or> d = CHR ''}''" by blast
  have good: "goodMembers L (AList.update key raw m)"
    by (rule goodMembers_update [OF "1.prems"(6) unquote_validUTF8 [OF key] r(2)])
  show ?case
  proof (cases "d = CHR '',''")
    case True
    with r(4) have sc: "scan_all (at BeginString [parseObjectKey] False (Suc L)) ds = Some send" by simp
    from True "1.prems"(5) k key r(1,3) have "decodeMembers ds (AList.update key raw m) = Some payload"
      by (simp add: decodeMembers.simps [of data])
    from "1.IH" [OF k(1) refl key k(2) _ r(1) refl r(3) True sc "1.prems"(2-4) this good] show ?thesis by simp
  next
    case False
    with "1.prems"(5) k key r(1,3,4) good show ?thesis by (simp add: decodeMembers.simps [of data])
  qed
qed


lemma skipSpace_scan: "sc_step s \<in> beginSteps \<Longrightarrow> scan_all s (skipSpace cs) = scan_all s cs"
proof (induction cs)
  case (Cons c cs)
  then show ?case using scan_step_space_iff [of s c s] by (cases "isSpace c") (simp_all add: skipSpace_def)
qed (simp add: skipSpace_def)

lemma UnmarshalObject_good:
  assumes "UnmarshalObject body = Some (Some payload)"
  shows "goodMembers 9999 payload"
proof -
  from assms obtain send where send: "scan_all newScanner body = Some send" "scan_eof send"
    by (auto simp: UnmarshalObject_def checkValid_def split: if_splits option.splits)
  from assms obtain cs where cs: "skipSpace body = CHR ''{'' # cs"
    by (auto simp: UnmarshalObject_def split: if_splits list.splits)
  let ?s = "at BeginStringOrEmpty [parseObjectKey] False (Suc 9999)"
  have "scan_all newScanner (CHR ''{'' # cs) = Some send"
    using skipSpace_scan [of newScanner body] send(1) cs by (simp add: newScanner_def beginSteps_def)
  then have s: "scan_all ?s cs = Some send"
    by (simp add: newScanner_def scan_step_def pushParseState_def maxNestingDepth_def)
  have closed: "send = at EndTop [] True (Suc 9999)"
    using open_closed [OF _ s send(2)] by (simp add: openScan_def)
  with begin_skip [OF s] obtain d ds where d: "skipSpace cs = d # ds" "\<not> isSpace d" "scan_all ?s (d # ds) = Some send"
    by (auto simp: beginSteps_def)
  show ?thesis
  proof (cases "d = CHR ''}''")
    case True
    with assms cs d(1) show ?thesis by (simp add: UnmarshalObject_def goodMembers_def split: if_splits)
  next
    case False
    with d have "scan_all (at BeginString [parseObjectKey] False (Suc 9999)) (skipSpace cs) = Some send"
      by (auto simp: scan_step_def stateBeginString_def goTo_def split: if_splits)
    then have sc: "scan_all (at BeginString [parseObjectKey] False (Suc 9999)) cs = Some send"
      by (simp add: skipSpace_scan beginSteps_def)
    from assms cs d(1) False have "decodeMembers cs [] = Some payload"
      by (auto simp: UnmarshalObject_def split: if_splits)
    from decodeMembers_good [OF sc _ _ _ this] closed show ?thesis by (simp add: goodMembers_def maxNestingDepth_def)
  qed
qed


subsection \<open>Values without insignificant space\<close>

text \<open>A scan that is still outside every composite.\<close>

definition outside :: "scanner \<Rightarrow> bool" where
  "outside s \<longleftrightarrow> sc_parseState s = [] \<and> sc_step s \<notin> {EndTop, BeginStringOrEmpty, BeginValueOrEmpty} \<and> \<not> sc_endTop s"

lemma outside_end: "sc_parseState s = [] \<Longrightarrow> stateEndValue s c \<noteq> Some (s', False)"
  by (simp add: stateEndValue_def stateEndTop_def)

lemma outside_step:
  assumes "outside s" and "scan_step s c = Some (s', False)"
  shows "(openScan s' \<or> outside s') \<and> scan_step (nest p s) c = Some (nest p s', False)"
proof -
  define good where "good r r' = (\<forall>s'. r = Some (s', False) \<longrightarrow> (openScan s' \<or> outside s') \<and> r' = Some (nest p s', False))"
    for r r' :: scanResult
  have if_good: "good (if b then x else y) (if b then x' else y')" if "good x x'" "good y y'" for b x y x' y' using that by simp
  have o: "sc_parseState s = []" "sc_step s \<noteq> EndTop" "\<not> sc_endTop s" using assms(1) by (simp_all add: outside_def)
  have basic: "good None r" "good (Some (x, True)) r" "good (stateEndValue s c) r" for r x using outside_end [OF o(1)] by (simp_all add: good_def)
  have self: "good (Some (s, False)) (Some (nest p s, False))" using assms(1) by (simp add: good_def)
  have go: "good (goTo st s) (goTo st (nest p s))" if "st \<notin> {EndTop, BeginStringOrEmpty, BeginValueOrEmpty}" for st
    using that o nest_goTo [of st p s] by (auto simp: good_def goTo_def outside_def)
  have push: "good (pushParseState st q s) (pushParseState st q (nest p s))" if "st \<noteq> EndTop" for st q
    using that o by (cases s) (auto simp: good_def pushParseState_def openScan_def nest_def)
  have lit: "good (goTo (if b then EndValue else Lit l) s) (goTo (if b then EndValue else Lit l) (nest p s))" for b l
    by (rule go) simp
  have "good (scan_step s c) (scan_step (nest p s) c)"
    by (cases "sc_step s")
      (use assms(1) o(2) in \<open>auto simp: scan_step_def outside_def stateBeginValue_def stateBeginString_def state0_def stateESign_def
        intro!: if_good basic self go push lit split: list.split nat.split\<close>)
  with assms(2) show ?thesis by (simp add: good_def)
qed

lemma tight_nest:
  assumes "tightRun s v = Some send" and "outside s \<or> openScan s \<or> s = at EndTop [] True L"
  shows "scan_all (nest p s) v = Some (nest p send) \<and> (outside send \<or> openScan send \<or> send = at EndTop [] True (sc_limit s))"
  using assms
proof (induction v arbitrary: s L)
  case (Cons c v)
  from Cons.prems(1) obtain s1 where st: "scan_step s c = Some (s1, False)" "tightRun s1 v = Some send"
    by (auto split: option.splits prod.splits bool.splits)
  note lim = scan_step_limit [OF st(1)]
  from Cons.prems(2) show ?case
  proof (elim disjE)
    assume "outside s"
    from outside_step [OF this st(1), of p] Cons.IH [OF st(2), of L] lim show ?thesis by auto
  next
    assume o: "openScan s"
    from nest_step [OF o, of p c] open_step [OF o st(1)] Cons.IH [OF st(2), of "sc_limit s"] lim st(1) show ?thesis by auto
  next
    assume "s = at EndTop [] True L"
    with st(1) show ?thesis by (auto simp: scan_step_def stateEndTop_def split: if_splits)
  qed
qed (use assms in auto)

lemma outside_eof: "outside s \<Longrightarrow> scan_eof s \<Longrightarrow> sc_step s \<in> endSteps"
proof -
  assume o: "outside s" and e: "scan_eof s"
  then obtain s' f where st: "scan_step s (CHR '' '') = Some (s', f)" "sc_endTop s'"
    by (auto simp: outside_def scan_eof_def split: option.splits)
  show ?thesis
  proof (cases f)
    case True
    with st o show ?thesis by (auto simp: scan_step_space_iff outside_def)
  next
    case False
    with outside_step [OF o] st show ?thesis by (auto simp: outside_def openScan_def)
  qed
qed

text \<open>After a complete value only a number can go on.\<close>

lemma done_step:
  assumes "outside s \<and> sc_step s \<in> endSteps \<or> s = at EndTop [] True L" and "scan_step s c = Some (s', f)" and "\<not> isSpace c"
  shows "isNumByte c \<and> sc_step s \<in> endSteps - {EndValue}"
proof -
  have "s \<noteq> at EndTop [] True L"
  proof
    assume "s = at EndTop [] True L"
    with assms(2,3) show False by (simp add: endValue_step stateEndTop_def)
  qed
  with assms(1) have o: "outside s" "sc_step s \<in> endSteps" by simp_all
  then obtain st e M where s: "s = at st [] e M" "st \<in> endSteps" by (cases s) (auto simp: outside_def)
  have fin: "stateEndValue x c = None" if "sc_parseState x = []" for x
    using that assms(3) by (simp add: stateEndValue_def stateEndTop_def)
  show ?thesis
  proof (cases "st = EndValue")
    case True
    with s assms(2) fin [of s] show ?thesis by (simp add: scan_step_def)
  next
    case False
    with s have "st \<in> numberSteps" by (auto simp: endSteps_def numberSteps_def)
    with number_end [of st c "[]" e M] s fin [of s] assms(2) False show ?thesis by (cases "isNumByte c") auto
  qed
qed

text \<open>A value without insignificant space, and the scan of it inside a composite.\<close>

lemma tight_inside:
  assumes "tight L v"
  obtains t where "tightRun (at BeginValue [] False L) v = Some t" "outside t \<and> sc_step t \<in> endSteps \<or> t = at EndTop [] True L"
    "\<And>p. scan_all (at BeginValue [p] False (Suc L)) v = Some (nest p t)"
proof -
  let ?s = "at BeginValue [] False L"
  have "newScanner\<lparr>sc_limit := L\<rparr> = ?s" by (simp add: newScanner_def)
  with assms obtain t where t: "tightRun ?s v = Some t" "scan_eof t" by (auto simp: tight_def split: option.splits)
  have n: "nest p ?s = at BeginValue [p] False (Suc L)" for p by (simp add: nest_def)
  have start: "outside ?s" by (simp add: outside_def)
  have nested: "scan_all (nest p ?s) v = Some (nest p t) \<and> (outside t \<or> openScan t \<or> t = at EndTop [] True (sc_limit ?s))" for p
    by (rule tight_nest [OF t(1)]) (use start in blast)
  then have "outside t \<or> t = at EndTop [] True L" using open_not_eof t(2) by auto
  then have "outside t \<and> sc_step t \<in> endSteps \<or> t = at EndTop [] True L" using outside_eof t(2) by blast
  with nested t(1) that show thesis unfolding n by blast
qed

lemma nest_done:
  assumes "outside t \<and> sc_step t \<in> endSteps \<or> t = at EndTop [] True L" and "sc_limit t = L"
  obtains st where "nest p t = at st [p] False (Suc L)" "st \<in> endSteps" "st = EndValue \<or> st = sc_step t"
proof (cases "t = at EndTop [] True L")
  case True
  with that [of EndValue] show thesis by (simp add: nest_def endSteps_def)
next
  case False
  with assms that [of "sc_step t"] show thesis by (auto simp: nest_def outside_def endSteps_def)
qed

lemma tightRun_limit: "tightRun s v = Some t \<Longrightarrow> sc_limit t = sc_limit s"
proof (induction v arbitrary: s)
  case (Cons c v)
  then obtain s1 where "scan_step s c = Some (s1, False)" "tightRun s1 v = Some t"
    by (auto split: option.splits prod.splits bool.splits)
  with Cons.IH scan_step_limit show ?case by fastforce
qed simp

text \<open>The decoder reads such a value back whole.\<close>

lemma takeValue_tight:
  assumes "tight L v" and "L \<le> maxNestingDepth"
    and "scan_all (at BeginValue [p] False (Suc L)) (v @ w) = Some send" and "sc_parseState send = []" and "complete send"
    and "w \<noteq> []" and "\<not> isNumByte (hd w)" and "\<not> isSpace (hd w)"
  shows "takeValue (v @ w) = Some (v, w) \<and> skipSpace (v @ w) = v @ w"
proof -
  obtain t where t: "tightRun (at BeginValue [] False L) v = Some t" "outside t \<and> sc_step t \<in> endSteps \<or> t = at EndTop [] True L"
    "\<And>p. scan_all (at BeginValue [p] False (Suc L)) v = Some (nest p t)" by (rule tight_inside [OF assms(1)]) (rule that)
  have "v \<noteq> []" using t(1,2) by (auto simp: outside_def endSteps_def)
  then obtain c cs where v: "v = c # cs" by (cases v) auto
  have c: "\<not> isSpace c" using t(1) v by (auto simp: scan_step_def stateBeginValue_def split: option.splits prod.splits bool.splits)
  from assms(3) v have "scan_all (at BeginValue [p] False (Suc L)) (c # cs @ w) = Some send" by simp
  from takeValue_scan [OF this assms(4,5) c assms(2)] v obtain raw rest st where r: "takeValue (v @ w) = Some (raw, rest)"
    "v @ w = raw @ rest" "validAt L raw" "st = EndValue \<or> rest = [] \<or> \<not> isNumByte (hd rest)"
    "scan_all (at BeginValue [p] False (Suc L)) raw = Some (at st [p] False (Suc L))" "scan_all (at st [p] False (Suc L)) rest = Some send"
    unfolding append_Cons [symmetric] by blast
  have new: "newScanner\<lparr>sc_limit := L\<rparr> = at BeginValue [] False L" by (simp add: newScanner_def)
  from r(2) have "raw = v"
  proof (rule append_eq_append_conv2 [THEN iffD1, elim_format], elim exE disjE conjE)
    fix us
    assume us: "v = raw @ us" "us @ w = rest"
    show ?thesis
    proof (cases us)
      case (Cons y ys)
      from t(1) us(1) obtain t1 where t1: "tightRun (at BeginValue [] False L) raw = Some t1" "tightRun t1 us = Some t"
        by (auto simp: tightRun_append split: option.splits)
      from r(3) tightRun_scan_all [OF t1(1)] t1(1) have "tight L raw" by (simp add: validAt_def tight_def new)
      then obtain t2 where t2: "tightRun (at BeginValue [] False L) raw = Some t2"
          "outside t2 \<and> sc_step t2 \<in> endSteps \<or> t2 = at EndTop [] True L"
          "\<And>p. scan_all (at BeginValue [p] False (Suc L)) raw = Some (nest p t2)" by (rule tight_inside) (rule that)
      from t2(1) t1(1) have eq: "t2 = t1" by simp
      from t1(2) Cons obtain s1 where s1: "scan_step t1 y = Some (s1, False)"
        by (auto split: option.splits prod.splits bool.splits)
      have "\<not> isSpace y"
        using s1 scan_step_space_iff [of t1 y] t2(2) unfolding eq by (auto simp: endValue_step stateEndTop_def)
      from done_step [OF t2(2) [unfolded eq] s1 this] have y: "isNumByte y" "sc_step t1 \<in> endSteps - {EndValue}" by auto
      from t2(3) [of p] r(5) have "nest p t1 = at st [p] False (Suc L)" by (simp add: eq)
      then have "st \<noteq> EndValue" using y(2) by (auto simp: nest_def endSteps_def)
      with r(4) us(2) Cons y(1) show ?thesis by auto
    qed (use us in simp)
  next
    fix us
    assume us: "v @ us = raw" "w = us @ rest"
    show ?thesis
    proof (cases us)
      case (Cons y ys)
      with us(2) assms(7,8) have y: "\<not> isNumByte y" "\<not> isSpace y" by auto
      have "scan_all t us \<noteq> None"
        using r(3) us(1) tightRun_scan_all [OF t(1)] by (auto simp: validAt_def new scan_all_append split: option.splits)
      then obtain s1 f where "scan_step t y = Some (s1, f)" using Cons by (cases "scan_step t y") auto
      from done_step [OF t(2) this y(2)] y(1) show ?thesis by simp
    qed (use us in simp)
  qed
  with r(1,2) c v show ?thesis by (simp add: skipSpace_def)
qed

lemma rescanString_quoteRest: "rescanString (quoteRest k @ [CHR 0x22] @ r) = (quoteRest k @ [CHR 0x22], r)"
proof -
  let ?cs = "quoteRest k @ [CHR 0x22]"
  have "scan_all (inString [] False 0) ?cs = Some (at EndValue [] False 0)"
    using tightRun_scan_all [OF tight_quoteRest] by (simp add: scan_all_append scan_step_def goTo_def)
  from string_scan [OF this] obtain item rest where i: "\<forall>r. rescanString (?cs @ r) = (item, rest @ r)" "?cs = item @ rest"
    "scan_all (at EndValue [] False 0) rest = Some (at EndValue [] False 0)"
    unfolding stringSteps_def endSteps_def by fastforce
  have "rest = []"
  proof (cases rest)
    case (Cons x xs)
    then obtain s1 f where st: "scan_step (at EndValue [] False 0) x = Some (s1, f)" "scan_all s1 xs = Some (at EndValue [] False 0)"
      using i(3) by (cases "scan_step (at EndValue [] False 0) x") auto
    then have "s1 = at EndTop [] True 0" by (auto simp: endValue_step stateEndValue_def stateEndTop_def split: if_splits)
    with top_stays [OF st(2)] show ?thesis by simp
  qed
  with i(1,2) show ?thesis by (metis append.assoc append_Nil append_Nil2)
qed


subsection \<open>An encoded object is decoded to its members\<close>

abbreviation keyScan :: "nat \<Rightarrow> scanner" where
  "keyScan L \<equiv> at BeginString [parseObjectKey] False (Suc L)"

abbreviation valueScan :: "nat \<Rightarrow> scanner" where
  "valueScan L \<equiv> at BeginValue [parseObjectValue] False (Suc L)"

definition field :: "string \<times> string \<Rightarrow> string" where
  "field kv = MarshalString (fst kv) @ '':'' @ snd kv"

lemma value_scan:
  assumes "tight L v" and "d = CHR '','' \<or> d = CHR ''}''"
  shows "scan_all (valueScan L) (v @ d # r) = scan_all (if d = CHR '','' then keyScan L else at EndTop [] True (Suc L)) r"
proof -
  obtain t where t: "tightRun (at BeginValue [] False L) v = Some t" "outside t \<and> sc_step t \<in> endSteps \<or> t = at EndTop [] True L"
    "\<And>p. scan_all (at BeginValue [p] False (Suc L)) v = Some (nest p t)" by (rule tight_inside [OF assms(1)]) (rule that)
  obtain st where st: "nest parseObjectValue t = at st [parseObjectValue] False (Suc L)" "st \<in> endSteps"
    using nest_done [OF t(2)] tightRun_limit [OF t(1)] by auto
  have "scan_step (at st [parseObjectValue] False (Suc L)) d = stateEndValue (at st [parseObjectValue] False (Suc L)) d"
    using endSteps_significant [of "at st [parseObjectValue] False (Suc L)" d] st(2) assms(2) by auto
  then have step: "scan_step (at st [parseObjectValue] False (Suc L)) d =
      Some (if d = CHR '','' then keyScan L else at EndTop [] True (Suc L), False)"
    using assms(2) by (auto simp: stateEndValue_def goTo_def popParseState_def)
  show ?thesis using t(3) [of parseObjectValue] st(1) by (simp add: scan_all_append step)
qed

lemma member_scan: "scan_all (keyScan L) (MarshalString k @ '':'' @ w) = scan_all (valueScan L) w"
proof -
  have "scan_all (at InString [parseObjectKey] False (Suc L)) (quoteRest k) = Some (at InString [parseObjectKey] False (Suc L))"
    by (rule tightRun_scan_all [OF tight_quoteRest])
  then show ?thesis
    by (simp add: MarshalString_def scan_step_def stateBeginString_def goTo_def isSpace_def scan_all_append stateEndValue_def)
qed

lemma takeValue_MarshalString: "takeValue (MarshalString k @ r) = Some (MarshalString k, r)"
  using rescanString_quoteRest [of k r] by (simp add: takeValue_def MarshalString_def)

lemma skipSpace_MarshalString: "skipSpace (MarshalString k @ r) = MarshalString k @ r"
  by (simp add: skipSpace_def MarshalString_def isSpace_def)

lemma member_decode:
  assumes "tight L v" and "L \<le> maxNestingDepth" and "d = CHR '','' \<or> d = CHR ''}''"
    and "scan_all (valueScan L) (v @ d # r) = Some send" and "sc_parseState send = []" and "complete send"
  shows "decodeMembers (field (k, v) @ d # r) m =
    (if d = CHR '','' then decodeMembers r (AList.update (toValidUTF8 k) v m) else Some (AList.update (toValidUTF8 k) v m))"
proof -
  have d: "\<not> isNumByte d" "\<not> isSpace d" using assms(3) by (auto simp: isNumByte_def isDigit_def)
  have "takeValue (v @ d # r) = Some (v, d # r)" "skipSpace (v @ d # r) = v @ d # r"
    using takeValue_tight [OF assms(1,2,4,5,6)] d by simp_all
  moreover have "skipSpace (CHR '':'' # x) = CHR '':'' # x" "skipSpace (d # r) = d # r" for x
    using d(2) by (simp_all add: skipSpace_def)
  ultimately show ?thesis
    using assms(3) unfolding field_def
    by (subst decodeMembers.simps)
      (auto simp: skipSpace_MarshalString takeValue_MarshalString unquote_MarshalString)
qed

text \<open>Space may follow the closing brace.\<close>

lemma top_spaces: "list_all isSpace sp \<Longrightarrow> scan_all (at EndTop [] True L) sp = Some (at EndTop [] True L)"
  by (induction sp) (auto simp: scan_step_def stateEndTop_def isSpace_def)

lemma fields_scan:
  "list_all isSpace sp \<Longrightarrow> fs \<noteq> [] \<Longrightarrow> \<forall>(k, v)\<in>set fs. tight L v \<Longrightarrow>
     scan_all (keyScan L) (joinWith (CHR '','') (map field fs) @ CHR ''}'' # sp) = Some (at EndTop [] True (Suc L))"
proof (induction fs)
  case (Cons f fs)
  obtain k v where f: "f = (k, v)" by (cases f)
  with Cons.prems(3) have v: "tight L v" by simp
  have enc: "field f = MarshalString k @ '':'' @ v" by (simp add: field_def f)
  show ?case
  proof (cases fs)
    case Nil
    with enc value_scan [OF v, of "CHR ''}''" sp] member_scan [of L k "v @ CHR ''}'' # sp"] top_spaces [OF Cons.prems(1), of "Suc L"]
    show ?thesis by simp
  next
    case (Cons g gs)
    with enc value_scan [OF v, of "CHR '',''" "joinWith (CHR '','') (map field fs) @ CHR ''}'' # sp"]
      member_scan [of L k "v @ CHR '','' # joinWith (CHR '','') (map field fs) @ CHR ''}'' # sp"] Cons.IH Cons.prems
    show ?thesis by simp
  qed
qed simp

lemma fields_decode:
  assumes sp: "list_all isSpace sp" and "fs \<noteq> []" and "\<forall>(k, v)\<in>set fs. tight L v \<and> toValidUTF8 k = k" and "L \<le> maxNestingDepth"
  shows "decodeMembers (joinWith (CHR '','') (map field fs) @ CHR ''}'' # sp) m = Some (fold (\<lambda>(k, v). AList.update k v) fs m)"
  using assms(2-4)
proof (induction fs arbitrary: m)
  case (Cons f fs)
  obtain k v where f: "f = (k, v)" by (cases f)
  with Cons.prems(2) have v: "tight L v" and k: "toValidUTF8 k = k" by simp_all
  let ?send = "at EndTop [] True (Suc L)"
  show ?case
  proof (cases fs)
    case Nil
    have "scan_all (valueScan L) (v @ CHR ''}'' # sp) = Some ?send" using value_scan [OF v, of "CHR ''}''" sp] top_spaces [OF sp] by simp
    from member_decode [OF v Cons.prems(3) _ this, of k m] Nil f k show ?thesis by simp
  next
    case (Cons g gs)
    let ?r = "joinWith (CHR '','') (map field fs) @ CHR ''}'' # sp"
    have "scan_all (keyScan L) ?r = Some ?send" using fields_scan [OF sp, of fs L] Cons Cons.prems(2) by auto
    then have "scan_all (valueScan L) (v @ CHR '','' # ?r) = Some ?send" using value_scan [OF v, of "CHR '',''" ?r] by simp
    from member_decode [OF v Cons.prems(3) _ this, of k m] Cons f k Cons.IH Cons.prems(2,3) show ?thesis by simp
  qed
qed simp

lemma object_decode:
  assumes "list_all isSpace sp" and "\<forall>(k, v)\<in>set fs. tight 9999 v \<and> toValidUTF8 k = k"
  shows "UnmarshalObject (''{'' @ joinWith (CHR '','') (map field fs) @ CHR ''}'' # sp) = Some (Some (fold (\<lambda>(k, v). AList.update k v) fs []))"
proof (cases fs)
  case Nil
  have "checkValid (''{}'' @ sp)"
    using top_spaces [OF assms(1)]
    by (simp add: checkValid_def newScanner_def scan_step_def pushParseState_def maxNestingDepth_def stateEndValue_def popParseState_def scan_eof_def)
  with Nil show ?thesis by (simp add: UnmarshalObject_def skipSpace_def)
next
  case (Cons f gs)
  let ?r = "joinWith (CHR '','') (map field fs) @ CHR ''}'' # sp"
  have ne: "fs \<noteq> []" and t: "\<forall>(k, v)\<in>set fs. tight 9999 v" using Cons assms by auto
  obtain cs where r: "?r = CHR 0x22 # cs" using Cons by (cases gs) (auto simp: field_def MarshalString_def)
  have "scan_all (keyScan 9999) (CHR 0x22 # cs) = Some (at EndTop [] True 10000)" using fields_scan [OF assms(1) ne t] r by simp
  then have "scan_all newScanner (CHR ''{'' # CHR 0x22 # cs) = Some (at EndTop [] True 10000)"
    by (simp add: newScanner_def scan_step_def pushParseState_def maxNestingDepth_def stateBeginString_def isSpace_def goTo_def)
  then have "checkValid (''{'' @ ?r)" unfolding r by (simp add: checkValid_def scan_eof_def)
  moreover have "skipSpace (''{'' @ ?r) = CHR ''{'' # CHR 0x22 # cs" "skipSpace (CHR 0x22 # cs) = CHR 0x22 # cs"
    unfolding r by (simp_all add: skipSpace_def isSpace_def)
  moreover have "decodeMembers (CHR 0x22 # cs) [] = Some (fold (\<lambda>(k, v). AList.update k v) fs [])"
    using fields_decode [OF assms(1) ne assms(2), of "[]"] r by (simp add: maxNestingDepth_def)
  ultimately show ?thesis by (simp add: UnmarshalObject_def r)
qed


subsection \<open>Compaction keeps a quoted string\<close>

fun unescaped :: "string \<Rightarrow> bool" where
  "unescaped [] = True"
| "unescaped (c # cs) \<longleftrightarrow> \<not> htmlUnsafe c \<and> \<not> lineSep (c # cs) \<and> unescaped cs"

lemma compactLoop_identity:
  "tightRun s x = Some t \<Longrightarrow> scan_eof t \<Longrightarrow> unescaped x \<Longrightarrow> compactLoop s 0 x = Some x"
proof (induction x arbitrary: s)
  case (Cons c cs)
  from Cons.prems(1) obtain s1 where "scan_step s c = Some (s1, False)" "tightRun s1 cs = Some t"
    by (auto split: option.splits prod.splits bool.splits)
  with Cons show ?case by (simp add: Let_def)
qed simp

lemma unescaped_plain: "list_all (\<lambda>c. byte c \<noteq> 226 \<and> \<not> htmlUnsafe c) p \<Longrightarrow> unescaped t \<Longrightarrow> unescaped (p @ t)"
  by (induction p) (auto simp: lineSep_def)

lemma hexDigit_plain: "byte (hexDigit n) \<noteq> 226 \<and> \<not> htmlUnsafe (hexDigit n)"
proof -
  have "n mod 16 < 16" by simp
  moreover have "\<forall>i<16. byte (''0123456789abcdef'' ! i) \<noteq> 226 \<and> \<not> htmlUnsafe (''0123456789abcdef'' ! i)"
    by (simp add: All_less_Suc htmlUnsafe_def numeral_eq_Suc)
  ultimately show ?thesis by (simp add: hexDigit_def)
qed

lemma escape_plain:
  "list_all (\<lambda>c. byte c \<noteq> 226 \<and> \<not> htmlUnsafe c) (escapeU00 c)"
  "list_all (\<lambda>c. byte c \<noteq> 226 \<and> \<not> htmlUnsafe c) (escapeSep x)"
  "list_all (\<lambda>c. byte c \<noteq> 226 \<and> \<not> htmlUnsafe c) ([CHR 0x5C] @ ''ufffd'')"
  using hexDigit_plain by (simp_all add: escapeU00_def escapeSep_def htmlUnsafe_def)

lemma quoteByte_plain:
  assumes "byte c < 128"
  shows "list_all (\<lambda>c. byte c \<noteq> 226 \<and> \<not> htmlUnsafe c) (quoteByte c)"
proof -
  have "\<not> htmlUnsafe c" if "byte c = 92 \<or> byte c = 34" using that by (auto simp: htmlUnsafe_def)
  with assms escape_plain(1) [of c] show ?thesis by (auto simp: quoteByte_def htmlUnsafe_def)
qed

lemma unescaped_rune:
  assumes "runeLen (c # cs) = n" and "n \<noteq> 0" and "128 \<le> byte c" and "\<not> lineSep (c # cs)" and "unescaped t"
  shows "unescaped (take n (c # cs) @ t)"
proof -
  obtain m where m: "n = Suc m" using assms(2) by (cases n) auto
  have "list_all contByte (take m cs)" and three: "byte c = 226 \<Longrightarrow> m = 2 \<and> 2 \<le> length cs"
    using assms(1-3) m by (auto simp: runeLen.simps split: list.splits if_splits)
  then have "list_all (\<lambda>c. byte c \<noteq> 226 \<and> \<not> htmlUnsafe c) (take m cs)"
    by (auto simp: list_all_iff contByte_def htmlUnsafe_def)
  from unescaped_plain [OF this assms(5)] have tail: "unescaped (take m cs @ t)" .
  have "\<not> lineSep (c # take m cs @ t)"
  proof
    assume l: "lineSep (c # take m cs @ t)"
    with lineSep_high have "byte c = 226" by blast
    with three have "take 3 (c # take m cs @ t) = take 3 (c # cs)" by (simp add: numeral_eq_Suc)
    then have "lineSep (c # take m cs @ t) = lineSep (c # cs)" unfolding lineSep_def by (simp only:)
    with l assms(4) show False by simp
  qed
  moreover have "\<not> htmlUnsafe c" using assms(3) by (auto simp: htmlUnsafe_def)
  ultimately show ?thesis using tail by (simp add: m)
qed

lemma unescaped_quoteRest: "unescaped t \<Longrightarrow> unescaped (quoteRest s @ t)"
proof (induction s rule: quoteRest.induct)
  case (2 c cs)
  consider "byte c < 128" | "128 \<le> byte c" "runeLen (c # cs) = 0"
    | "128 \<le> byte c" "runeLen (c # cs) \<noteq> 0" "lineSep (c # cs)"
    | "128 \<le> byte c" "runeLen (c # cs) \<noteq> 0" "\<not> lineSep (c # cs)" by linarith
  then show ?case
  proof cases
    case 1
    with 2 show ?thesis using unescaped_plain [OF quoteByte_plain [OF 1]] by simp
  next
    case 2
    then show ?thesis using unescaped_plain [OF escape_plain(3) "2.IH"(2) [OF _ _ "2.prems"]] by simp
  next
    case 3
    then show ?thesis using unescaped_plain [OF escape_plain(2) "2.IH"(3) [OF _ _ _ "2.prems"]] by simp
  next
    case 4
    then show ?thesis using unescaped_rune [OF refl 4(2,1,3) "2.IH"(4) [OF _ _ _ "2.prems"]] by simp
  qed
qed simp

lemma compact_MarshalString: "compact (MarshalString m) = Some (MarshalString m)"
proof -
  obtain t where t: "tightRun newScanner (MarshalString m) = Some t" "scan_eof t"
    using MarshalString_tight [of maxNestingDepth m] by (auto simp: tight_def newScanner_def split: option.splits)
  have q: "unescaped [CHR 0x22]" by (simp add: htmlUnsafe_def lineSep_def)
  have "unescaped ([CHR 0x22] @ quoteRest m @ [CHR 0x22])"
    by (rule unescaped_plain [OF _ unescaped_quoteRest [OF q]]) (simp add: htmlUnsafe_def)
  then have "unescaped (MarshalString m)" by (simp add: MarshalString_def)
  from compactLoop_identity [OF t this] show ?thesis by (simp add: compact_def)
qed


subsection \<open>The round trip\<close>

lemma map_of_fold_update: "map_of (fold (\<lambda>(k, v). AList.update k v) fs m) = map_of m ++ map_of (rev fs)"
  by (induction fs arbitrary: m) (auto simp: update_conv' map_add_def fun_eq_iff split: option.split)

lemma marshalFields_eq:
  "\<forall>(k, raw)\<in>set m. compact raw \<noteq> None \<Longrightarrow>
     marshalFields m = Some (map field (map (\<lambda>(k, raw). (k, the (compact raw))) m))"
  by (induction m rule: marshalFields.induct) (auto simp: field_def)

lemma map_of_sort_key: "distinct (map fst m) \<Longrightarrow> map_of (sort_key fst m) = map_of m"
  by (rule map_of_inject_set [THEN iffD2]) (simp_all add: distinct_map inj_on_def)

text \<open>A map of JSON values with valid keys is decoded, after it was encoded, to the same map of compacted values.\<close>

lemma MarshalRawObject_roundtrip:
  assumes "goodMembers 9999 m"
  shows "\<exists>out m'. MarshalRawObject m = Some out \<and> UnmarshalObject out = Some (Some m') \<and>
    (\<forall>k. map_of m' k = map_option (\<lambda>raw. the (compact raw)) (map_of m k))"
proof -
  let ?f = "\<lambda>(k, raw). (k, the (compact raw))"
  let ?fs = "map ?f (sort_key fst m)"
  have good: "\<forall>(k, raw)\<in>set m. toValidUTF8 k = k \<and> (\<exists>out. compact raw = Some out \<and> tight 9999 out)"
    using assms compact_tight [of 9999] by (fastforce simp: goodMembers_def maxNestingDepth_def)
  then have enc: "marshalFields (sort_key fst m) = Some (map field ?fs)" by (intro marshalFields_eq) fastforce
  have ok: "\<forall>(k, v)\<in>set ?fs. tight 9999 v \<and> toValidUTF8 k = k" using good by fastforce
  have nil: "list_all isSpace []" by simp
  from object_decode [OF nil ok] have dec: "UnmarshalObject (''{'' @ joinWith (CHR '','') (map field ?fs) @ ''}'') =
      Some (Some (fold (\<lambda>(k, v). AList.update k v) ?fs []))" .
  have d: "distinct (map fst m)" using assms by (simp add: goodMembers_def)
  have keys: "map fst ?fs = map fst (sort_key fst m)" by (simp add: comp_def case_prod_beta)
  have "mset (map fst (sort_key fst m)) = mset (map fst m)" by (simp only: mset_map mset_sort)
  with d have "distinct (map fst ?fs)" unfolding keys by (metis mset_eq_imp_distinct_iff)
  then have "map_of (rev ?fs) = map_of ?fs" by (metis distinct_rev map_of_inject_set rev_map set_rev)
  then have "map_of (fold (\<lambda>(k, v). AList.update k v) ?fs []) = map_of ?fs" by (simp add: map_of_fold_update)
  moreover have "map_of ?fs k = map_option (\<lambda>raw. the (compact raw)) (map_of m k)" for k
    using map_of_map [of "\<lambda>raw. the (compact raw)" "sort_key fst m"] map_of_sort_key [OF d] by (simp add: case_prod_beta')
  ultimately show ?thesis using enc dec by (simp add: MarshalRawObject_def)
qed

end
