(* ===== verification/JsonTotal.thy ===== *)
theory JsonTotal
  imports JsonRoundtrip
begin

text \<open>
  The decoder of request bodies fails on nothing the scanner accepts: a string the scanner has
  passed can be unquoted, and the members of an object it has passed can be taken apart. So a
  body is refused exactly if it is not JSON or not an object.
\<close>

subsection \<open>Strings\<close>

lemma jsonHex_isHex: "isHex c \<Longrightarrow> jsonHex c \<noteq> None"
  by (auto simp: isHex_def jsonHex_def)

lemma scan_hex:
  assumes "scan_all (at (InStringEscU 3) ps e L) cs = Some s'" and "sc_step s' = EndValue"
  obtains a b c d t where "cs = a # b # c # d # t" "isHex a" "isHex b" "isHex c" "isHex d"
    "scan_all (at InString ps e L) t = Some s'"
proof -
  have one: "\<exists>x t. cs = x # t \<and> isHex x \<and> scan_all (at (case n of 0 \<Rightarrow> InString | Suc m \<Rightarrow> InStringEscU m) ps e L) t = Some s'"
    if "scan_all (at (InStringEscU n) ps e L) cs = Some s'" for n cs
    using that assms(2) by (cases cs) (auto simp: string_step split: if_splits)
  from one [OF assms(1)] obtain a t1 where a: "cs = a # t1" "isHex a" "scan_all (at (InStringEscU 2) ps e L) t1 = Some s'"
    by (auto simp: numeral_eq_Suc)
  from one [OF a(3)] obtain b t2 where b: "t1 = b # t2" "isHex b" "scan_all (at (InStringEscU 1) ps e L) t2 = Some s'"
    by (auto simp: numeral_eq_Suc)
  from one [OF b(3)] obtain c t3 where c: "t2 = c # t3" "isHex c" "scan_all (at (InStringEscU 0) ps e L) t3 = Some s'" by auto
  from one [OF c(3)] obtain d t where "t3 = d # t" "isHex d" "scan_all (at InString ps e L) t = Some s'" by auto
  with a b c that show thesis by blast
qed

lemma getu4_escape:
  "isHex a \<Longrightarrow> isHex b \<Longrightarrow> isHex c \<Longrightarrow> isHex d \<Longrightarrow> byte x = 92 \<Longrightarrow>
     \<exists>r. getu4 (x # CHR ''u'' # a # b # c # d # t) = Some r"
  using jsonHex_isHex [of a] jsonHex_isHex [of b] jsonHex_isHex [of c] jsonHex_isHex [of d] by auto

lemma getu4_Some:
  assumes "getu4 s = Some r"
  obtains x a b c d t where "s = x # CHR ''u'' # a # b # c # d # t" "byte x = 92" "isHex a" "isHex b" "isHex c" "isHex d"
proof -
  from assms obtain x u a b c d t where s: "s = x # u # a # b # c # d # t" by (cases s rule: getu4.cases) auto
  have h: "isHex y" if "jsonHex y = Some n" for y n using that by (auto simp: jsonHex_def isHex_def split: if_splits)
  from assms s have "byte x = 92" "u = CHR ''u''" "isHex a" "isHex b" "isHex c" "isHex d"
    by (auto split: if_splits option.splits intro: h)
  with s that show thesis by blast
qed

lemma scan_high: "\<forall>x\<in>set xs. 128 \<le> byte x \<Longrightarrow> scan_all (at InString ps e L) (xs @ r) = scan_all (at InString ps e L) r"
  by (induction xs) (auto simp: string_step)

lemma scan_u:
  "byte x = 92 \<Longrightarrow> isHex a \<Longrightarrow> isHex b \<Longrightarrow> isHex c \<Longrightarrow> isHex d \<Longrightarrow>
     scan_all (at InString ps e L) (x # CHR ''u'' # a # b # c # d # t) = scan_all (at InString ps e L) t"
  by (simp add: string_step numeral_eq_Suc)

lemma string_unquoted:
  assumes "scan_all (at InString [] False M) item = Some (at EndValue [] False M)"
  shows "\<exists>s q. item = s @ [q] \<and> byte q = 34 \<and> unquoteRest s \<noteq> None"
  using assms
proof (induction item rule: length_induct)
  case (1 item)
  from "1.prems" obtain c cs where item: "item = c # cs" by (cases item) auto
  have IH: "\<exists>s q. t = s @ [q] \<and> byte q = 34 \<and> unquoteRest s \<noteq> None"
    if "length t < length item" "scan_all (at InString [] False M) t = Some (at EndValue [] False M)" for t
    using that "1.IH" by blast
  consider "byte c = 34" | "byte c = 92" | "byte c < 32" | "32 \<le> byte c" "byte c < 128" "byte c \<noteq> 34" "byte c \<noteq> 92" | "128 \<le> byte c"
    by linarith
  then show ?case
  proof cases
    case 1
    with "1.prems" item have fin: "scan_all (at EndValue [] False M) cs = Some (at EndValue [] False M)" by (simp add: string_step)
    have "cs = []"
    proof (cases cs)
      case (Cons x xs)
      with fin obtain t f where "scan_step (at EndValue [] False M) x = Some (t, f)" "scan_all t xs = Some (at EndValue [] False M)"
        by (cases "scan_step (at EndValue [] False M) x") auto
      then show ?thesis using top_stays [of t xs] by (auto simp: endValue_step stateEndValue_def stateEndTop_def split: if_splits)
    qed simp
    with 1 item show ?thesis by (intro exI [of _ "[]"] exI [of _ c]) (simp add: unquoteRest.simps)
  next
    case 2
    with "1.prems" item have esc: "scan_all (at InStringEsc [] False M) cs = Some (at EndValue [] False M)" by (simp add: string_step)
    then obtain d ds where cs: "cs = d # ds" by (cases cs) auto
    show ?thesis
    proof (cases "d = CHR ''u''")
      case False
      with esc cs have d: "d \<in> set ''bfnrt/'' \<or> byte d = 92 \<or> byte d = 34"
        and "scan_all (at InString [] False M) ds = Some (at EndValue [] False M)"
        by (auto simp: string_step split: if_splits)
      with IH [of ds] item cs obtain s q where s: "ds = s @ [q]" "byte q = 34" "unquoteRest s \<noteq> None" by auto
      from d have "simpleEscape d \<noteq> None" by (auto simp: simpleEscape_def)
      with 2 s False have "unquoteRest (c # d # s) \<noteq> None" by (auto simp: unquoteRest.simps(2) [of c])
      with s item cs show ?thesis by (intro exI [of _ "c # d # s"] exI [of _ q]) simp
    next
      case True
      then have "scan_all (at (InStringEscU 3) [] False M) ds = Some (at EndValue [] False M)"
        using esc cs by (simp add: string_step)
      then obtain a b h g t where ds: "ds = a # b # h # g # t" "isHex a" "isHex b" "isHex h" "isHex g"
        and t: "scan_all (at InString [] False M) t = Some (at EndValue [] False M)" by (rule scan_hex) simp_all
      with IH [of t] item cs obtain s q where s: "t = s @ [q]" "byte q = 34" "unquoteRest s \<noteq> None" by auto
      from getu4_escape [OF ds(2-5) 2] obtain r where r: "getu4 (c # CHR ''u'' # a # b # h # g # s) = Some r" by blast
      have pair: "unquoteRest (drop 6 s) \<noteq> None" if "getu4 s = Some r2" for r2
      proof -
        from that obtain x a' b' h' g' s' where x: "s = x # CHR ''u'' # a' # b' # h' # g' # s'" "byte x = 92" "isHex a'" "isHex b'" "isHex h'" "isHex g'"
          by (rule getu4_Some)
        from t have "scan_all (at InString [] False M) (s' @ [q]) = Some (at EndValue [] False M)"
          unfolding s(1) x(1) append_Cons scan_u [OF x(2-6)] .
        with IH [of "s' @ [q]"] item cs ds(1) s(1) x(1) show ?thesis by simp
      qed
      have "unquoteRest (c # CHR ''u'' # a # b # h # g # s) \<noteq> None"
        using 2 r s(3) pair by (auto simp: unquoteRest.simps(2) [of c] surrogatePair_def Let_def split: option.split)
      with s item cs True ds(1) show ?thesis by (intro exI [of _ "c # CHR ''u'' # a # b # h # g # s"] exI [of _ q]) simp
    qed
  next
    case 3
    with "1.prems" item show ?thesis by (simp add: string_step)
  next
    case 4
    with "1.prems" item have "scan_all (at InString [] False M) cs = Some (at EndValue [] False M)" by (simp add: string_step)
    with IH [of cs] item obtain s q where s: "cs = s @ [q]" "byte q = 34" "unquoteRest s \<noteq> None" by auto
    with 4 have "unquoteRest (c # s) \<noteq> None" by (simp add: unquoteRest.simps)
    with s item show ?thesis by (intro exI [of _ "c # s"] exI [of _ q]) simp
  next
    case 5
    with "1.prems" item have sc: "scan_all (at InString [] False M) cs = Some (at EndValue [] False M)" by (simp add: string_step)
    with IH [of cs] item obtain s q where s: "cs = s @ [q]" "byte q = 34" "unquoteRest s \<noteq> None" by auto
    have "unquoteRest (c # s) \<noteq> None"
    proof (cases "runeLen (c # s) = 0")
      case True
      with 5 s(3) show ?thesis by (simp add: unquoteRest.simps)
    next
      case False
      then obtain n where n: "runeLen (c # s) = Suc n" by (cases "runeLen (c # s)") auto
      have "\<forall>x\<in>set (take n s). 128 \<le> byte x" using runeLen_high [OF 5, of s] n by simp
      then have "scan_all (at InString [] False M) (drop n s @ [q]) = Some (at EndValue [] False M)"
        using sc scan_high [of "take n s" "[]" False M "drop n s @ [q]"] unfolding s(1) append.assoc [symmetric] append_take_drop_id by simp
      with IH [of "drop n s @ [q]"] item s(1) have "unquoteRest (drop n s) \<noteq> None" by simp
      with 5 n show ?thesis by (simp add: unquoteRest.simps)
    qed
    with s item show ?thesis by (intro exI [of _ "c # s"] exI [of _ q]) simp
  qed
qed



subsection \<open>Members\<close>

text \<open>What the reader takes for a string is one the scanner has passed, so it can be unquoted.\<close>

lemma unquote_scanned:
  assumes "scan_all (at InString ps e L) cs = Some send" and "complete send" and "byte d = 34"
  shows "\<exists>item rest. rescanString cs = (item, rest) \<and> unquote (d # item) \<noteq> None \<and> scan_all (at EndValue ps e L) rest = Some send"
proof -
  from string_scan [OF assms(1) _ assms(2)] obtain item rest where r: "rescanString (cs @ []) = (item, rest @ [])"
    "\<forall>qs d M. scan_all (at InString qs d M) item = Some (at EndValue qs d M)" "scan_all (at EndValue ps e L) rest = Some send"
    unfolding stringSteps_def by blast
  from r(2) have "scan_all (at InString [] False 0) item = Some (at EndValue [] False 0)" by blast
  from string_unquoted [OF this] obtain s q where s: "item = s @ [q]" "byte q = 34" "unquoteRest s \<noteq> None" by blast
  with assms(3) have "unquote (d # item) \<noteq> None" by (simp add: unquote_def)
  with r show ?thesis by simp
qed

lemma takeKey_unquoted:
  assumes "scan_all (at BeginString [parseObjectKey] False L) data = Some send" and "sc_parseState send = []" and "complete send"
    and "takeValue (skipSpace data) = Some (item, rest)"
  shows "unquote item \<noteq> None"
proof -
  from begin_skip [OF assms(1) _ _ assms(2)] obtain d ds where d: "skipSpace data = d # ds" "\<not> isSpace d"
      "scan_all (at BeginString [parseObjectKey] False L) (d # ds) = Some send"
    by (auto simp: beginSteps_def)
  from scan_all_step [OF d(3)] d(2) have q: "byte d = 34" by (auto simp: scan_step_def stateBeginString_def split: if_splits)
  with d have "scan_all (at InString [parseObjectKey] False L) ds = Some send"
    by (simp add: scan_step_def stateBeginString_def goTo_def)
  moreover have "d \<noteq> CHR ''{''" "d \<noteq> CHR ''[''" using q by auto
  ultimately show ?thesis using unquote_scanned [OF _ assms(3) q] q d(1) assms(4) by (fastforce simp: takeValue_def)
qed

lemma decodeMembers_total:
  assumes "scan_all (at BeginString [parseObjectKey] False (Suc L)) data = Some send" and "sc_parseState send = []" and "complete send"
    and "L \<le> maxNestingDepth"
  shows "decodeMembers data m \<noteq> None"
  using assms
proof (induction data m rule: decodeMembers.induct)
  case (1 data m)
  from takeKey_scan [OF 1(2-4)] obtain item rest afterColon where k: "takeValue (skipSpace data) = Some (item, rest)"
    "skipSpace rest = CHR '':'' # afterColon" "scan_all (at BeginValue [parseObjectValue] False (Suc L)) afterColon = Some send" by blast
  from takeKey_unquoted [OF 1(2-4) k(1)] obtain key where key: "unquote item = Some key" by blast
  from takeMember_scan [OF k(3) "1.prems"(2-4)] obtain raw rest' d ds where r: "takeValue (skipSpace afterColon) = Some (raw, rest')"
    "skipSpace rest' = d # ds"
    "d = CHR '','' \<and> scan_all (at BeginString [parseObjectKey] False (Suc L)) ds = Some send \<or> d = CHR ''}''" by blast
  show ?case
  proof (cases "d = CHR '',''")
    case True
    with r(3) have sc: "scan_all (at BeginString [parseObjectKey] False (Suc L)) ds = Some send" by simp
    from "1.IH" [OF k(1) refl key k(2) _ r(1) refl r(2) True sc "1.prems"(2-4)] True k key r(1,2) show ?thesis
      by (simp add: decodeMembers.simps [of data])
  next
    case False
    with k key r show ?thesis by (simp add: decodeMembers.simps [of data])
  qed
qed


subsection \<open>Bodies\<close>

text \<open>The kind of a JSON value, by its first significant byte.\<close>

definition isObjectText :: "string \<Rightarrow> bool" where
  "isObjectText body \<longleftrightarrow> checkValid body \<and> (\<exists>cs. skipSpace body = CHR ''{'' # cs)"

text \<open>The scan of an object after its opening bracket, and the first significant byte in it.\<close>

lemma object_scan:
  assumes "checkValid body" and "skipSpace body = CHR ''{'' # cs"
  obtains d ds send where "skipSpace cs = d # ds" "complete send" "sc_parseState send = []"
    "d \<noteq> CHR ''}'' \<Longrightarrow> scan_all (at BeginString [parseObjectKey] False (Suc 9999)) cs = Some send"
proof -
  from assms(1) obtain send where send: "scan_all newScanner body = Some send" "scan_eof send"
    by (auto simp: checkValid_def split: option.splits)
  let ?s = "at BeginStringOrEmpty [parseObjectKey] False (Suc 9999)"
  have "scan_all newScanner (CHR ''{'' # cs) = Some send"
    using skipSpace_scan [of newScanner body] send(1) assms(2) by (simp add: newScanner_def beginSteps_def)
  then have s: "scan_all ?s cs = Some send"
    by (simp add: newScanner_def scan_step_def pushParseState_def maxNestingDepth_def)
  have closed: "send = at EndTop [] True (Suc 9999)"
    using open_closed [OF _ s send(2)] by (simp add: openScan_def)
  with begin_skip [OF s] obtain d ds where d: "skipSpace cs = d # ds" "\<not> isSpace d" "scan_all ?s (d # ds) = Some send"
    by (auto simp: beginSteps_def)
  have "scan_all (at BeginString [parseObjectKey] False (Suc 9999)) cs = Some send" if "d \<noteq> CHR ''}''"
  proof -
    from d that have "scan_all (at BeginString [parseObjectKey] False (Suc 9999)) (skipSpace cs) = Some send"
      by (auto simp: scan_step_def stateBeginString_def goTo_def split: if_splits)
    then show ?thesis by (simp add: skipSpace_scan beginSteps_def)
  qed
  then show thesis using closed d(1) by (intro that [of d ds send]) simp_all
qed

lemma UnmarshalObject_total: "isObjectText body \<longleftrightarrow> (\<exists>payload. UnmarshalObject body = Some (Some payload))"
proof
  assume "isObjectText body"
  then obtain cs where b: "checkValid body" "skipSpace body = CHR ''{'' # cs" by (auto simp: isObjectText_def)
  then obtain d ds send where d: "skipSpace cs = d # ds" "complete send" "sc_parseState send = []"
    "d \<noteq> CHR ''}'' \<Longrightarrow> scan_all (at BeginString [parseObjectKey] False (Suc 9999)) cs = Some send" by (rule object_scan) (rule that)
  show "\<exists>payload. UnmarshalObject body = Some (Some payload)"
  proof (cases "d = CHR ''}''")
    case True
    with b d(1) show ?thesis by (simp add: UnmarshalObject_def)
  next
    case False
    from decodeMembers_total [OF d(4) [OF this] d(3,2), of "[]"] b d(1) False show ?thesis
      by (auto simp: UnmarshalObject_def maxNestingDepth_def)
  qed
qed (auto simp: UnmarshalObject_def isObjectText_def split: if_splits list.splits)


subsection \<open>The model member\<close>

text \<open>At the end of a valid input the scan is after a complete value.\<close>

definition topOnly :: "scanner \<Rightarrow> bool" where
  "topOnly s \<longleftrightarrow> (sc_endTop s \<longrightarrow> sc_step s = EndTop)"

lemma topOnly_step: "scan_step s c = Some (s', f) \<Longrightarrow> topOnly s \<Longrightarrow> topOnly s'"
  by (cases "sc_step s")
    (auto simp: topOnly_def scan_step_def stateBeginValue_def stateBeginString_def stateEndValue_def stateEndTop_def state0_def
      stateESign_def goTo_def pushParseState_def popParseState_def split: if_splits list.splits nat.splits parseState.splits)

lemma topOnly_all: "scan_all s cs = Some s' \<Longrightarrow> topOnly s \<Longrightarrow> topOnly s'"
proof (induction cs arbitrary: s)
  case (Cons c cs)
  then show ?case using topOnly_step by (cases "scan_step s c") auto
qed simp

lemma eof_complete:
  assumes "scan_all newScanner cs = Some send" and "scan_eof send"
  shows "complete send"
proof (cases "sc_endTop send")
  case True
  with topOnly_all [OF assms(1)] show ?thesis by (simp add: topOnly_def newScanner_def)
next
  case False
  have sp: "\<not> isDigit (CHR '' '')" "\<not> isHex (CHR '' '')" by (simp_all add: isDigit_def isHex_def)
  from assms(2) False show ?thesis
    by (cases "sc_step send")
      (auto simp: scan_eof_def endSteps_def scan_step_def stateBeginValue_def stateBeginString_def state0_def stateESign_def stateEndTop_def
        goTo_def sp split: list.splits if_splits)
qed

lemma UnmarshalString_total:
  assumes "checkValid data" and "skipSpace data = d # ds"
  shows "UnmarshalString data \<noteq> None \<longleftrightarrow> byte d = 34 \<or> d = CHR ''n''"
proof -
  from assms(1) obtain send where send: "scan_all newScanner data = Some send" "scan_eof send"
    by (auto simp: checkValid_def split: option.splits)
  have sc: "scan_all newScanner (d # ds) = Some send"
    using skipSpace_scan [of newScanner data] send(1) assms(2) by (simp add: newScanner_def beginSteps_def)
  have hd: "hd item = d" if "takeValue (d # ds) = Some (item, rest)" for item rest
    using that by (auto simp: takeValue_def case_prod_beta split: if_splits option.splits prod.splits)
  show ?thesis
  proof (cases "byte d = 34")
    case True
    then have d: "d \<noteq> CHR ''{''" "d \<noteq> CHR ''[''" "d \<noteq> CHR ''n''" "\<not> isSpace d" by (auto simp: isSpace_def)
    with sc True have "scan_all (at InString [] False maxNestingDepth) ds = Some send"
      by (simp add: newScanner_def scan_step_def stateBeginValue_def goTo_def)
    from unquote_scanned [OF this eof_complete [OF send] True] obtain item rest where
      "rescanString ds = (item, rest)" "unquote (d # item) \<noteq> None" by blast
    with d True assms show ?thesis by (simp add: UnmarshalString_def takeValue_def)
  next
    case False
    with assms hd show ?thesis
      by (auto simp: UnmarshalString_def split: option.splits) (auto simp: takeValue_def split: if_splits)
  qed
qed

text \<open>What decodes to a string: a string, or \<open>null\<close>, which gives the empty one.\<close>

lemma decodes_string:
  "(\<exists>name. UnmarshalString raw = Some name) \<longleftrightarrow>
     checkValid raw \<and> (take 1 (skipSpace raw) = [CHR 0x22] \<or> take 1 (skipSpace raw) = ''n'')"
proof (cases "checkValid raw")
  case True
  show ?thesis
  proof (cases "skipSpace raw")
    case Nil
    with True show ?thesis by (simp add: UnmarshalString_def takeValue_def)
  next
    case (Cons d ds)
    have "byte d = 34 \<longleftrightarrow> d = CHR 0x22" using byte_inject [of d "CHR 0x22"] by auto
    with UnmarshalString_total [OF True Cons] True Cons show ?thesis by auto
  qed
qed (simp add: UnmarshalString_def)

end
