(* ===== verification/JsonText.thy ===== *)
theory JsonText
  imports JsonRoundtrip
begin

text \<open>
  Which texts are JSON: strings, numbers and literals, and arrays and objects of JSON texts, with
  or without space around them, as far as the nesting bound of the package allows.
\<close>

subsection \<open>Texts of values\<close>

text \<open>
  Where a scan may be after a complete value inside the brackets \<open>ps\<close>; and a text that takes the
  scan from the start of a value there, in any brackets that leave \<open>n\<close> more levels.
\<close>

definition ended :: "parseState list \<Rightarrow> nat \<Rightarrow> scanner \<Rightarrow> bool" where
  "ended ps L s \<longleftrightarrow> (\<exists>st\<in>endSteps. s = at st ps False L) \<or> (ps = [] \<and> s = at EndTop [] True L)"

definition valueText :: "nat \<Rightarrow> string \<Rightarrow> bool" where
  "valueText n v \<longleftrightarrow> (\<forall>ps L. length ps + n \<le> L \<longrightarrow> (\<exists>s. scan_all (at BeginValue ps False L) v = Some s \<and> ended ps L s))"

abbreviation spaces :: "string \<Rightarrow> bool" where
  "spaces \<equiv> list_all isSpace"

lemma valueTextE:
  assumes "valueText n v" and "length ps + n \<le> L"
  obtains s where "scan_all (at BeginValue ps False L) v = Some s" "ended ps L s"
  using assms unfolding valueText_def by blast

lemma valueText_mono: "valueText n v \<Longrightarrow> n \<le> m \<Longrightarrow> valueText m v"
  by (simp add: valueText_def)

lemma endedI: "st \<in> endSteps \<Longrightarrow> ended ps L (at st ps False L)"
  by (auto simp: ended_def)

lemma ended_EndValue: "ended ps L (at EndValue ps False L)"
  by (rule endedI) (simp add: endSteps_def)

lemma begin_spaces: "spaces sp \<Longrightarrow> st \<in> beginSteps \<Longrightarrow> scan_all (at st ps e L) (sp @ r) = scan_all (at st ps e L) r"
proof (induction sp)
  case (Cons c sp)
  then have "scan_step (at st ps e L) c = Some (at st ps e L, True)" by (simp add: scan_step_space_iff)
  with Cons show ?case by simp
qed simp

lemma valueText_spaces: "spaces sp \<Longrightarrow> valueText n v \<Longrightarrow> valueText n (sp @ v)"
  by (simp add: valueText_def begin_spaces beginSteps_def)

lemma ended_spaces: "spaces sp \<Longrightarrow> ended ps L s \<Longrightarrow> \<exists>s'. scan_all s sp = Some s' \<and> ended ps L s'"
proof (induction sp arbitrary: s)
  case (Cons c sp)
  from Cons.prems(2) have "\<exists>s'. scan_step s c = Some (s', True) \<and> ended ps L s'"
  proof (cases "s = at EndTop [] True L")
    case True
    with Cons.prems show ?thesis by (auto simp: scan_step_space_iff beginSteps_def ended_def)
  next
    case False
    with Cons.prems(2) obtain st where "st \<in> endSteps" "s = at st ps False L" by (auto simp: ended_def)
    with Cons.prems(1) show ?thesis
      by (intro exI [of _ "endSpace s"]) (auto simp: scan_step_space_iff ended_def endSpace_def endSteps_def)
  qed
  with Cons show ?case by auto
qed simp

text \<open>Inside brackets only the closing bracket or a separator goes on.\<close>

lemma ended_delim:
  assumes "ended (p # ps) L s" and "d \<in> {CHR '','', CHR '':'', CHR ''}'', CHR '']''}"
  shows "scan_step s d = stateEndValue (at EndValue (p # ps) False L) d"
proof -
  from assms(1) obtain st where s: "st \<in> endSteps" "s = at st (p # ps) False L" by (auto simp: ended_def)
  then have "scan_step s d = stateEndValue s d" using assms(2) by (intro endSteps_significant) simp_all
  with stateEndValue_step [of "at EndValue (p # ps) False L" st d] s(2) show ?thesis by simp
qed

lemma value_then:
  assumes "valueText n v" and "length (p # ps) + n \<le> L" and "spaces sp" and "d \<in> {CHR '','', CHR ''}'', CHR '']''}"
    and "stateEndValue (at EndValue (p # ps) False L) d = Some (t, f)"
  shows "scan_all (at BeginValue (p # ps) False L) (v @ sp @ d # r) = scan_all t r"
proof -
  obtain s where s: "scan_all (at BeginValue (p # ps) False L) v = Some s" "ended (p # ps) L s"
    by (rule valueTextE [OF assms(1,2)])
  from ended_spaces [OF assms(3) s(2)] obtain s' where s': "scan_all s sp = Some s'" "ended (p # ps) L s'" by blast
  have "d \<in> {CHR '','', CHR '':'', CHR ''}'', CHR '']''}" using assms(4) by blast
  from ended_delim [OF s'(2) this] assms(5) have "scan_step s' d = Some (t, f)" by (simp only:)
  with s(1) s'(1) show ?thesis by (simp add: scan_all_append)
qed

lemma ended_eof: "ended [] L s \<Longrightarrow> scan_eof s"
proof -
  have "scan_eof (at EndTop [] True L)" by (simp add: scan_eof_def)
  then show "ended [] L s \<Longrightarrow> scan_eof s" using scan_eof_endSteps by (auto simp: ended_def)
qed

lemma valueText_valid:
  assumes "valueText n v" and "n \<le> maxNestingDepth" and "spaces sp"
  shows "checkValid (v @ sp)"
proof -
  have "length [] + n \<le> maxNestingDepth" using assms(2) by simp
  then obtain s where s: "scan_all newScanner v = Some s" "ended [] maxNestingDepth s"
    unfolding newScanner_def by (rule valueTextE [OF assms(1)])
  from ended_spaces [OF assms(3) s(2)] obtain s' where s': "scan_all s sp = Some s'" "ended [] maxNestingDepth s'" by blast
  then have "scan_eof s'" by (intro ended_eof)
  with s(1) s'(1) show ?thesis by (simp add: checkValid_def scan_all_append)
qed


subsection \<open>Scalars\<close>

lemma valueText_string: "valueText n (MarshalString s)"
  unfolding valueText_def
proof (intro allI impI)
  fix ps L
  have "scan_all (at InString ps False L) (quoteRest s) = Some (at InString ps False L)"
    by (rule tightRun_scan_all [OF tight_quoteRest])
  then have "scan_all (at BeginValue ps False L) (MarshalString s) = Some (at EndValue ps False L)"
    by (simp add: MarshalString_def scan_step_def stateBeginValue_def goTo_def isSpace_def scan_all_append)
  then show "\<exists>t. scan_all (at BeginValue ps False L) (MarshalString s) = Some t \<and> ended ps L t"
    using ended_EndValue by blast
qed

lemma valueText_bool: "valueText n ''true''" "valueText n ''false''"
proof -
  have "scan_all (at BeginValue ps False L) ''true'' = Some (at EndValue ps False L)"
    "scan_all (at BeginValue ps False L) ''false'' = Some (at EndValue ps False L)" for ps L
    by (simp_all add: scan_step_def stateBeginValue_def goTo_def isSpace_def)
  with ended_EndValue show "valueText n ''true''" "valueText n ''false''" by (auto simp: valueText_def)
qed

lemma digit_other: "isDigit c \<Longrightarrow> \<not> isSpace c \<and> c \<noteq> CHR ''{'' \<and> c \<noteq> CHR ''['' \<and> c \<noteq> CHR ''-'' \<and> c \<noteq> CHR ''t'' \<and> c \<noteq> CHR ''f'' \<and>
    c \<noteq> CHR ''n'' \<and> byte c \<noteq> 34"
  by (auto simp: isDigit_def isSpace_def)

lemma digit_char: "d < 10 \<Longrightarrow> isDigit (char_of (48 + d))" "d < 10 \<Longrightarrow> byte (char_of (48 + d)) = 48 + d" for d :: nat
  by (simp_all add: isDigit_def)

lemma natDigits_scan:
  assumes "st = BeginValue \<or> st = Neg"
  shows "scan_all (at st ps e L) (natDigits n) = Some (at (if n = 0 then Num0 else Num1) ps e L)"
proof (induction n rule: natDigits.induct)
  case (1 n)
  show ?case
  proof (cases "n < 10")
    case True
    let ?c = "char_of (48 + n) :: char"
    have d: "isDigit ?c" "byte ?c = 48 + n" using True digit_char by blast+
    note c = digit_other [OF d(1)]
    have z: "?c = CHR ''0'' \<longleftrightarrow> n = 0" using d(2) byte_inject [of ?c "CHR ''0''"] by auto
    show ?thesis
      using assms True d(1) c z by (subst natDigits.simps) (auto simp: scan_step_def stateBeginValue_def goTo_def)
  next
    case False
    have "scan_step (at Num1 ps e L) (char_of (48 + n mod 10)) = Some (at Num1 ps e L, False)"
      using digit_char(1) [of "n mod 10"] by (simp add: scan_step_def goTo_def)
    moreover have "n div 10 \<noteq> 0" using False by simp
    ultimately show ?thesis using False "1.IH" by (subst natDigits.simps) (simp add: scan_all_append)
  qed
qed

lemma valueText_int: "valueText n (Itoa i)"
  unfolding valueText_def
proof (intro allI impI)
  fix ps L
  have neg: "scan_step (at BeginValue ps False L) (CHR ''-'') = Some (at Neg ps False L, False)"
    by (simp add: scan_step_def stateBeginValue_def goTo_def isSpace_def)
  have "\<exists>st\<in>endSteps. scan_all (at BeginValue ps False L) (Itoa i) = Some (at st ps False L)"
    using natDigits_scan [of BeginValue ps False L "nat i"] natDigits_scan [of Neg ps False L "nat (- i)"]
    by (auto simp: Itoa_def neg endSteps_def)
  then show "\<exists>t. scan_all (at BeginValue ps False L) (Itoa i) = Some t \<and> ended ps L t" using endedI by blast
qed


subsection \<open>Arrays and objects\<close>

text \<open>Where the scan is after the closing bracket.\<close>

definition closed :: "parseState list \<Rightarrow> nat \<Rightarrow> scanner" where
  "closed ps L = (if ps = [] then at EndTop [] True L else at EndValue ps False L)"

lemma ended_closed: "ended ps L (closed ps L)"
  by (auto simp: closed_def ended_EndValue) (simp add: ended_def)

lemma pop_closed: "popParseState (at st (p # ps) False L) = Some (closed ps L, False)"
  by (cases ps) (simp_all add: popParseState_def closed_def)

lemma array_items:
  assumes "vs \<noteq> []" and "\<forall>v\<in>set vs. valueText n v" and "Suc (length ps) + n \<le> L" and "spaces sp"
  shows "scan_all (at BeginValue (parseArrayValue # ps) False L) (joinWith (CHR '','') vs @ sp @ '']'') = Some (closed ps L)"
  using assms(1,2)
proof (induction vs)
  case (Cons v vs)
  let ?s = "at EndValue (parseArrayValue # ps) False L"
  have v: "valueText n v" and len: "length (parseArrayValue # ps) + n \<le> L" using Cons.prems assms(3) by simp_all
  have close: "stateEndValue ?s (CHR '']'') = Some (closed ps L, False)"
    by (simp add: stateEndValue_def isSpace_def pop_closed)
  have comma: "stateEndValue ?s (CHR '','') = Some (at BeginValue (parseArrayValue # ps) False L, False)"
    by (simp add: stateEndValue_def isSpace_def goTo_def)
  show ?case
  proof (cases "vs = []")
    case True
    from value_then [OF v len assms(4) _ close, of "[]"] True show ?thesis by simp
  next
    case False
    have "spaces []" by simp
    from value_then [OF v len this _ comma, of "joinWith (CHR '','') vs @ sp @ '']''"] Cons.IH Cons.prems False show ?thesis
      by (simp add: joinWith_Cons)
  qed
qed simp

text \<open>After an opening bracket the first value or key is read as any other, unless the bracket is closed.\<close>

lemma orEmpty_value:
  "scan_all (at BeginValue qs e L) x = Some t \<Longrightarrow> sc_step t \<noteq> BeginValue \<Longrightarrow> scan_all (at BeginValueOrEmpty qs e L) x = Some t"
proof (induction x)
  case (Cons c x)
  show ?case
  proof (cases "isSpace c")
    case True
    then have "scan_step (at st qs e L) c = Some (at st qs e L, True)" if "st \<in> beginSteps" for st using that by (simp add: scan_step_space_iff)
    with Cons show ?thesis by (simp add: beginSteps_def)
  next
    case False
    have "c \<noteq> CHR '']''" using Cons.prems(1) by (auto simp: scan_step_def stateBeginValue_def isSpace_def isDigit_def)
    with False have "scan_step (at BeginValueOrEmpty qs e L) c = scan_step (at BeginValue qs e L) c"
      by (simp add: scan_step_def stateBeginValue_def goTo_def pushParseState_def)
    with Cons.prems(1) show ?thesis by simp
  qed
qed auto

lemma orEmpty_string:
  "scan_all (at BeginString qs e L) x = Some t \<Longrightarrow> sc_step t \<noteq> BeginString \<Longrightarrow> scan_all (at BeginStringOrEmpty qs e L) x = Some t"
proof (induction x)
  case (Cons c x)
  show ?case
  proof (cases "isSpace c")
    case True
    then have "scan_step (at st qs e L) c = Some (at st qs e L, True)" if "st \<in> beginSteps" for st using that by (simp add: scan_step_space_iff)
    with Cons show ?thesis by (simp add: beginSteps_def)
  next
    case False
    have "c \<noteq> CHR ''}''" using Cons.prems(1) by (auto simp: scan_step_def stateBeginString_def isSpace_def)
    with False have "scan_step (at BeginStringOrEmpty qs e L) c = scan_step (at BeginString qs e L) c"
      by (simp add: scan_step_def stateBeginString_def goTo_def)
    with Cons.prems(1) show ?thesis by simp
  qed
qed auto

lemma closed_step: "sc_step (closed ps L) \<noteq> BeginValue" "sc_step (closed ps L) \<noteq> BeginString"
  by (simp_all add: closed_def)

lemma valueText_array:
  assumes "\<forall>v\<in>set vs. valueText n v" and "spaces sp" and "vs = [] \<longrightarrow> sp = []"
  shows "valueText (Suc n) (''['' @ joinWith (CHR '','') vs @ sp @ '']'')"
  unfolding valueText_def
proof (intro allI impI)
  fix ps :: "parseState list" and L :: nat
  assume L: "length ps + Suc n \<le> L"
  let ?s = "at BeginValueOrEmpty (parseArrayValue # ps) False L"
  have start: "scan_step (at BeginValue ps False L) (CHR ''['') = Some (?s, False)"
    using L by (simp add: scan_step_def stateBeginValue_def isSpace_def pushParseState_def)
  have "scan_all ?s (joinWith (CHR '','') vs @ sp @ '']'') = Some (closed ps L)"
  proof (cases "vs = []")
    case True
    with assms(3) show ?thesis by (simp add: scan_step_def isSpace_def stateEndValue_def pop_closed)
  next
    case False
    from L array_items [OF False assms(1) _ assms(2), of ps L] show ?thesis by (intro orEmpty_value closed_step) simp
  qed
  with start ended_closed show "\<exists>s. scan_all (at BeginValue ps False L) (''['' @ joinWith (CHR '','') vs @ sp @ '']'') = Some s \<and> ended ps L s"
    by auto
qed

text \<open>A member of an object: space, the key, a colon and the value.\<close>

definition memberText :: "string \<times> string \<times> string \<Rightarrow> string" where
  "memberText = (\<lambda>(sp, k, v). sp @ MarshalString k @ '':'' @ v)"

lemma member_then:
  assumes "spaces sp" and "valueText n v" and "Suc (length ps) + n \<le> L" and "spaces sp'" and "d \<in> {CHR '','', CHR ''}'', CHR '']''}"
    and "stateEndValue (at EndValue (parseObjectValue # ps) False L) d = Some (t, f)"
  shows "scan_all (at BeginString (parseObjectKey # ps) False L) (memberText (sp, k, v) @ sp' @ d # r) = scan_all t r"
proof -
  have q: "scan_all (at InString (parseObjectKey # ps) False L) (quoteRest k) = Some (at InString (parseObjectKey # ps) False L)"
    by (rule tightRun_scan_all [OF tight_quoteRest])
  have key: "scan_all (at BeginString (parseObjectKey # ps) False L) (MarshalString k @ CHR '':'' # w) =
      scan_all (at BeginValue (parseObjectValue # ps) False L) w" for w
    using q by (simp add: MarshalString_def scan_step_def stateBeginString_def goTo_def isSpace_def scan_all_append stateEndValue_def)
  have "BeginString \<in> beginSteps" by (simp add: beginSteps_def)
  from begin_spaces [OF assms(1) this] key [of "v @ sp' @ d # r"] value_then [OF assms(2) _ assms(4,5,6), of r] assms(3)
  show ?thesis by (simp add: memberText_def)
qed

lemma object_items:
  assumes "ms \<noteq> []" and "\<forall>(sp, k, v)\<in>set ms. spaces sp \<and> valueText n v" and "Suc (length ps) + n \<le> L" and "spaces sp"
  shows "scan_all (at BeginString (parseObjectKey # ps) False L) (joinWith (CHR '','') (map memberText ms) @ sp @ ''}'') = Some (closed ps L)"
  using assms(1,2)
proof (induction ms)
  case (Cons m ms)
  obtain sp1 k v where m: "m = (sp1, k, v)" by (cases m)
  with Cons.prems have v: "spaces sp1" "valueText n v" by simp_all
  let ?s = "at EndValue (parseObjectValue # ps) False L"
  have close: "stateEndValue ?s (CHR ''}'') = Some (closed ps L, False)"
    by (simp add: stateEndValue_def isSpace_def pop_closed)
  have comma: "stateEndValue ?s (CHR '','') = Some (at BeginString (parseObjectKey # ps) False L, False)"
    by (simp add: stateEndValue_def isSpace_def goTo_def)
  show ?case
  proof (cases "ms = []")
    case True
    from member_then [OF v assms(3,4) _ close, of k "[]"] True m show ?thesis by simp
  next
    case False
    have "spaces []" by simp
    from member_then [OF v assms(3) this _ comma, of k "joinWith (CHR '','') (map memberText ms) @ sp @ ''}''"] Cons.IH Cons.prems False m
    show ?thesis by (simp add: joinWith_Cons)
  qed
qed simp

lemma valueText_object:
  assumes "\<forall>(sp, k, v)\<in>set ms. spaces sp \<and> valueText n v" and "spaces sp" and "ms = [] \<longrightarrow> sp = []"
  shows "valueText (Suc n) (''{'' @ joinWith (CHR '','') (map memberText ms) @ sp @ ''}'')"
  unfolding valueText_def
proof (intro allI impI)
  fix ps :: "parseState list" and L :: nat
  assume L: "length ps + Suc n \<le> L"
  let ?s = "at BeginStringOrEmpty (parseObjectKey # ps) False L"
  have start: "scan_step (at BeginValue ps False L) (CHR ''{'') = Some (?s, False)"
    using L by (simp add: scan_step_def stateBeginValue_def isSpace_def pushParseState_def)
  have "scan_all ?s (joinWith (CHR '','') (map memberText ms) @ sp @ ''}'') = Some (closed ps L)"
  proof (cases "ms = []")
    case True
    with assms(3) show ?thesis by (simp add: scan_step_def isSpace_def stateEndValue_def pop_closed)
  next
    case False
    from L object_items [OF False assms(1) _ assms(2), of ps L] show ?thesis by (intro orEmpty_string closed_step) simp
  qed
  with start ended_closed show "\<exists>s. scan_all (at BeginValue ps False L) (''{'' @ joinWith (CHR '','') (map memberText ms) @ sp @ ''}'') = Some s \<and>
      ended ps L s" by auto
qed

end
