(* ===== verification/Bodies.thy ===== *)
theory Bodies
  imports Endpoints JsonTotal JsonText
begin

text \<open>
  The bodies the API reads and writes: which request bodies are refused with which error, that
  everything the router writes as JSON is JSON, and that a client that decodes an error gets
  the message, type and code the router meant.
\<close>

subsection \<open>Request bodies\<close>

definition bodyError :: "string \<Rightarrow> string \<Rightarrow> APIError" where
  "bodyError message code = invalidRequest message code StatusBadRequest"

lemma goodMember_valid: "goodMembers 9999 payload \<Longrightarrow> map_of payload k = Some raw \<Longrightarrow> checkValid raw"
proof -
  assume "goodMembers 9999 payload" "map_of payload k = Some raw"
  then have "validAt 9999 raw" by (auto simp: goodMembers_def dest!: map_of_SomeD)
  then obtain s' where s: "scan_all (newScanner\<lparr>sc_limit := 9999\<rparr>) raw = Some s'" "scan_eof s'"
    by (auto simp: validAt_def split: option.splits)
  have le: "sc_limit (newScanner\<lparr>sc_limit := 9999\<rparr>) \<le> maxNestingDepth" by (simp add: maxNestingDepth_def)
  from scan_all_raise [OF s(1) le] have "scan_all newScanner raw = Some (s'\<lparr>sc_limit := maxNestingDepth\<rparr>)"
    by (simp add: newScanner_def)
  moreover have "scan_eof (s'\<lparr>sc_limit := maxNestingDepth\<rparr>)"
  proof (rule scan_eof_raise [OF s(2)])
    have "sc_limit s' = 9999" using s(1) scan_all_raise [OF s(1), of 9999] by (auto simp: newScanner_def) (metis scanner.select_convs(4) scanner.surjective scanner.update_convs(4))
    then show "sc_limit s' \<le> maxNestingDepth" by (simp add: maxNestingDepth_def)
  qed
  ultimately show ?thesis by (simp add: checkValid_def)
qed

text \<open>
  C14: what is wrong with a request body. A body over 4 MiB, one that cannot be read, and one that
  is not a JSON object are refused with their own error each, in this order, and an object
  without a member \<open>model\<close> with another; every other body is decoded, to members with distinct
  names whose values are JSON, and its model is accepted as a string exactly if it is written
  as one (or as \<open>null\<close>, which is then refused as empty). Only a body that is too large makes
  the server close the connection.
\<close>

theorem decodeChatBody_verdict:
  "let body = fst (rq_Body r)
   in if length body > 4194304
      then decodeChatBody r w = (Inl (invalidRequest ''request body is too large'' ''request_too_large'' StatusRequestEntityTooLarge),
        setHeader ''Connection'' ''close'' w)
      else if snd (rq_Body r) \<noteq> None
      then decodeChatBody r w = (Inl (bodyError ''request body could not be read'' ''invalid_body''), w)
      else if checkValid body \<and> take 1 (skipSpace body) = ''{''
      then \<exists>payload. UnmarshalObject body = Some (Some payload) \<and> distinct (map fst payload) \<and> (\<forall>(k, raw)\<in>set payload. checkValid raw) \<and>
        (case map_of payload ''model'' of
           None \<Rightarrow> decodeChatBody r w = (Inl (bodyError ''model is required'' ''invalid_model''), w)
         | Some raw \<Rightarrow> decodeChatBody r w = (Inr payload, w) \<and>
             (UnmarshalString raw = None \<longleftrightarrow> take 1 (skipSpace raw) \<notin> {[CHR 0x22], ''n''}))
      else decodeChatBody r w = (Inl (bodyError ''request body must be a JSON object'' ''invalid_body''), w)"
proof -
  let ?body = "fst (rq_Body r)"
  show ?thesis
  proof (cases "length ?body > 4194304 \<or> snd (rq_Body r) \<noteq> None")
    case True
    then show ?thesis by (auto simp: decodeChatBody_def readAllLimited_def MaxChatRequestBytes_def bodyError_def Let_def)
  next
    case False
    then have rd: "readAllLimited MaxChatRequestBytes (rq_Body r) = Inr ?body"
      by (auto simp: readAllLimited_def MaxChatRequestBytes_def)
    show ?thesis
    proof (cases "isObjectText ?body")
      case True
      then obtain payload where p: "UnmarshalObject ?body = Some (Some payload)" by (auto simp: UnmarshalObject_total)
      have o: "checkValid ?body \<and> take 1 (skipSpace ?body) = ''{''" using True by (auto simp: isObjectText_def)
      have good: "goodMembers 9999 payload" by (rule UnmarshalObject_good [OF p])
      then have d: "distinct (map fst payload)" by (simp add: goodMembers_def)
      then have v: "\<forall>(k, raw)\<in>set payload. checkValid raw" using goodMember_valid [OF good] by (auto simp: map_of_eq_Some_iff)
      have str: "UnmarshalString raw = None \<longleftrightarrow> take 1 (skipSpace raw) \<notin> {[CHR 0x22], ''n''}" if "map_of payload ''model'' = Some raw" for raw
        using decodes_string [of raw] goodMember_valid [OF good that] by auto
      have dec: "decodeChatBody r w = (case map_of payload ''model'' of
           None \<Rightarrow> (Inl (bodyError ''model is required'' ''invalid_model''), w) | Some raw \<Rightarrow> (Inr payload, w))"
        using p by (simp add: decodeChatBody_def rd bodyError_def Let_def split: option.split)
      show ?thesis using False o p d v str by (auto simp: Let_def dec split: option.split)
    next
      case no: False
      then have "\<not> (checkValid ?body \<and> take 1 (skipSpace ?body) = ''{'')"
        by (cases "skipSpace ?body") (auto simp: isObjectText_def)
      moreover have "decodeChatBody r w = (Inl (bodyError ''request body must be a JSON object'' ''invalid_body''), w)"
        using no by (auto simp: decodeChatBody_def rd bodyError_def Let_def UnmarshalObject_total split: option.split)
      ultimately show ?thesis using False by (auto simp: Let_def)
    qed
  qed
qed


subsection \<open>What is written as JSON is JSON\<close>

text \<open>How deep a value is nested.\<close>

fun nesting :: "json \<Rightarrow> nat" where
  "nesting (JArray js) = Suc (foldr max (map nesting js) 0)"
| "nesting (JObject fs) = Suc (foldr max (map (\<lambda>(k, j). nesting j) fs) 0)"
| "nesting j = 0"

lemma max_member: "n \<in> set ns \<Longrightarrow> n \<le> foldr max ns 0" for n :: nat
  by (induction ns) auto

lemma array_member: "j \<in> set js \<Longrightarrow> nesting j \<le> foldr max (map nesting js) 0"
  by (rule max_member) simp

lemma object_member: "(k, j) \<in> set fs \<Longrightarrow> nesting j \<le> foldr max (map (\<lambda>(k, j). nesting j) fs) 0"
  by (rule max_member) force

text \<open>The values of an array, and the members of an object, fit into one more level.\<close>

lemma values_text:
  assumes "\<And>j. j \<in> set js \<Longrightarrow> valueText (nesting j) (f j)"
  shows "\<forall>v\<in>set (map f js). valueText (foldr max (map nesting js) 0) v"
proof
  fix v
  assume "v \<in> set (map f js)"
  then obtain j where j: "j \<in> set js" "v = f j" by auto
  with valueText_mono [OF assms [OF j(1)] array_member [OF j(1)]] show "valueText (foldr max (map nesting js) 0) v" by simp
qed

lemma members_text:
  assumes "\<And>k j. (k, j) \<in> set fs \<Longrightarrow> valueText (nesting j) (f j)" and "spaces sp"
  shows "\<forall>(sp', k, v)\<in>set (map (\<lambda>(k, j). (sp, k, f j)) fs). spaces sp' \<and> valueText (foldr max (map (\<lambda>(k, j). nesting j) fs) 0) v"
proof -
  have "valueText (foldr max (map (\<lambda>(k, j). nesting j) fs) 0) (f j)" if "(k, j) \<in> set fs" for k j
    by (rule valueText_mono [OF assms(1) [OF that] object_member [OF that]])
  with assms(2) show ?thesis by auto
qed

lemma encodeJson_text: "valueText (nesting j) (encodeJson j)"
proof (induction j rule: encodeJson.induct)
  case (4 js)
  from valueText_array [OF values_text [OF "4.IH"], of js "[]"] show ?case by simp
next
  case (5 fs)
  have "spaces []" by simp
  from valueText_object [OF members_text [OF _ this], of fs encodeJson "[]"] "5.IH" show ?case
    by (simp add: memberText_def comp_def case_prod_beta')
qed (simp_all add: valueText_string valueText_int valueText_bool)

lemma newline_spaces: "spaces (newline d)"
  by (simp add: newline_def isSpace_def list_all_iff)

lemma indentJson_text: "valueText (nesting j) (indentJson d j)"
proof (induction d j rule: indentJson.induct)
  case (1 d j js)
  have "valueText (nesting x) (newline (Suc d) @ indentJson (Suc d) x)" if "x \<in> set (j # js)" for x
    by (rule valueText_spaces [OF newline_spaces "1.IH" [OF that]])
  from valueText_array [OF values_text [OF this] newline_spaces [of d], of "j # js"] show ?case by simp
next
  case (2 d f fs)
  have sp: "spaces '' ''" by (simp add: isSpace_def)
  have v: "valueText (nesting x) ('' '' @ indentJson (Suc d) x)" if "(k, x) \<in> set (f # fs)" for k x
    by (rule valueText_spaces [OF sp "2.IH" [OF that refl]])
  from valueText_object [OF members_text [of "f # fs" "\<lambda>j. '' '' @ indentJson (Suc d) j", OF v newline_spaces [of "Suc d"]] newline_spaces [of d]] show ?case
    by (simp add: memberText_def comp_def case_prod_beta')
qed (use encodeJson_text in \<open>simp_all only: indentJson.simps\<close>)

lemma written_valid:
  assumes "nesting j \<le> maxNestingDepth"
  shows "checkValid (Encode j)" "checkValid (EncodeIndent j)"
proof -
  have sp: "spaces [CHR 0x0A]" by (simp add: isSpace_def)
  show "checkValid (Encode j)" "checkValid (EncodeIndent j)"
    unfolding Encode_def EncodeIndent_def
    by (rule valueText_valid [OF encodeJson_text assms sp], rule valueText_valid [OF indentJson_text assms sp])
qed

lemma max_le: "list_all (\<lambda>n. n \<le> m) ns \<Longrightarrow> foldr max ns 0 \<le> m" for m :: nat
  by (induction ns) auto

lemma written_json_valid:
  "checkValid (Encode (errorBody err))" "checkValid (Encode (modelList names))" "checkValid (EncodeIndent (statusJson st))"
proof -
  show "checkValid (Encode (errorBody err))"
    by (rule written_valid) (simp add: errorBody_def maxNestingDepth_def)
  have "foldr max (map nesting (map modelEntry names)) 0 \<le> 1"
    by (rule max_le) (simp add: list_all_iff modelEntry_def)
  then show "checkValid (Encode (modelList names))"
    by (intro written_valid) (simp add: modelList_def maxNestingDepth_def comp_def)
  have "foldr max (map nesting (map backendStatusJson bs)) 0 \<le> 1" "foldr max (map nesting (map aliasStatusJson as)) 0 \<le> 1" for bs as
    by (rule max_le; simp add: list_all_iff backendStatusJson_def aliasStatusJson_def)+
  note depth = this(1) [of "status_Backends st"] this(2) [of "status_Aliases st"]
  then show "checkValid (EncodeIndent (statusJson st))"
    by (intro written_valid) (simp add: statusJson_def maxNestingDepth_def comp_def)
qed


subsection \<open>A client reads the error that was meant\<close>

lemma UnmarshalString_MarshalString: "UnmarshalString (MarshalString s) = Some (toValidUTF8 s)"
  using takeValue_MarshalString [of s "[]"] skipSpace_MarshalString [of s "[]"] unquote_MarshalString [of s]
  by (simp add: UnmarshalString_def MarshalString_valid) (simp add: MarshalString_def)

lemma field_run:
  "tightRun (at BeginString [parseObjectKey] False L) (field (k, MarshalString s) @ r) = tightRun (at EndValue [parseObjectValue] False L) r"
  by (simp add: field_def MarshalString_def tightRun_append tight_quoteRest scan_step_def stateBeginString_def stateBeginValue_def goTo_def
      isSpace_def stateEndValue_def)

lemma more_run: "tightRun (at EndValue [parseObjectValue] False L) (CHR '','' # r) = tightRun (at BeginString [parseObjectKey] False L) r"
  by (simp add: scan_step_def stateEndValue_def goTo_def isSpace_def)

definition errorFields :: "APIError \<Rightarrow> (string \<times> string) list" where
  "errorFields err = [(''message'', MarshalString (ae_Message err)), (''type'', MarshalString (ae_Type err)), (''code'', MarshalString (ae_Code err))]"

definition errorObject :: "APIError \<Rightarrow> string" where
  "errorObject err = ''{'' @ joinWith (CHR '','') (map field (errorFields err)) @ ''}''"

lemma Encode_errorBody: "Encode (errorBody err) = ''{'' @ joinWith (CHR '','') (map field [(''error'', errorObject err)]) @ CHR ''}'' # [CHR 0x0A]"
  by (simp add: Encode_def errorBody_def errorObject_def errorFields_def field_def)

lemma errorObject_tight: "tight 9999 (errorObject err)"
proof -
  obtain r where r: "joinWith (CHR '','') (map field (errorFields err)) @ ''}'' = CHR 0x22 # r"
    by (auto simp: errorFields_def field_def MarshalString_def)
  have first: "scan_step (at BeginStringOrEmpty [parseObjectKey] False 9999) (CHR 0x22) =
      scan_step (at BeginString [parseObjectKey] False 9999) (CHR 0x22)"
    by (simp add: scan_step_def isSpace_def stateBeginString_def goTo_def)
  have "tightRun (at BeginString [parseObjectKey] False 9999) (joinWith (CHR '','') (map field (errorFields err)) @ ''}'') =
      Some (at EndTop [] True 9999)"
    by (simp add: errorFields_def field_run more_run del: tightRun.simps)
      (simp add: scan_step_def stateEndValue_def isSpace_def popParseState_def)
  then have "tightRun (at BeginStringOrEmpty [parseObjectKey] False 9999) (CHR 0x22 # r) = Some (at EndTop [] True 9999)"
    unfolding r by (simp add: first)
  then have "tightRun (newScanner\<lparr>sc_limit := 9999\<rparr>) (errorObject err) = Some (at EndTop [] True 9999)"
    unfolding errorObject_def r
    by (simp add: newScanner_def scan_step_def stateBeginValue_def isSpace_def pushParseState_def)
  then show ?thesis by (simp add: tight_def scan_eof_def)
qed

lemma ascii_keys [simp]: "toValidUTF8 ''error'' = ''error''" "toValidUTF8 ''message'' = ''message''" "toValidUTF8 ''type'' = ''type''"
  "toValidUTF8 ''code'' = ''code''"
  by (simp_all add: toValidUTF8_ascii)

lemma errorBody_decodes:
  "\<exists>inner fields. UnmarshalObject (Encode (errorBody err)) = Some (Some [(''error'', inner)]) \<and> UnmarshalObject inner = Some (Some fields) \<and>
     map fst fields = [''message'', ''type'', ''code''] \<and>
     map (\<lambda>(k, raw). UnmarshalString raw) fields =
       [Some (toValidUTF8 (ae_Message err)), Some (toValidUTF8 (ae_Type err)), Some (toValidUTF8 (ae_Code err))]"
proof (intro exI conjI)
  have sp: "list_all isSpace [CHR 0x0A]" "list_all isSpace []" by (simp_all add: isSpace_def)
  have "\<forall>(k, v)\<in>set [(''error'', errorObject err)]. tight 9999 v \<and> toValidUTF8 k = k" by (simp add: errorObject_tight)
  from object_decode [OF sp(1) this] show "UnmarshalObject (Encode (errorBody err)) = Some (Some [(''error'', errorObject err)])"
    unfolding Encode_errorBody by simp
  have "\<forall>(k, v)\<in>set (errorFields err). tight 9999 v \<and> toValidUTF8 k = k" by (simp add: errorFields_def MarshalString_tight)
  from object_decode [OF sp(2) this] show "UnmarshalObject (errorObject err) = Some (Some (errorFields err))"
    by (simp add: errorObject_def errorFields_def)
  show "map fst (errorFields err) = [''message'', ''type'', ''code'']" by (simp add: errorFields_def)
  show "map (\<lambda>(k, raw). UnmarshalString raw) (errorFields err) =
       [Some (toValidUTF8 (ae_Message err)), Some (toValidUTF8 (ae_Type err)), Some (toValidUTF8 (ae_Code err))]"
    by (simp add: errorFields_def UnmarshalString_MarshalString)
qed

text \<open>
  C30: what the router writes can be read. Every JSON body it writes is valid JSON: each error, the
  list of models with any names, and the indented status of any backends and aliases, whatever
  bytes the names, messages and codes hold. And a client that decodes the body of an error finds
  one member, \<open>error\<close>, an object with exactly the members \<open>message\<close>, \<open>type\<close> and \<open>code\<close>, which
  decode to the texts of the error (invalid UTF-8 replaced).
\<close>

theorem written_json:
  "checkValid (Encode (errorBody err)) \<and> checkValid (Encode (modelList names)) \<and> checkValid (EncodeIndent (statusJson st)) \<and>
   (\<exists>inner fields. UnmarshalObject (Encode (errorBody err)) = Some (Some [(''error'', inner)]) \<and> UnmarshalObject inner = Some (Some fields) \<and>
     map fst fields = [''message'', ''type'', ''code''] \<and>
     map (\<lambda>(k, raw). UnmarshalString raw) fields =
       [Some (toValidUTF8 (ae_Message err)), Some (toValidUTF8 (ae_Type err)), Some (toValidUTF8 (ae_Code err))])"
  by (intro conjI written_json_valid errorBody_decodes)


subsection \<open>A concrete body\<close>

definition exChat :: Request where
  "exChat = (exGet ''/v1/chat/completions'')\<lparr>rq_Method := ''POST'', rq_Body := (encodeJson (JObject [(''model'', JString ''m'')]), None)\<rparr>"

lemma exChat_decodes:
  "UnmarshalObject (fst (rq_Body exChat)) = Some (Some [(''model'', MarshalString ''m'')])" "checkValid (fst (rq_Body exChat))"
  "take 1 (skipSpace (fst (rq_Body exChat))) = ''{''" "length (fst (rq_Body exChat)) \<le> 4194304" "snd (rq_Body exChat) = None"
proof -
  have nil: "list_all isSpace []" by simp
  have "\<forall>(k, v)\<in>set [(''model'', MarshalString ''m'')]. tight 9999 v \<and> toValidUTF8 k = k"
    by (simp add: MarshalString_tight toValidUTF8_ascii)
  from object_decode [OF nil this] show "UnmarshalObject (fst (rq_Body exChat)) = Some (Some [(''model'', MarshalString ''m'')])"
    by (simp add: exChat_def field_def)
  then show "checkValid (fst (rq_Body exChat))" by (simp add: UnmarshalObject_def split: if_splits)
  show "take 1 (skipSpace (fst (rq_Body exChat))) = ''{''" by (simp add: exChat_def skipSpace_def isSpace_def)
  show "length (fst (rq_Body exChat)) \<le> 4194304" by (simp add: exChat_def MarshalString_def quoteByte_def htmlUnsafe_def)
  show "snd (rq_Body exChat) = None" by (simp add: exChat_def)
qed

theorem decodeChatBody_verdict_witness:
  "decodeChatBody exChat exWorld = (Inr [(''model'', MarshalString ''m'')], exWorld) \<and> checkValid (MarshalString ''m'')"
  using decodeChatBody_verdict [of exChat exWorld] exChat_decodes by (simp add: Let_def not_less [symmetric])

end
