(* ===== verification/Forwarding.thy ===== *)
theory Forwarding
  imports Serving JsonRoundtrip
begin

text \<open>
  What the upstream requests of \<open>Serve\<close> contain: the members of the client's body, with the
  route's own model, and nothing else of the client's request but its Accept header.
\<close>

subsection \<open>The body\<close>

definition rewritten :: "RawObject \<Rightarrow> string \<Rightarrow> string \<Rightarrow> string option" where
  "rewritten payload upstreamModel =
     (map_option (\<lambda>raw. the (compact raw)) \<circ> map_of payload)(''model'' \<mapsto> MarshalString upstreamModel)"

lemma toValidUTF8_model: "toValidUTF8 ''model'' = ''model''"
  by (simp add: toValidUTF8_ascii toValidUTF8.simps)

lemma MarshalString_validAt: "validAt L (MarshalString m)"
  using MarshalString_tight [of L m] by (auto simp: validAt_def tight_def dest: tightRun_scan_all split: option.splits)

lemma encodeWithModel_roundtrip:
  assumes "UnmarshalObject body = Some (Some payload)"
  shows "\<exists>out m'. encodeWithModel payload upstreamModel = Some out \<and> UnmarshalObject out = Some (Some m') \<and>
    map_of m' = rewritten payload upstreamModel"
proof -
  let ?m = "AList.update ''model'' (MarshalString upstreamModel) payload"
  have "goodMembers 9999 ?m"
    by (rule goodMembers_update [OF UnmarshalObject_good [OF assms] toValidUTF8_model MarshalString_validAt])
  from MarshalRawObject_roundtrip [OF this] obtain out m' where o: "MarshalRawObject ?m = Some out" "UnmarshalObject out = Some (Some m')"
    "\<And>k. map_of m' k = map_option (\<lambda>raw. the (compact raw)) (map_of ?m k)" by blast
  have "map_of m' = rewritten payload upstreamModel"
    by (rule ext) (simp add: o(3) rewritten_def update_conv' compact_MarshalString)
  with o(1,2) show ?thesis by (simp add: encodeWithModel_def)
qed


subsection \<open>The requests of a run\<close>

text \<open>The requests among the events go to routes of \<open>R\<close> and are those of their routes.\<close>

definition sentBy :: "Route set \<Rightarrow> Header \<Rightarrow> RawObject \<Rightarrow> event list \<Rightarrow> bool" where
  "sentBy R h payload es \<longleftrightarrow> (\<forall>route req. EvAttempt route req \<in> set es \<longrightarrow>
     route \<in> R \<and> upstreamRequest h payload route = Some req)"

lemma sentBy_simps [simp]:
  "sentBy R h payload []" "sentBy R h payload (es @ es') \<longleftrightarrow> sentBy R h payload es \<and> sentBy R h payload es'"
  "sentBy R h payload (EvLog l # es) \<longleftrightarrow> sentBy R h payload es" "sentBy R h payload (EvBodyClosed r k # es) \<longleftrightarrow> sentBy R h payload es"
  by (auto simp: sentBy_def)

lemma sentBy_countFailover: "countFailover a reason w = Some w' \<Longrightarrow> w_Trace w' = w_Trace w"
  by (auto simp: countFailover_def split: option.splits)

lemma sentBy_attempt:
  "attempt e h n route payload w = (x, w') \<Longrightarrow> route \<in> R \<Longrightarrow> sentBy R h payload (w_Trace w) \<Longrightarrow> sentBy R h payload (w_Trace w')"
  by (auto simp: sentBy_def elim!: attempt_cases)

lemma sentBy_serve_failed:
  "serve_failed e a n att route err w = (x, w') \<Longrightarrow> sentBy R h payload (w_Trace w) \<Longrightarrow> sentBy R h payload (w_Trace w')"
  by (auto simp: serve_failed_def Let_def split: if_splits option.splits sum.splits prod.splits dest!: sentBy_countFailover)

lemma sentBy_forward:
  "forward e n resp route a w = (x, w') \<Longrightarrow> sentBy R h payload (w_Trace w) \<Longrightarrow> sentBy R h payload (w_Trace w')"
  by (auto simp: forward_def closeBody_def Let_def split: if_splits option.splits prod.splits ioErr.splits)

lemma sentBy_serve_final:
  "serve_final e a n route resp w = (x, w') \<Longrightarrow> sentBy R h payload (w_Trace w) \<Longrightarrow> sentBy R h payload (w_Trace w')"
  by (auto simp: serve_final_def split: prod.splits result.splits dest: sentBy_forward)

lemma sentBy_serve_answered:
  "serve_answered e a n att route resp w = (x, w') \<Longrightarrow> sentBy R h payload (w_Trace w) \<Longrightarrow> sentBy R h payload (w_Trace w')"
  by (auto simp: serve_answered_def Let_def split: option.splits sum.splits prod.splits
      dest!: sentBy_countFailover dest: sentBy_serve_final)

lemma sentBy_serve_round:
  "serve_round e h a payload n att route w = (x, w') \<Longrightarrow> route \<in> R \<Longrightarrow> sentBy R h payload (w_Trace w) \<Longrightarrow> sentBy R h payload (w_Trace w')"
  by (auto simp: serve_round_def split: prod.splits sum.splits
      dest: sentBy_attempt sentBy_serve_failed sentBy_serve_answered)

lemma sentBy_Serve_loop:
  "Serve_loop e h a payload n att route w = (r, w') \<Longrightarrow> route \<in> aliasRoutes (w_State w) a \<Longrightarrow>
     sentBy (aliasRoutes (w_State w) a) h payload (w_Trace w) \<Longrightarrow> sentBy (aliasRoutes (w_State w) a) h payload (w_Trace w')"
proof (induction e h a payload n att route w rule: Serve_loop.induct)
  case (1 e h a payload n att route w)
  obtain res w1 where rd: "serve_round e h a payload n (insert route att) route w = (res, w1)" by fastforce
  note tr = sentBy_serve_round [OF rd "1.prems"(2,3)]
  show ?case
  proof (cases res)
    case (Inl x)
    with "1.prems" rd tr show ?thesis by (simp add: Serve_loop.simps)
  next
    case (Inr nxt)
    with "1.prems" rd have loop: "Serve_loop e h a payload (Suc n) (insert route att) nxt w1 = (r, w')"
      by (simp add: Serve_loop.simps [of e h a payload n])
    from serve_round_next [OF rd [unfolded Inr]] have R: "aliasRoutes (w_State w1) a = aliasRoutes (w_State w) a"
      "nxt \<in> aliasRoutes (w_State w) a" by (auto simp: aliasRoutes_def)
    from "1.IH" [OF rd [symmetric] Inr loop] R tr show ?thesis by simp
  qed
qed

lemma sentBy_Serve:
  assumes "Serve e h a payload w = (r, w')" and "sentBy (aliasRoutes (w_State w) a) h payload (w_Trace w)"
  shows "sentBy (aliasRoutes (w_State w) a) h payload (w_Trace w')"
proof (cases "Reserve (w_State w) a {}")
  case (Some x)
  show ?thesis
  proof (cases "\<exists>route s. x = (Inr route, s)")
    case True
    then obtain route s where x: "x = (Inr route, s)" by blast
    with Some have "Reserve (w_State w) a {} = Some (Inr route, s)" by simp
    from Reserve_fresh [OF this] have R: "aliasRoutes s a = aliasRoutes (w_State w) a" "route \<in> aliasRoutes (w_State w) a"
      by (auto simp: aliasRoutes_def)
    from assms(1) Some x have "Serve_loop e h a payload 0 {} route (w\<lparr>w_State := s\<rparr>) = (r, w')" by (simp add: Serve_def)
    from sentBy_Serve_loop [OF this] R assms(2) show ?thesis by simp
  next
    case False
    with assms Some show ?thesis by (auto simp: Serve_def split: prod.splits sum.splits routeError.splits)
  qed
qed (use assms in \<open>simp add: Serve_def\<close>)

text \<open>
  C5: a request is passed on unchanged but for its model. When the client's body decodes to
  \<open>payload\<close>, every request \<open>Serve\<close> sends goes, with POST, to the chat URL of a backend of one of the
  alias's routes; its headers are the router's own; and its body decodes to the members of
  \<open>payload\<close>, each value with at most insignificant space removed, except that \<open>model\<close> is the
  upstream model of the route, whatever bytes it consists of.
\<close>

theorem Serve_forwards_members:
  assumes "UnmarshalObject body = Some (Some payload)" and "w_Trace w = []"
    and "Serve e h a payload w = (r, w')" and "EvAttempt route req \<in> set (w_Trace w')"
  shows "route \<in> aliasRoutes (w_State w) a \<and> uq_Method req = ''POST'' \<and> uq_URL req = ChatURL (r_Backend route) \<and>
    uq_Header req = setUpstreamHeaders [] h route \<and>
    (\<exists>m'. UnmarshalObject (uq_Body req) = Some (Some m') \<and> map_of m' = rewritten payload (r_UpstreamModel route))"
proof -
  have "sentBy (aliasRoutes (w_State w) a) h payload (w_Trace w')" using sentBy_Serve [OF assms(3)] assms(2) by simp
  with assms(4) have req: "route \<in> aliasRoutes (w_State w) a" "upstreamRequest h payload route = Some req"
    by (auto simp: sentBy_def)
  obtain out m' where out: "encodeWithModel payload (r_UpstreamModel route) = Some out" "UnmarshalObject out = Some (Some m')"
    "map_of m' = rewritten payload (r_UpstreamModel route)"
    using encodeWithModel_roundtrip [OF assms(1)] by blast
  with req show ?thesis by (auto simp: upstreamRequest_def)
qed

subsection \<open>A concrete body\<close>

definition exBody :: string where
  "exBody = ''{ '' @ MarshalString ''model'' @ '':'' @ MarshalString ''chat'' @ '', '' @ MarshalString ''n'' @ '': [1, 2]}''"

definition exPayload :: RawObject where
  "exPayload = [(''model'', MarshalString ''chat''), (''n'', ''[1, 2]'')]"

lemma quoteRest_literals:
  "MarshalString ''model'' = CHR 0x22 # ''model'' @ [CHR 0x22]" "MarshalString ''chat'' = CHR 0x22 # ''chat'' @ [CHR 0x22]"
  "MarshalString ''n'' = CHR 0x22 # ''n'' @ [CHR 0x22]"
  by (simp_all add: MarshalString_def quoteByte_def htmlUnsafe_def)

lemmas json_eval = quoteRest_literals newScanner_def scan_step_def stateBeginValue_def stateBeginString_def stateEndValue_def
  stateEndTop_def state0_def goTo_def pushParseState_def popParseState_def maxNestingDepth_def isSpace_def isDigit_def scan_eof_def

lemma exBody_decodes: "UnmarshalObject exBody = Some (Some exPayload)"
proof -
  have "checkValid exBody" by (simp add: checkValid_def exBody_def json_eval)
  then show ?thesis
    by (simp add: UnmarshalObject_def exBody_def exPayload_def skipSpace_def decodeMembers.simps takeValue_def isNumByte_def
      unquote_def unquoteRest.simps json_eval)
qed

lemma exRaw_compact: "compact ''[1, 2]'' = Some ''[1,2]''"
  by (simp add: compact_def Let_def htmlUnsafe_def lineSep_def json_eval)

lemma exServe_sent:
  assumes "encodeWithModel payload (r_UpstreamModel exRoute0) \<noteq> None"
  obtains w' req where "Serve (exEnv 200) [] ''chat'' payload exWorld = (Returned 200 None, w')" "EvAttempt exRoute0 req \<in> set (w_Trace w')"
proof -
  obtain req w1 where at: "attempt (exEnv 200) [] 0 exRoute0 payload (exWorld\<lparr>w_State := exBusy\<rparr>) = (Inr (exResponse 200), w1)"
    "w1 = record_event (EvAttempt exRoute0 req) (exWorld\<lparr>w_State := exBusy\<rparr>)"
    using assms by (auto simp: attempt_def exEnv_def Let_def)
  obtain r w2 where fw: "forward (exEnv 200) 0 (exResponse 200) exRoute0 ''chat''
      (observe exRoute0 ResultResponse (env_Elapsed (exEnv 200) 0) w1) = (r, w2)" by fastforce
  have both: "r = Returned 200 None \<and> EvAttempt exRoute0 req \<in> set (w_Trace w2)"
    using fw by (cases rule: forward_cases) (auto simp: at(2) exResponse_def not_eventStream_empty)
  then have r: "r = Returned 200 None" and ev: "EvAttempt exRoute0 req \<in> set (w_Trace w2)" by simp_all
  have "Serve (exEnv 200) [] ''chat'' payload exWorld = (Returned 200 None, onState (\<lambda>s. Release s (Some exRoute0)) w2)"
    using fw at(1) exBusy_Reserve r
    by (simp add: Serve_def Serve_loop.simps [of _ _ _ _ 0] serve_round_def serve_answered_def serve_final_def exResponse_def retryableStatus_def)
  moreover from ev have "EvAttempt exRoute0 req \<in> set (w_Trace (onState (\<lambda>s. Release s (Some exRoute0)) w2))"
    by simp
  ultimately show thesis by (rule that)
qed

theorem Serve_forwards_members_witness:
  "\<exists>w' req m'. Serve (exEnv 200) [] ''chat'' exPayload exWorld = (Returned 200 None, w') \<and> EvAttempt exRoute0 req \<in> set (w_Trace w') \<and>
     UnmarshalObject (uq_Body req) = Some (Some m') \<and> map_of m' ''n'' = Some ''[1,2]'' \<and>
     map_of m' ''model'' = Some (MarshalString (r_UpstreamModel exRoute0))"
proof -
  obtain w' req where run: "Serve (exEnv 200) [] ''chat'' exPayload exWorld = (Returned 200 None, w')" "EvAttempt exRoute0 req \<in> set (w_Trace w')"
  proof (rule exServe_sent)
    show "encodeWithModel exPayload (r_UpstreamModel exRoute0) \<noteq> None"
      using encodeWithModel_roundtrip [OF exBody_decodes] by auto
  qed (rule that)
  from Serve_forwards_members [OF exBody_decodes _ run] obtain m' where
    "UnmarshalObject (uq_Body req) = Some (Some m')" "map_of m' = rewritten exPayload (r_UpstreamModel exRoute0)" by auto
  with run show ?thesis by (auto simp: rewritten_def exPayload_def exRaw_compact)
qed

end
