(* ===== verification/Findings.thy ===== *)
theory Findings
  imports Lifecycle
begin

text \<open>
  What modelling showed about the code where it does not do what it means to, each as a fact
  about the model: a proxy without metrics, a model name that is checked trimmed and sent
  untrimmed, the label of a status below 200, and a probe that the shutdown cancels.
\<close>

text \<open>
  \<open>NewProxy\<close> accepts a nil metrics object, and \<open>observe\<close> checks for one, but the first failover of such
  a proxy panics, with the slot of the next route taken and not given back.
\<close>

lemma nil_metrics_failover_panics:
  assumes "\<not> isCanceled (env_CtxErr e n) err" and "st_metrics (w_State w) = None"
    and "Reserve (Release (SetHealth (w_State w) (routeBackend route) False) (Some route)) alias attempted = Some (Inr next_route, s)"
    and "st_metrics s = None"
  shows "\<exists>w'. serve_failed e alias n attempted route err w = (Inl Panicked, w') \<and> w_State w' = s"
proof -
  have metrics: "st_metrics (Release (SetHealth (w_State w) (routeBackend route) False) (Some route)) = None"
    using assms(2) by (auto simp: Release_def SetHealth_def publish_eq Release_locked_def SetHealth_locked_def emit_def Let_def split: option.split)
  have observed: "w_State (observe route result (env_Elapsed e n) (onState (\<lambda>s. Release (SetHealth s (routeBackend route) False) (Some route)) w)) =
      Release (SetHealth (w_State w) (routeBackend route) False) (Some route)" for result
    using metrics by (simp add: observe_def emit_def)
  show ?thesis
    using assms observed by (simp add: serve_failed_def countFailover_def Let_def split: prod.split)
qed

text \<open>Validation trims the name of a model before it checks it; the route keeps it as it is written.\<close>

lemma untrimmed_model_is_sent:
  "validateRoute [''a''] [] \<lparr>rc_Backend = ''a'', rc_UpstreamModel = '' m'', rc_Priority = 0\<rparr> = Inr (''a'' @ [CHR 0x00] @ ''m'') \<and>
   r_UpstreamModel (mkRoute al i \<lparr>rc_Backend = ''a'', rc_UpstreamModel = '' m'', rc_Priority = 0\<rparr> bs) = '' m''"
proof -
  have "TrimSpace '' m'' = ''m''" by code_simp
  then show ?thesis by (simp add: validateRoute_def mkRoute_def Let_def MaxPriority_def maxUpstreamModelLen_def)
qed

text \<open>A status below 200 is counted among the errors of the server, as are those from 600 on.\<close>

lemma informational_is_5xx: "status < 200 \<or> 600 \<le> status \<Longrightarrow> statusLabel status = ''5xx''"
  by (auto simp: statusLabel_def)

text \<open>
  Whenever a loop is about to probe, also after a signal, when the context that the probe runs
  under is cancelled, its backend can be marked unhealthy next, with the requests on it in
  flight as before.
\<close>

lemma cancelled_probe_is_a_failure:
  assumes "running l" and "invState (po_State (li_Pool l))" and "i < length (li_Loops l)" and "hl_Ctl (li_Loops l ! i) = Probing"
  shows "\<exists>l'. life_step l l' \<and> li_Main l' = li_Main l \<and> li_CtxDone l' = li_CtxDone l \<and>
    \<not> usable (po_State (li_Pool l')) (b_Name (hl_Backend (li_Loops l ! i))) \<and>
    load (po_State (li_Pool l')) = load (po_State (li_Pool l)) \<and> po_Requests (li_Pool l') = po_Requests (li_Pool l)"
proof -
  let ?h = "li_Loops l ! i" and ?s = "po_State (li_Pool l)"
  obtain s' calls where s: "SetHealth_locked ?s (b_Name (hl_Backend ?h)) False = (s', calls)"
    "SetHealth ?s (b_Name (hl_Backend ?h)) False = emit calls s'" using SetHealth_unfold by blast
  have failed: "probe (\<lambda>_. ExchangeFailed) (hl_Backend ?h) = False" by (simp add: probe_def)
  let ?l = "l\<lparr>li_Loops := (li_Loops l)[i := ?h\<lparr>hl_Ctl := Publishing, hl_Previous := Some False\<rparr>],
      li_Pool := (li_Pool l)\<lparr>po_State := s', po_Probes := (po_Probes (li_Pool l))[i := calls]\<rparr>,
      li_Log := li_Log l @ loopLog ?h False\<rparr>"
  from loop_reports [OF assms(3) refl assms(4) failed [symmetric] s(1)] have step: "life_step l ?l"
    using assms(1) by (simp add: life_step_def)
  have "load s' = load ?s" "\<not> usable s' (b_Name (hl_Backend ?h))"
    using SetHealth_effect(2,3) [OF assms(2), of "b_Name (hl_Backend ?h)" False] bsOf_emit unfolding s(2)
    by (auto simp: usable_def split: option.splits)
  with step show ?thesis by (intro exI [of _ ?l] conjI) simp_all
qed

end
