(* ===== verification/Spec2Isabelle.thy ===== *)
theory Spec2Isabelle
  imports Lifecycle MetricsTyping Balancer Bodies Forwarding Findings
begin

text \<open>
  A verification development for \<^verbatim>\<open>local-inference-router\<close>, a reverse proxy that spreads
  OpenAI-style chat completions over a few local inference backends.

  \<^bold>\<open>The program.\<close> \<^verbatim>\<open>internal/cli\<close> parses the arguments, loads the configuration
  (\<^verbatim>\<open>internal/config\<close>), builds the backends (\<^verbatim>\<open>internal/backend\<close>) and the routing state
  (\<^verbatim>\<open>internal/router/state.go\<close>), starts one health loop per backend and serves HTTP
  (\<^verbatim>\<open>internal/httpapi\<close>). A chat request is checked, its alias looked up, a route chosen and a slot
  of its backend reserved under the state's mutex; \<^verbatim>\<open>internal/router/proxy.go\<close> sends the request
  upstream, fails over to the next route where it may, relays the answer
  (\<^verbatim>\<open>internal/router/stream.go\<close>, \<^verbatim>\<open>headers.go\<close>) and gives the slot back.
  \<^verbatim>\<open>internal/metrics\<close> counts all of it.

  \<^bold>\<open>The theories.\<close>
  \<^item> \<open>Prelude\<close>: generic lemmas and the result type of calls that may panic.
  \<^item> \<open>GoStrings\<close>, \<open>GoHttp\<close>, \<open>GoIo\<close>, \<open>Net\<close>, \<open>Mime\<close>, \<open>Json\<close>, \<open>JsonDecode\<close>: what the source uses of
    Go's standard library: strings as bytes, header maps with canonical keys, response writers,
    \<^verbatim>\<open>net\<close> addresses, media types, the scanner, compaction, quoting and decoding of
    \<^verbatim>\<open>encoding/json\<close>. \<open>JsonStrings\<close>, \<open>JsonValues\<close> and \<open>JsonRoundtrip\<close> hold their round trips, \<open>JsonTotal\<close>
    that decoding succeeds on every valid text of the right kind, and \<open>JsonText\<close> which texts,
    compact or indented, are valid.
    \<open>Addresses\<close> shows that printing and parsing IP addresses are inverse to each other.
  \<^item> \<open>Config\<close>, \<open>Url\<close>, \<open>Validate\<close>: \<^verbatim>\<open>internal/config\<close>. Types and defaults, URL parsing and origin
    keys, and loading with every check of validation; each error message is a constructor that
    carries what the message carries.
  \<^item> \<open>Backend\<close>, \<open>Health\<close>: \<^verbatim>\<open>internal/backend\<close>. Backends, credentials and client settings; one
    probe, one check, and the loop of checks of a backend.
  \<^item> \<open>Metrics\<close>: \<^verbatim>\<open>metrics.go\<close>. A metrics object is the list of the calls made on its
    instruments, in order; \<open>None\<close> is a nil pointer.
  \<^item> \<open>RouterState\<close>: \<^verbatim>\<open>state.go\<close> and \<^verbatim>\<open>select.go\<close>. The state is a record of a heap of backend
    cells, the map of backends, their order, the aliases and the metrics; a method that
    dereferences a pointer returns an option, \<open>None\<close> being the panic. Methods that publish a gauge
    after releasing the mutex are split into the critical section (\<open>_locked\<close>) and the rest.
  \<^item> \<open>Headers\<close>, \<open>Relay\<close>: \<^verbatim>\<open>headers.go\<close> and \<^verbatim>\<open>stream.go\<close>. The idle reader is a step relation over its
    critical sections, its timer and its caller.
  \<^item> \<open>Ledger\<close>: the interface between the routing state and whoever holds reservations, a locale
    that the routing state interprets.
  \<^item> \<open>Balancer\<close>: the specification of the routing state, a load and a usable flag per backend, and the
    refinement of every operation.
  \<^item> \<open>Proxy\<close>, \<open>Serving\<close>: \<^verbatim>\<open>proxy.go\<close>, the request loop of \<open>Serve\<close> round by round, and what it
    guarantees.
  \<^item> \<open>Forwarding\<close>: what the upstream requests contain, from the client's body to the body sent.
  \<^item> \<open>Concurrency\<close>: any number of requests and health reports interleaved at the granularity of the
    state's critical sections, an inductive relation.
  \<^item> \<open>HttpApi\<close>, \<open>Endpoints\<close>: \<^verbatim>\<open>internal/httpapi\<close>, the handlers from the request to the bytes
    written, the multiplexer, and what they guarantee; the locale \<open>api_handler\<close> is the contract of a
    handler, \<open>total_handler\<close> that of one that never panics, and gives the first; the chat handler
    interprets the first, the other four the second. \<open>Bodies\<close>: the JSON bodies, read and written.
  \<^item> \<open>Startup\<close>: \<^verbatim>\<open>main.go\<close> and \<^verbatim>\<open>internal/cli\<close>, from the arguments to the exit code, with the end of
    serving as a parameter.
  \<^item> \<open>Lifecycle\<close>: the second half of \<open>runServe\<close>, from the start of the goroutines to the exit. The main
    goroutine (\<open>main_step\<close>), the one of the server (\<open>server_step\<close>), the health loops (\<open>loop_step\<close>) and
    what comes from outside (\<open>outer_step\<close>: signals, ticks, connections, the steps of the requests)
    interleave freely. \<open>Transition\<close> holds the two locales it rests on: a simulation, by which the
    results of \<open>Concurrency\<close> hold for the process, and a measure that ends a run.
  \<^item> \<open>MetricsTyping\<close>: the domains of all metric labels; every call of the process and of the API,
    panicking requests included, is well typed.
  \<^item> \<open>Findings\<close>: where the code does not do what it means to, as facts about the model.

  \<^bold>\<open>What is shown.\<close> A request that returns has sent one upstream answer or one error, tried each
  route at most once and given its slot back, and the only way not to return is a panic, for an
  upstream status that is not three digits, after which that one slot stays taken (\<open>Serving\<close>); every operation keeps the state well
  formed and the loads within capacity, alone (\<open>RouterState\<close>) and under every interleaving
  (\<open>Concurrency\<close>); route selection is optimal; the relay forwards a prefix of the upstream body
  and the idle timeout is sound and live (\<open>Relay\<close>); exactly the headers that may pass are passed
  (\<open>Headers\<close>); every upstream request carries the client's members with the route's model
  (\<open>Forwarding\<close>); validation accepts exactly the valid configurations and a valid configuration
  starts (\<open>Validate\<close>, \<open>Startup\<close>); the process keeps all this from its start to its exit, ends after
  a signal or a failure of the server, and exits with the codes of the sequential command
  (\<open>Lifecycle\<close>), though a request may outlive a shutdown that timed out; the endpoints admit
  exactly the requests they should, count every request that returns once and leak nothing
  (\<open>Endpoints\<close>). These hold without assumptions on what upstreams answer; where a status that is not
  three digits makes the difference, the theorems say so.

  \<^bold>\<open>Environment.\<close> Network outcomes, clocks, cancellation of the client's context, the results of
  writes to the client, the file system, the environment variables and the YAML library are
  fields of records (\<open>env\<close>, \<open>apiEnv\<close>, \<open>process\<close>, \<open>fileSystem\<close>) or arguments. No definition takes
  fuel: the request loop ends because every round adds a route to the attempted ones, and
  the number of routes bounds it; the parsers shorten their input. The measure \<open>fuel\<close> of
  \<open>Lifecycle\<close> is a bound that is proved: 3 steps of the main goroutine and 4 of each loop.

  \<^bold>\<open>Not modelled.\<close> The text of log lines and of configuration errors; the Prometheus and YAML
  libraries, the transport of \<^verbatim>\<open>net/http\<close> and its redirects, which are parameters; time: the ticker of the
  health loops and the timeouts of shutdown and requests are events that may happen at any
  moment, so nothing is said about how long a phase takes. In \<open>Lifecycle\<close> a request is one of
  \<open>Concurrency\<close>, without the HTTP handler around it (\<open>Endpoints\<close> shows that the handler adds no
  step on the routing state but the reads of status and readiness and the count of the request). Of \<^verbatim>\<open>internal/\<close> only accessors
  without logic are left out: \<open>Client\<close>, \<open>Registry\<close>, the struct and constructor of the proxy, which is
  its state and metrics, and the exposition format of the metrics.
\<close>

end
